(* ===== verification/Prez_Prelude.thy ===== *)
theory Prez_Prelude
  imports Main "HOL-Library.Word" "HOL-Library.Multiset" "HOL-Library.Monad_Syntax"
begin

text \<open>
  Shared vocabulary of the development: the C integer types with their wrap-around, byte
  strings and C strings, fixed-size character arrays, decimal numerals, and the generic list
  and option lemmas that the component theories use.  Nothing in this theory models a
  particular file of the repository; the decimal printer and the majority lemmas are the
  reference definitions the components are compared with.
\<close>

section \<open>Named collections\<close>

named_theorems c_int \<open>unfolding of the C integer conversions\<close>
named_theorems c_str \<open>facts on C strings and character arrays\<close>

section \<open>Result codes\<close>

abbreviation (input) PREZ_OK :: int where "PREZ_OK \<equiv> 0"
abbreviation (input) PREZ_ERR :: int where "PREZ_ERR \<equiv> -1"

text \<open>
  Ways in which an execution leaves the defined part of C or ends the process.  An operation
  that can do so returns \<open>fault + 'a\<close>.
\<close>

datatype fault =
    Null_Deref        \<comment> \<open>a NULL or dangling pointer is dereferenced\<close>
  | Out_Of_Bounds     \<comment> \<open>an array is read or written outside its bounds\<close>
  | Assert_Failed     \<comment> \<open>prezAssert or assert fails\<close>
  | Out_Of_Memory     \<comment> \<open>zmalloc cannot serve the request and aborts\<close>
  | Exit nat          \<comment> \<open>exit(n)\<close>

section \<open>C integers\<close>

abbreviation (input) LLONG_MAX :: int where "LLONG_MAX \<equiv> 9223372036854775807"
abbreviation (input) LLONG_MIN :: int where "LLONG_MIN \<equiv> -9223372036854775808"
abbreviation (input) ULLONG_MAX :: nat where "ULLONG_MAX \<equiv> 18446744073709551615"

text \<open>Conversion to \<open>long long\<close> / \<open>long\<close>, to \<open>unsigned long\<close>, and to \<open>int\<close>.\<close>

definition ll :: "int \<Rightarrow> int" where
  "ll x = (x + 9223372036854775808) mod 18446744073709551616 - 9223372036854775808"

definition ull :: "int \<Rightarrow> nat" where
  "ull x = nat (x mod 18446744073709551616)"

definition c_int32 :: "int \<Rightarrow> int" where
  "c_int32 x = (x + 2147483648) mod 4294967296 - 2147483648"

definition is_ll :: "int \<Rightarrow> bool" where
  "is_ll x \<longleftrightarrow> LLONG_MIN \<le> x \<and> x \<le> LLONG_MAX"

lemma is_ll_ll [simp, intro]: "is_ll (ll x)"
  by (simp add: is_ll_def ll_def)

lemma ll_id [simp]: "is_ll x \<Longrightarrow> ll x = x"
  by (simp add: is_ll_def ll_def)

lemma is_ll_small: "\<bar>x\<bar> < 9223372036854775808 \<Longrightarrow> is_ll x"
  unfolding is_ll_def by linarith

lemma ull_of_nat [simp]: "n \<le> ULLONG_MAX \<Longrightarrow> ull (int n) = n"
  by (simp add: ull_def)

lemma ull_ll [simp]: "ull (ll x) = ull x"
  by (simp add: ull_def ll_def mod_diff_left_eq)

lemma ull_le: "ull x \<le> ULLONG_MAX"
  using pos_mod_bound [of 18446744073709551616 x] pos_mod_sign [of 18446744073709551616 x]
  unfolding ull_def by linarith

lemma ull_nonneg: "0 \<le> x \<Longrightarrow> x \<le> int ULLONG_MAX \<Longrightarrow> ull x = nat x"
  by (simp add: ull_def)

lemma ull_neg: "x < 0 \<Longrightarrow> LLONG_MIN \<le> x \<Longrightarrow> 9223372036854775808 \<le> ull x"
proof -
  assume a: "x < 0" "LLONG_MIN \<le> x"
  have "x mod 18446744073709551616 = (x + 18446744073709551616) mod 18446744073709551616"
    by simp
  also have "\<dots> = x + 18446744073709551616"
    by (rule mod_pos_pos_trivial) (use a in auto)
  finally show ?thesis using a by (simp add: ull_def)
qed

lemma c_int32_id: "-2147483648 \<le> x \<Longrightarrow> x < 2147483648 \<Longrightarrow> c_int32 x = x"
  by (simp add: c_int32_def)

section \<open>Byte strings and C strings\<close>

abbreviation (input) NUL :: char where "NUL \<equiv> CHR 0x00"
abbreviation (input) CR :: char where "CR \<equiv> CHR 0x0D"
abbreviation (input) LF :: char where "LF \<equiv> CHR 0x0A"
abbreviation (input) CRLF :: string where "CRLF \<equiv> [CR, LF]"

text \<open>The C string held by a buffer: everything before the first null byte.\<close>

definition cstr :: "string \<Rightarrow> string" where
  "cstr s = takeWhile (\<lambda>c. c \<noteq> NUL) s"

definition strlen :: "string \<Rightarrow> nat" where
  "strlen s = length (cstr s)"

text \<open>A character array of \<open>n\<close> bytes, zeroed and then overwritten from the start.\<close>

definition char_array :: "nat \<Rightarrow> string \<Rightarrow> string" where
  "char_array n s = s @ replicate (n - length s) NUL"

lemma cstr_no_nul [simp]: "NUL \<notin> set (cstr s)"
  by (auto simp: cstr_def dest: set_takeWhileD)

lemma cstr_id [c_str]: "NUL \<notin> set s \<Longrightarrow> cstr s = s"
  by (simp add: cstr_def takeWhile_eq_all_conv) (metis)

lemma cstr_append_nul [c_str]: "NUL \<notin> set s \<Longrightarrow> cstr (s @ NUL # t) = s"
  by (induction s) (auto simp: cstr_def)

lemma cstr_idem [simp]: "cstr (cstr s) = cstr s"
  by (rule cstr_id) simp

lemma cstr_split: "\<exists>q. s @ [NUL] = cstr s @ NUL # q"
  by (induction s) (auto simp: cstr_def)

lemma length_cstr_le: "length (cstr s) \<le> length s"
  by (simp add: cstr_def length_takeWhile_le)

lemma cstr_char_array [c_str]:
  "NUL \<notin> set s \<Longrightarrow> cstr (char_array n s) = s"
proof (cases "n - length s")
  case (Suc k)
  assume "NUL \<notin> set s"
  then show ?thesis by (simp add: char_array_def Suc cstr_append_nul)
qed (simp add: char_array_def cstr_id)

lemma length_char_array [c_str]: "length s \<le> n \<Longrightarrow> length (char_array n s) = n"
  by (simp add: char_array_def)

section \<open>Decimal numerals\<close>

definition digit_char :: "nat \<Rightarrow> char" where
  "digit_char d = char_of (48 + d)"

definition is_digit :: "char \<Rightarrow> bool" where
  "is_digit c \<longleftrightarrow> 48 \<le> (of_char c :: nat) \<and> (of_char c :: nat) \<le> 57"

definition digit_val :: "char \<Rightarrow> nat" where
  "digit_val c = of_char c - 48"

text \<open>The decimal representation of a number, without leading zeros.\<close>

fun show_nat :: "nat \<Rightarrow> string" where
  "show_nat n = (if n < 10 then [digit_char n] else show_nat (n div 10) @ [digit_char (n mod 10)])"

declare show_nat.simps [simp del]

definition show_int :: "int \<Rightarrow> string" where
  "show_int i = (if i < 0 then CHR ''-'' # show_nat (nat (- i)) else show_nat (nat i))"

text \<open>The value of a string of digits, most significant first.\<close>

definition dec_val :: "string \<Rightarrow> nat" where
  "dec_val s = foldl (\<lambda>v c. 10 * v + digit_val c) 0 s"

lemma of_char_digit [simp]: "d < 10 \<Longrightarrow> (of_char (digit_char d) :: nat) = 48 + d"
  by (simp add: digit_char_def)

lemma is_digit_char [simp]: "d < 10 \<Longrightarrow> is_digit (digit_char d)"
  by (simp add: is_digit_def)

lemma digit_val_char [simp]: "d < 10 \<Longrightarrow> digit_val (digit_char d) = d"
  by (simp add: digit_val_def)

lemma digit_val_less: "is_digit c \<Longrightarrow> digit_val c < 10"
  unfolding is_digit_def digit_val_def by linarith

lemma digit_char_val [simp]: "is_digit c \<Longrightarrow> digit_char (digit_val c) = c"
  by (simp add: is_digit_def digit_val_def digit_char_def)

lemma digit_char_inj: "a < 10 \<Longrightarrow> b < 10 \<Longrightarrow> digit_char a = digit_char b \<Longrightarrow> a = b"
  by (metis digit_val_char)

lemma dec_val_snoc: "dec_val (s @ [c]) = 10 * dec_val s + digit_val c"
  by (simp add: dec_val_def)

lemma show_nat_not_Nil [simp]: "show_nat n \<noteq> []"
  by (subst show_nat.simps) simp

lemma show_nat_digits: "c \<in> set (show_nat n) \<Longrightarrow> is_digit c"
proof (induction n rule: show_nat.induct)
  case (1 n)
  then show ?case
    by (cases "n < 10") (auto simp: show_nat.simps [of n])
qed

lemma dec_val_show_nat [simp]: "dec_val (show_nat n) = n"
proof (induction n rule: show_nat.induct)
  case (1 n)
  then show ?case
    by (cases "n < 10") (auto simp: show_nat.simps [of n] dec_val_snoc dec_val_def)
qed

lemma show_nat_hd_nonzero: "0 < n \<Longrightarrow> hd (show_nat n) \<noteq> CHR ''0''"
proof (induction n rule: show_nat.induct)
  case (1 n)
  have z: "CHR ''0'' = digit_char 0"
    by code_simp
  show ?case
  proof (cases "n < 10")
    case True
    with 1 show ?thesis unfolding z
      by (auto simp: show_nat.simps [of n] dest: digit_char_inj [rotated 2])
  next
    case False
    with 1 have "hd (show_nat (n div 10)) \<noteq> CHR ''0''" by simp
    with False show ?thesis by (simp add: show_nat.simps [of n])
  qed
qed

lemma show_int_not_Nil [simp]: "show_int i \<noteq> []"
  by (simp add: show_int_def)

lemma show_nat_no_minus: "CHR ''-'' \<notin> set (show_nat n)"
  using show_nat_digits [of "CHR ''-''" n] by (auto simp: is_digit_def)

lemma show_nat_inj: "show_nat a = show_nat b \<Longrightarrow> a = b"
  by (metis dec_val_show_nat)

lemma show_nat_not_minus: "CHR ''-'' # s \<noteq> show_nat n"
  using show_nat_no_minus [of n] by (metis list.set_intros(1))

lemma show_int_inj: "show_int a = show_int b \<Longrightarrow> a = b"
  by (auto simp: show_int_def show_nat_not_minus show_nat_not_minus [symmetric]
      split: if_splits dest: show_nat_inj)

text \<open>A digit string without a leading zero is the representation of its value.\<close>

lemma show_nat_snoc:
  assumes "0 < v" "is_digit c"
  shows "show_nat (10 * v + digit_val c) = show_nat v @ [c]"
proof -
  have d: "digit_val c < 10" using assms(2) by (rule digit_val_less)
  have "show_nat (10 * v + digit_val c) =
      show_nat ((10 * v + digit_val c) div 10) @ [digit_char ((10 * v + digit_val c) mod 10)]"
    using assms(1) by (subst show_nat.simps) simp
  then show ?thesis using d assms(2) by simp
qed

lemma show_nat_foldl:
  "0 < v \<Longrightarrow> (\<And>c. c \<in> set s \<Longrightarrow> is_digit c) \<Longrightarrow>
   show_nat (foldl (\<lambda>v c. 10 * v + digit_val c) v s) = show_nat v @ s"
  by (induction s arbitrary: v) (simp_all add: show_nat_snoc)

lemma show_int_no_nul: "NUL \<notin> set (show_int i)"
  using show_nat_digits [of NUL "nat i"] show_nat_digits [of NUL "nat (- i)"]
  by (auto simp: show_int_def is_digit_def)

lemma show_int_no_lf: "LF \<notin> set (show_int i)"
  using show_nat_digits [of LF "nat i"] show_nat_digits [of LF "nat (- i)"]
  by (auto simp: show_int_def is_digit_def)

text \<open>
  Character classes of the C locale and the library functions \<open>strcasecmp\<close> (equality
  only), \<open>strtol\<close>/\<open>strtoll\<close> in base 10 and \<open>atoi\<close>.  \<open>strtoll\<close> skips leading white
  space, takes an optional sign and the longest run of digits, and saturates.
\<close>

definition c_isspace :: "char \<Rightarrow> bool" where
  "c_isspace c \<longleftrightarrow> (let n = (of_char c :: nat) in n = 32 \<or> (9 \<le> n \<and> n \<le> 13))"

definition c_tolower :: "char \<Rightarrow> char" where
  "c_tolower c = (let n = (of_char c :: nat) in if 65 \<le> n \<and> n \<le> 90 then char_of (n + 32) else c)"

definition strcaseeq :: "string \<Rightarrow> string \<Rightarrow> bool" where
  "strcaseeq s t \<longleftrightarrow> map c_tolower s = map c_tolower t"

definition strtoll10 :: "string \<Rightarrow> int" where
  "strtoll10 s =
     (let p = dropWhile c_isspace s;
          neg = (p \<noteq> [] \<and> hd p = CHR ''-'');
          q = (if p \<noteq> [] \<and> (hd p = CHR ''-'' \<or> hd p = CHR ''+'') then tl p else p);
          v = int (dec_val (takeWhile is_digit q))
      in if neg then (if v > 9223372036854775808 then LLONG_MIN else - v)
         else (if v > LLONG_MAX then LLONG_MAX else v))"

definition c_atoi :: "string \<Rightarrow> int" where
  "c_atoi s = c_int32 (strtoll10 s)"

lemma takeWhile_show_nat: "takeWhile is_digit (show_nat n) = show_nat n"
  by (simp add: takeWhile_eq_all_conv show_nat_digits)

lemma takeWhile_show_nat_append:
  "\<not> is_digit c \<Longrightarrow> takeWhile is_digit (show_nat n @ c # t) = show_nat n"
  by (simp add: takeWhile_append show_nat_digits)

lemma hd_show_nat_digit: "is_digit (hd (show_nat n))"
  by (rule show_nat_digits [OF hd_in_set]) simp

lemma digit_not_space: "is_digit c \<Longrightarrow> \<not> c_isspace c"
  by (auto simp: is_digit_def c_isspace_def Let_def)

lemma digit_not_sign: "is_digit c \<Longrightarrow> c \<noteq> CHR ''-'' \<and> c \<noteq> CHR ''+''"
  by (auto simp: is_digit_def)

lemma strtoll10_digits:
  assumes "n \<le> nat LLONG_MAX" "takeWhile is_digit (show_nat n @ t) = show_nat n"
  shows "strtoll10 (show_nat n @ t) = int n"
proof -
  obtain c r where cr: "show_nat n @ t = c # r" "is_digit c"
    using hd_show_nat_digit [of n] by (cases "show_nat n") auto
  then have "\<not> c_isspace c" "c \<noteq> CHR ''-''" "c \<noteq> CHR ''+''"
    by (auto dest: digit_not_space digit_not_sign)
  then show ?thesis using assms cr by (simp add: strtoll10_def)
qed

lemma strtoll10_show_nat: "n \<le> nat LLONG_MAX \<Longrightarrow> strtoll10 (show_nat n) = int n"
  using strtoll10_digits [of n "[]"] by (simp add: takeWhile_show_nat)

lemma strtoll10_show_nat_append:
  "n \<le> nat LLONG_MAX \<Longrightarrow> \<not> is_digit c \<Longrightarrow> strtoll10 (show_nat n @ c # t) = int n"
  by (rule strtoll10_digits) (simp_all add: takeWhile_show_nat_append)

section \<open>Lists\<close>

lemma foldl_mono_le:
  fixes f :: "nat \<Rightarrow> 'a \<Rightarrow> nat"
  assumes "\<And>v c. v \<le> f v c"
  shows "v \<le> foldl f v s"
  by (induction s arbitrary: v) (auto intro: le_trans assms)

lemma last_conv_nth': "xs \<noteq> [] \<Longrightarrow> last xs = xs ! (length xs - Suc 0)"
  by (simp add: last_conv_nth)

section \<open>Majorities\<close>

text \<open>Two sets that each hold more than half of a finite population share a member.\<close>

lemma majorities_meet:
  assumes "finite E" "S \<subseteq> E" "T \<subseteq> E" "card E < 2 * card S" "card E < 2 * card T"
  shows "\<exists>x. x \<in> S \<and> x \<in> T"
proof (rule ccontr)
  assume "\<not> ?thesis"
  then have disj: "S \<inter> T = {}" by blast
  have "finite S" "finite T" using assms(1-3) by (auto intro: finite_subset)
  then have "card (S \<union> T) = card S + card T" using disj by (rule card_Un_disjoint)
  moreover have "card (S \<union> T) \<le> card E" using assms(1-3) by (intro card_mono) auto
  ultimately show False using assms(4,5) by linarith
qed

end
