(* ===== verification/Prez_Adlist.thy ===== *)
theory Prez_Adlist
  imports Prez_Prelude
begin

text \<open>
  The doubly linked list of src/src/adlist.c over an explicit heap of nodes.  A pointer is an
  address or NULL (\<open>None\<close>); reading or writing through NULL or through a freed address makes
  the operation return \<open>None\<close>.  \<open>zmalloc\<close> hands out fresh addresses until the heap is full.
  The representation predicate \<open>lrep\<close> links a list header to a sequence of nodes; every
  operation is shown to carry out the corresponding operation on that sequence, without a
  memory fault.  \<open>list_index\<close> is the sequence-level reading of \<open>listIndex\<close> that the log
  component uses.
\<close>

section \<open>Heap and list header\<close>

record 'v listNode =
  ln_prev :: "nat option"
  ln_next :: "nat option"
  ln_value :: 'v

record 'v heap =
  cells :: "nat \<Rightarrow> 'v listNode option"
  brk :: nat            \<comment> \<open>next fresh address\<close>
  lim :: nat            \<comment> \<open>end of the heap\<close>
  freed :: "'v list"    \<comment> \<open>values passed to the list's free method, latest first\<close>

record 'v dlist =
  l_head :: "nat option"
  l_tail :: "nat option"
  l_dup :: "('v \<Rightarrow> 'v option) option"
  l_free :: bool        \<comment> \<open>a free method is set\<close>
  l_match :: "('v \<Rightarrow> 'v \<Rightarrow> bool) option"
  l_len :: nat

definition zmalloc :: "'v heap \<Rightarrow> (nat \<times> 'v heap) option" where
  "zmalloc h = (if brk h < lim h then Some (brk h, h\<lparr>brk := Suc (brk h)\<rparr>) else None)"

definition zfree :: "'v heap \<Rightarrow> nat \<Rightarrow> 'v heap" where
  "zfree h p = h\<lparr>cells := (cells h)(p := None)\<rparr>"

definition put_node :: "'v heap \<Rightarrow> nat \<Rightarrow> 'v listNode \<Rightarrow> 'v heap" where
  "put_node h p n = h\<lparr>cells := (cells h)(p \<mapsto> n)\<rparr>"

text \<open>Write to the node a pointer refers to.\<close>

definition upd_node :: "'v heap \<Rightarrow> nat option \<Rightarrow> ('v listNode \<Rightarrow> 'v listNode) \<Rightarrow> 'v heap option" where
  "upd_node h q f =
     do { p \<leftarrow> q; n \<leftarrow> cells h p; Some (put_node h p (f n)) }"

definition free_value :: "'v heap \<Rightarrow> 'v dlist \<Rightarrow> 'v \<Rightarrow> 'v heap" where
  "free_value h l v = (if l_free l then h\<lparr>freed := v # freed h\<rparr> else h)"

section \<open>Operations\<close>

definition listCreate :: "'v heap \<Rightarrow> ('v heap \<times> 'v dlist) option" where
  "listCreate h =
     (case zmalloc h of
        None \<Rightarrow> None
      | Some (p, h') \<Rightarrow>
          Some (h', \<lparr>l_head = None, l_tail = None, l_dup = None, l_free = False,
                     l_match = None, l_len = 0\<rparr>))"

text \<open>The loop of \<open>listRelease\<close>, run \<open>len\<close> times from the head.\<close>

fun listRelease_loop :: "nat \<Rightarrow> 'v dlist \<Rightarrow> nat option \<Rightarrow> 'v heap \<Rightarrow> 'v heap option" where
  "listRelease_loop 0 l current h = Some h"
| "listRelease_loop (Suc len) l current h =
     do { p \<leftarrow> current;
          n \<leftarrow> cells h p;
          listRelease_loop len l (ln_next n) (zfree (free_value h l (ln_value n)) p) }"

definition listRelease :: "'v heap \<Rightarrow> 'v dlist \<Rightarrow> 'v heap option" where
  "listRelease h l = listRelease_loop (l_len l) l (l_head l) h"

text \<open>The insertions return the new list and whether the returned pointer is non-NULL.\<close>

definition listAddNodeHead :: "'v heap \<Rightarrow> 'v dlist \<Rightarrow> 'v \<Rightarrow> ('v heap \<times> 'v dlist \<times> bool) option" where
  "listAddNodeHead h l v =
     (case zmalloc h of
        None \<Rightarrow> Some (h, l, False)
      | Some (p, h) \<Rightarrow>
          if l_len l = 0 then
            Some (put_node h p \<lparr>ln_prev = None, ln_next = None, ln_value = v\<rparr>,
                  l\<lparr>l_head := Some p, l_tail := Some p, l_len := l_len l + 1\<rparr>, True)
          else
            do { let h = put_node h p \<lparr>ln_prev = None, ln_next = l_head l, ln_value = v\<rparr>;
                 h \<leftarrow> upd_node h (l_head l) (\<lambda>n. n\<lparr>ln_prev := Some p\<rparr>);
                 Some (h, l\<lparr>l_head := Some p, l_len := l_len l + 1\<rparr>, True) })"

definition listAddNodeTail :: "'v heap \<Rightarrow> 'v dlist \<Rightarrow> 'v \<Rightarrow> ('v heap \<times> 'v dlist \<times> bool) option" where
  "listAddNodeTail h l v =
     (case zmalloc h of
        None \<Rightarrow> Some (h, l, False)
      | Some (p, h) \<Rightarrow>
          if l_len l = 0 then
            Some (put_node h p \<lparr>ln_prev = None, ln_next = None, ln_value = v\<rparr>,
                  l\<lparr>l_head := Some p, l_tail := Some p, l_len := l_len l + 1\<rparr>, True)
          else
            do { let h = put_node h p \<lparr>ln_prev = l_tail l, ln_next = None, ln_value = v\<rparr>;
                 h \<leftarrow> upd_node h (l_tail l) (\<lambda>n. n\<lparr>ln_next := Some p\<rparr>);
                 Some (h, l\<lparr>l_tail := Some p, l_len := l_len l + 1\<rparr>, True) })"

definition listInsertNode ::
  "'v heap \<Rightarrow> 'v dlist \<Rightarrow> nat \<Rightarrow> 'v \<Rightarrow> bool \<Rightarrow> ('v heap \<times> 'v dlist \<times> bool) option" where
  "listInsertNode h l old v after =
     (case zmalloc h of
        None \<Rightarrow> Some (h, l, False)
      | Some (p, h) \<Rightarrow>
          do { o' \<leftarrow> cells h old;
               let node = (if after
                           then \<lparr>ln_prev = Some old, ln_next = ln_next o', ln_value = v\<rparr>
                           else \<lparr>ln_prev = ln_prev o', ln_next = Some old, ln_value = v\<rparr>);
               let l = (if after
                        then (if l_tail l = Some old then l\<lparr>l_tail := Some p\<rparr> else l)
                        else (if l_head l = Some old then l\<lparr>l_head := Some p\<rparr> else l));
               let h = put_node h p node;
               h \<leftarrow> (if ln_prev node \<noteq> None
                     then upd_node h (ln_prev node) (\<lambda>n. n\<lparr>ln_next := Some p\<rparr>) else Some h);
               h \<leftarrow> (if ln_next node \<noteq> None
                     then upd_node h (ln_next node) (\<lambda>n. n\<lparr>ln_prev := Some p\<rparr>) else Some h);
               Some (h, l\<lparr>l_len := l_len l + 1\<rparr>, True) })"

definition listDelNode :: "'v heap \<Rightarrow> 'v dlist \<Rightarrow> nat \<Rightarrow> ('v heap \<times> 'v dlist) option" where
  "listDelNode h l p =
     do { n \<leftarrow> cells h p;
          (h, l) \<leftarrow> (case ln_prev n of
                      Some q \<Rightarrow> do { h \<leftarrow> upd_node h (Some q) (\<lambda>m. m\<lparr>ln_next := ln_next n\<rparr>);
                                    Some (h, l) }
                    | None \<Rightarrow> Some (h, l\<lparr>l_head := ln_next n\<rparr>));
          (h, l) \<leftarrow> (case ln_next n of
                      Some q \<Rightarrow> do { h \<leftarrow> upd_node h (Some q) (\<lambda>m. m\<lparr>ln_prev := ln_prev n\<rparr>);
                                    Some (h, l) }
                    | None \<Rightarrow> Some (h, l\<lparr>l_tail := ln_prev n\<rparr>));
          Some (zfree (free_value h l (ln_value n)) p, l\<lparr>l_len := l_len l - 1\<rparr>) }"

text \<open>Iterators: the next node and the direction.\<close>

datatype direction = AL_START_HEAD | AL_START_TAIL

record listIter =
  li_next :: "nat option"
  li_dir :: direction

definition listGetIterator :: "'v dlist \<Rightarrow> direction \<Rightarrow> listIter" where
  "listGetIterator l d =
     \<lparr>li_next = (if d = AL_START_HEAD then l_head l else l_tail l), li_dir = d\<rparr>"

definition listRewind :: "'v dlist \<Rightarrow> listIter" where
  "listRewind l = \<lparr>li_next = l_head l, li_dir = AL_START_HEAD\<rparr>"

definition listRewindTail :: "'v dlist \<Rightarrow> listIter" where
  "listRewindTail l = \<lparr>li_next = l_tail l, li_dir = AL_START_TAIL\<rparr>"

definition listNext :: "'v heap \<Rightarrow> listIter \<Rightarrow> (nat option \<times> listIter) option" where
  "listNext h it =
     (case li_next it of
        None \<Rightarrow> Some (None, it)
      | Some p \<Rightarrow>
          do { n \<leftarrow> cells h p;
               Some (Some p, it\<lparr>li_next := (if li_dir it = AL_START_HEAD
                                           then ln_next n else ln_prev n)\<rparr>) })"

text \<open>
  The loops of \<open>listDup\<close> and \<open>listSearchKey\<close>.  On a corrupted, cyclic list they would not
  return, so they are partial functions.  The copy of \<open>listDup\<close> lives in the same heap.
\<close>

partial_function (option) listDup_loop ::
  "'v heap \<Rightarrow> listIter \<Rightarrow> 'v dlist \<Rightarrow> ('v heap \<times> 'v dlist option) option" where
  "listDup_loop h it copy =
     do { (node, it) \<leftarrow> listNext h it;
          case node of
            None \<Rightarrow> Some (h, Some copy)
          | Some p \<Rightarrow>
              do { n \<leftarrow> cells h p;
                   case (case l_dup copy of Some d \<Rightarrow> d (ln_value n) | None \<Rightarrow> Some (ln_value n)) of
                     None \<Rightarrow> do { h \<leftarrow> listRelease h copy; Some (h, None) }
                   | Some val \<Rightarrow>
                       do { (h, copy, ok) \<leftarrow> listAddNodeTail h copy val;
                            if \<not> ok then do { h \<leftarrow> listRelease h copy; Some (h, None) }
                            else listDup_loop h it copy } } }"

definition listDup :: "'v heap \<Rightarrow> 'v dlist \<Rightarrow> ('v heap \<times> 'v dlist option) option" where
  "listDup h orig =
     (case listCreate h of
        None \<Rightarrow> Some (h, None)
      | Some (h, copy) \<Rightarrow>
          listDup_loop h (listGetIterator orig AL_START_HEAD)
            (copy\<lparr>l_dup := l_dup orig, l_free := l_free orig, l_match := l_match orig\<rparr>))"

partial_function (option) listSearchKey_loop ::
  "'v heap \<Rightarrow> ('v \<Rightarrow> bool) \<Rightarrow> listIter \<Rightarrow> nat option option" where
  "listSearchKey_loop h eq it =
     do { (node, it) \<leftarrow> listNext h it;
          case node of
            None \<Rightarrow> Some None
          | Some p \<Rightarrow>
              do { n \<leftarrow> cells h p;
                   if eq (ln_value n) then Some (Some p) else listSearchKey_loop h eq it } }"

definition listSearchKey :: "'v heap \<Rightarrow> 'v dlist \<Rightarrow> 'v \<Rightarrow> nat option option" where
  "listSearchKey h l key =
     listSearchKey_loop h
       (case l_match l of Some m \<Rightarrow> (\<lambda>v. m v key) | None \<Rightarrow> (\<lambda>v. key = v))
       (listGetIterator l AL_START_HEAD)"

text \<open>\<open>while(index-- && n) n = n->link\<close>\<close>

fun listIndex_walk :: "('v listNode \<Rightarrow> nat option) \<Rightarrow> 'v heap \<Rightarrow> nat \<Rightarrow> nat option \<Rightarrow> nat option option" where
  "listIndex_walk link h 0 n = Some n"
| "listIndex_walk link h (Suc index) None = Some None"
| "listIndex_walk link h (Suc index) (Some p) =
     do { n \<leftarrow> cells h p; listIndex_walk link h index (link n) }"

definition listIndex :: "'v heap \<Rightarrow> 'v dlist \<Rightarrow> int \<Rightarrow> nat option option" where
  "listIndex h l index =
     (if index < 0 then listIndex_walk ln_prev h (nat (ll (ll (- index) - 1))) (l_tail l)
      else listIndex_walk ln_next h (nat index) (l_head l))"

definition listRotate :: "'v heap \<Rightarrow> 'v dlist \<Rightarrow> ('v heap \<times> 'v dlist) option" where
  "listRotate h l =
     (if l_len l \<le> 1 then Some (h, l)
      else
        do { t \<leftarrow> l_tail l;
             tn \<leftarrow> cells h t;
             let l = l\<lparr>l_tail := ln_prev tn\<rparr>;
             h \<leftarrow> upd_node h (l_tail l) (\<lambda>n. n\<lparr>ln_next := None\<rparr>);
             h \<leftarrow> upd_node h (l_head l) (\<lambda>n. n\<lparr>ln_prev := Some t\<rparr>);
             h \<leftarrow> upd_node h (Some t) (\<lambda>n. n\<lparr>ln_prev := None\<rparr>);
             h \<leftarrow> upd_node h (Some t) (\<lambda>n. n\<lparr>ln_next := l_head l\<rparr>);
             Some (h, l\<lparr>l_head := Some t\<rparr>) })"

section \<open>Representation\<close>

definition first_of :: "nat option \<Rightarrow> (nat \<times> 'v) list \<Rightarrow> nat option" where
  "first_of nx xs = (case xs of [] \<Rightarrow> nx | (p, v) # _ \<Rightarrow> Some p)"

definition last_of :: "nat option \<Rightarrow> (nat \<times> 'v) list \<Rightarrow> nat option" where
  "last_of pr xs = (if xs = [] then pr else Some (fst (last xs)))"

text \<open>
  A segment of linked nodes: \<open>pr\<close> is the previous pointer of its first node and \<open>nx\<close> the
  next pointer of its last one.
\<close>

fun dseg :: "(nat \<Rightarrow> 'v listNode option) \<Rightarrow> nat option \<Rightarrow> (nat \<times> 'v) list \<Rightarrow> nat option \<Rightarrow> bool" where
  "dseg c pr [] nx = True"
| "dseg c pr ((p, v) # xs) nx =
     (c p = Some \<lparr>ln_prev = pr, ln_next = first_of nx xs, ln_value = v\<rparr> \<and> dseg c (Some p) xs nx)"

definition lrep :: "'v heap \<Rightarrow> 'v dlist \<Rightarrow> (nat \<times> 'v) list \<Rightarrow> bool" where
  "lrep h l xs \<longleftrightarrow>
     dseg (cells h) None xs None \<and> distinct (map fst xs) \<and>
     (\<forall>p \<in> fst ` set xs. p < brk h) \<and>
     l_len l = length xs \<and> l_head l = first_of None xs \<and> l_tail l = last_of None xs"

named_theorems adl \<open>unfolding of the list operations\<close>

lemma first_of_simps [simp]:
  "first_of nx [] = nx" "first_of nx (x # xs) = Some (fst x)"
  by (auto simp: first_of_def split: prod.splits)

lemma first_of_append [simp]: "first_of nx (xs @ ys) = first_of (first_of nx ys) xs"
  by (cases xs) auto

lemma last_of_simps [simp]:
  "last_of pr [] = pr" "last_of pr (x # xs) = last_of (Some (fst x)) xs"
  by (auto simp: last_of_def)

lemma last_of_append [simp]: "last_of pr (xs @ ys) = last_of (last_of pr xs) ys"
  by (induction xs arbitrary: pr) auto

lemma dseg_append [simp]:
  "dseg c pr (xs @ ys) nx \<longleftrightarrow> dseg c pr xs (first_of nx ys) \<and> dseg c (last_of pr xs) ys nx"
  by (induction c pr xs nx rule: dseg.induct) auto

lemma dseg_frame:
  "(\<And>p. p \<in> fst ` set xs \<Longrightarrow> c' p = c p) \<Longrightarrow> dseg c' pr xs nx = dseg c pr xs nx"
  by (induction c pr xs nx rule: dseg.induct) auto

lemma dseg_upd_other [simp]: "p \<notin> fst ` set xs \<Longrightarrow> dseg (c(p := y)) pr xs nx = dseg c pr xs nx"
  by (rule dseg_frame) auto

lemma first_of_in: "xs \<noteq> [] \<Longrightarrow> \<exists>p \<in> fst ` set xs. first_of nx xs = Some p"
  by (cases xs) auto

text \<open>Facts the operation proofs share: the heap accessors and the freshness of new nodes.\<close>

lemmas heap_ops = zmalloc_def zfree_def put_node_def upd_node_def free_value_def

lemma lrep_fresh: "lrep h l xs \<Longrightarrow> brk h \<notin> fst ` set xs"
  by (force simp: lrep_def)

lemma lrep_split:
  assumes "lrep h l (xs @ (p, v) # ys)"
  shows "cells h p = Some \<lparr>ln_prev = last_of None xs, ln_next = first_of None ys, ln_value = v\<rparr>"
    "dseg (cells h) None xs (Some p)" "dseg (cells h) (Some p) ys None"
    "p \<notin> fst ` set xs" "p \<notin> fst ` set ys" "fst ` set xs \<inter> fst ` set ys = {}"
    "distinct (map fst xs)" "distinct (map fst ys)"
  using assms by (auto simp: lrep_def)

section \<open>Every operation acts on the represented sequence\<close>

lemma listCreate_rep:
  assumes "brk h < lim h"
  shows "\<exists>h' l. listCreate h = Some (h', l) \<and> lrep h' l [] \<and> cells h' = cells h"
  using assms by (simp add: listCreate_def zmalloc_def lrep_def)

lemma listAddNodeHead_rep:
  assumes "lrep h l xs" "brk h < lim h"
  shows "\<exists>h' l'. listAddNodeHead h l v = Some (h', l', True) \<and> lrep h' l' ((brk h, v) # xs)"
proof (cases xs)
  case Nil
  then show ?thesis using assms by (simp add: listAddNodeHead_def heap_ops lrep_def)
next
  case (Cons x ys)
  obtain q w where x: "x = (q, w)" by (cases x)
  moreover have "brk h \<notin> fst ` set ys" "q \<notin> fst ` set ys"
    using lrep_fresh [OF assms(1)] assms(1) Cons x by (auto simp: lrep_def)
  ultimately show ?thesis using assms Cons
    by (auto simp: listAddNodeHead_def heap_ops lrep_def less_Suc_eq image_iff)
qed

text \<open>Relinking the end of a segment.\<close>

lemma dseg_relink_last:
  assumes "dseg c pr xs nx" "distinct (map fst xs)" "xs \<noteq> []"
  shows "\<exists>n. c (fst (last xs)) = Some n \<and> dseg (c(fst (last xs) \<mapsto> n\<lparr>ln_next := nx'\<rparr>)) pr xs nx'"
proof -
  obtain ys p v where xs: "xs = ys @ [(p, v)]"
    using assms(3) by (metis rev_exhaust surj_pair)
  with assms show ?thesis by (auto simp: image_iff)
qed

lemma dseg_relink_first:
  assumes "dseg c pr xs nx" "distinct (map fst xs)" "xs \<noteq> []"
  shows "\<exists>n. c (fst (hd xs)) = Some n \<and> dseg (c(fst (hd xs) \<mapsto> n\<lparr>ln_prev := pr'\<rparr>)) pr' xs nx"
  using assms by (cases xs) (auto simp: image_iff)

lemma listAddNodeTail_rep:
  assumes "lrep h l xs" "brk h < lim h"
  shows "\<exists>h' l'. listAddNodeTail h l v = Some (h', l', True) \<and> lrep h' l' (xs @ [(brk h, v)])"
proof (cases "xs = []")
  case True
  then show ?thesis using assms by (simp add: listAddNodeTail_def heap_ops lrep_def)
next
  case False
  then obtain ys p w where xs: "xs = ys @ [(p, w)]"
    by (metis rev_exhaust surj_pair)
  with assms have "p \<noteq> brk h" "brk h \<notin> fst ` set ys" "p \<notin> fst ` set ys"
    using lrep_fresh [OF assms(1)] by (auto simp: lrep_def)
  then show ?thesis using assms xs
    by (auto simp: listAddNodeTail_def heap_ops lrep_def less_Suc_eq image_iff fun_upd_twist)
qed

lemma listAddNode_oom:
  assumes "\<not> brk h < lim h"
  shows "listAddNodeHead h l v = Some (h, l, False)" "listAddNodeTail h l v = Some (h, l, False)"
    "listInsertNode h l old v after = Some (h, l, False)"
  using assms by (simp_all add: listAddNodeHead_def listAddNodeTail_def listInsertNode_def zmalloc_def)

lemma listDelNode_rep:
  assumes "lrep h l (xs @ (p, v) # ys)"
  shows "\<exists>h' l'. listDelNode h l p = Some (h', l') \<and> lrep h' l' (xs @ ys) \<and>
    freed h' = (if l_free l then v # freed h else freed h) \<and> l_free l' = l_free l \<and> cells h' p = None"
proof -
  note sp = lrep_split [OF assms]
  consider (both) xs' q u r z ys' where "xs = xs' @ [(q, u)]" "ys = (r, z) # ys'"
    | (left) xs' q u where "xs = xs' @ [(q, u)]" "ys = []"
    | (right) r z ys' where "xs = []" "ys = (r, z) # ys'"
    | (only) "xs = []" "ys = []"
    by (metis list.exhaust rev_exhaust surj_pair)
  then show ?thesis
  proof cases
    case both
    with sp assms have "q \<noteq> r" "p \<noteq> q" "p \<noteq> r" "q \<notin> fst ` set xs'" "r \<notin> fst ` set xs'"
      "p \<notin> fst ` set xs'" "q \<notin> fst ` set ys'" "r \<notin> fst ` set ys'" "p \<notin> fst ` set ys'" by auto
    with both sp assms show ?thesis
      by (auto simp: listDelNode_def heap_ops lrep_def)
  next
    case left
    with sp assms have "p \<noteq> q" "q \<notin> fst ` set xs'" "p \<notin> fst ` set xs'" by auto
    with left sp assms show ?thesis
      by (auto simp: listDelNode_def heap_ops lrep_def)
  next
    case right
    with sp assms have "p \<noteq> r" "r \<notin> fst ` set ys'" "p \<notin> fst ` set ys'" by auto
    with right sp assms show ?thesis
      by (auto simp: listDelNode_def heap_ops lrep_def)
  next
    case only
    with sp assms show ?thesis
      by (auto simp: listDelNode_def heap_ops lrep_def)
  qed
qed

lemma listInsertNode_after_rep:
  assumes "lrep h l (xs @ (p, w) # ys)" "brk h < lim h"
  shows "\<exists>h' l'. listInsertNode h l p v True = Some (h', l', True) \<and>
    lrep h' l' (xs @ (p, w) # (brk h, v) # ys)"
proof -
  note sp = lrep_split [OF assms(1)]
  have f: "brk h \<noteq> p" "brk h \<notin> fst ` set xs" "brk h \<notin> fst ` set ys"
    using lrep_fresh [OF assms(1)] by auto
  show ?thesis
  proof (cases ys)
    case Nil
    with sp f assms show ?thesis
      by (auto simp: listInsertNode_def heap_ops lrep_def less_Suc_eq)
  next
    case (Cons y ys')
    obtain r z where y: "y = (r, z)" by (cases y)
    with sp f Cons assms(1) have "p \<noteq> r" "r \<notin> fst ` set ys'" "p \<notin> fst ` set ys'" "r \<notin> fst ` set xs"
      "brk h \<noteq> r" "brk h \<notin> fst ` set ys'" "last_of (Some r) ys' \<noteq> Some p"
      by (auto simp: last_of_def split: if_splits)
    with sp f Cons y assms show ?thesis
      by (auto simp: listInsertNode_def heap_ops lrep_def less_Suc_eq)
  qed
qed

lemma listInsertNode_before_rep:
  assumes "lrep h l (xs @ (p, w) # ys)" "brk h < lim h"
  shows "\<exists>h' l'. listInsertNode h l p v False = Some (h', l', True) \<and>
    lrep h' l' (xs @ (brk h, v) # (p, w) # ys)"
proof -
  note sp = lrep_split [OF assms(1)]
  have f: "brk h \<noteq> p" "brk h \<notin> fst ` set xs" "brk h \<notin> fst ` set ys"
    using lrep_fresh [OF assms(1)] by auto
  show ?thesis
  proof (cases "xs = []")
    case True
    with sp f assms show ?thesis
      by (auto simp: listInsertNode_def heap_ops lrep_def less_Suc_eq)
  next
    case False
    then obtain xs' q u where xs: "xs = xs' @ [(q, u)]" by (metis rev_exhaust surj_pair)
    with sp f assms(1) have "p \<noteq> q" "q \<notin> fst ` set xs'" "p \<notin> fst ` set xs'" "q \<notin> fst ` set ys"
      "brk h \<noteq> q" "brk h \<notin> fst ` set xs'" "first_of (Some q) xs' \<noteq> Some p"
      by (auto simp: first_of_def split: list.splits)
    with sp f xs assms show ?thesis
      by (auto simp: listInsertNode_def heap_ops lrep_def less_Suc_eq)
  qed
qed

subsection \<open>Indexing\<close>

text \<open>The element at an index, negative indices counting from the end.\<close>

definition list_index :: "'a list \<Rightarrow> int \<Rightarrow> 'a option" where
  "list_index xs i =
     (if i < 0
      then (if - i \<le> int (length xs) then Some (xs ! nat (int (length xs) + i)) else None)
      else (if i < int (length xs) then Some (xs ! nat i) else None))"

lemma list_index_map: "list_index (map f xs) i = map_option f (list_index xs i)"
  by (auto simp: list_index_def)

lemma list_index_Some_in: "list_index xs i = Some x \<Longrightarrow> x \<in> set xs"
  by (auto simp: list_index_def split: if_splits)

lemma listIndex_walk_None [simp]: "listIndex_walk link h k None = Some None"
  by (cases k) auto

lemma listIndex_walk_next:
  "dseg (cells h) pr xs None \<Longrightarrow>
   listIndex_walk ln_next h k (first_of None xs) = Some (if k < length xs then Some (fst (xs ! k)) else None)"
proof (induction k arbitrary: xs pr)
  case 0
  then show ?case by (cases xs) auto
next
  case (Suc k)
  then show ?case by (cases xs) (auto simp: Suc.IH)
qed

lemma listIndex_walk_prev:
  "dseg (cells h) None xs nx \<Longrightarrow>
   listIndex_walk ln_prev h k (last_of None xs) =
     Some (if k < length xs then Some (fst (xs ! (length xs - Suc k))) else None)"
proof (induction k arbitrary: xs nx)
  case 0
  then show ?case by (cases xs rule: rev_cases) auto
next
  case (Suc k)
  then show ?case by (cases xs rule: rev_cases) (auto simp: Suc.IH nth_append)
qed

lemma listIndex_rep:
  assumes "lrep h l xs" "is_ll i"
  shows "listIndex h l i = Some (map_option fst (list_index xs i))"
proof (cases "i < 0")
  case True
  have "ll (ll (- i) - 1) = - i - 1"
    using True assms(2) by (cases "i = LLONG_MIN") (simp_all add: is_ll_def ll_def)
  moreover have "- i \<le> int (length xs) \<Longrightarrow>
      length xs - Suc (nat (- i - 1)) = nat (int (length xs) + i)" using True by linarith
  moreover have "nat (- i - 1) < length xs \<longleftrightarrow> - i \<le> int (length xs)" using True by linarith
  ultimately show ?thesis
    using True assms(1) listIndex_walk_prev [of h xs None "nat (- i - 1)"]
    by (auto simp: listIndex_def list_index_def lrep_def)
next
  case False
  then show ?thesis
    using assms(1) listIndex_walk_next [of h None xs "nat i"]
    by (auto simp: listIndex_def list_index_def lrep_def nat_less_iff)
qed

subsection \<open>Iteration\<close>

lemma listNext_rep:
  assumes "dseg (cells h) pr ys None"
  shows "listNext h \<lparr>li_next = first_of None ys, li_dir = AL_START_HEAD\<rparr> =
    Some (case ys of [] \<Rightarrow> (None, \<lparr>li_next = None, li_dir = AL_START_HEAD\<rparr>)
          | y # ys' \<Rightarrow> (Some (fst y), \<lparr>li_next = first_of None ys', li_dir = AL_START_HEAD\<rparr>))"
  using assms by (cases ys) (auto simp: listNext_def)

lemma listSearchKey_loop_rep:
  "dseg (cells h) pr ys None \<Longrightarrow>
   listSearchKey_loop h eq \<lparr>li_next = first_of None ys, li_dir = AL_START_HEAD\<rparr> =
     Some (map_option fst (find (\<lambda>y. eq (snd y)) ys))"
proof (induction ys arbitrary: pr)
  case Nil
  then show ?case by (subst listSearchKey_loop.simps) (simp add: listNext_def)
next
  case (Cons y ys)
  obtain p v where y: "y = (p, v)" by (cases y)
  have "listSearchKey_loop h eq \<lparr>li_next = first_of None ys, li_dir = AL_START_HEAD\<rparr> =
      Some (map_option fst (find (\<lambda>y. eq (snd y)) ys))"
    using Cons y by auto
  with Cons.prems y show ?case
    by (subst listSearchKey_loop.simps) (simp add: listNext_def)
qed

lemma listSearchKey_rep:
  assumes "lrep h l xs"
  shows "listSearchKey h l key = Some (map_option fst
    (find (\<lambda>x. case l_match l of Some m \<Rightarrow> m (snd x) key | None \<Rightarrow> key = snd x) xs))"
  using assms listSearchKey_loop_rep [of h None xs]
  by (auto simp: listSearchKey_def listGetIterator_def lrep_def split: option.splits)

subsection \<open>Release, rotation and duplication\<close>

lemma listRelease_loop_rep:
  assumes "dseg (cells h) pr ys None" "distinct (map fst ys)"
  shows "\<exists>h'. listRelease_loop (length ys) l (first_of None ys) h = Some h' \<and>
    (\<forall>q. cells h' q = (if q \<in> fst ` set ys then None else cells h q)) \<and>
    freed h' = (if l_free l then rev (map snd ys) @ freed h else freed h)"
  using assms
proof (induction ys arbitrary: h pr)
  case (Cons y ys)
  obtain p v where y: "y = (p, v)" by (cases y)
  let ?h = "zfree (free_value h l v) p"
  have ds: "dseg (cells ?h) (Some p) ys None" "distinct (map fst ys)" "p \<notin> fst ` set ys"
    using Cons.prems y by (auto simp: heap_ops)
  from Cons.IH [OF ds(1,2)] Cons.prems ds(3) y show ?case
    by (auto simp: heap_ops split: if_splits)
qed simp

lemma listRelease_rep:
  assumes "lrep h l xs"
  shows "\<exists>h'. listRelease h l = Some h' \<and>
    (\<forall>q. cells h' q = (if q \<in> fst ` set xs then None else cells h q)) \<and>
    freed h' = (if l_free l then rev (map snd xs) @ freed h else freed h)"
  using assms listRelease_loop_rep [of h None xs l]
  by (simp add: lrep_def listRelease_def)

lemma listRotate_rep:
  assumes "lrep h l (xs @ [x])"
  shows "\<exists>h' l'. listRotate h l = Some (h', l') \<and> lrep h' l' (x # xs)"
proof (cases "xs = []")
  case True
  then show ?thesis using assms by (auto simp: listRotate_def lrep_def)
next
  case F: False
  obtain p v where x: "x = (p, v)" by (cases x)
  show ?thesis
  proof (cases "length xs = 1")
    case True
    then obtain q u where xs: "xs = [(q, u)]" by (cases xs) auto
    with assms x show ?thesis by (auto simp: listRotate_def lrep_def heap_ops)
  next
    case False
    with F obtain q u where "\<exists>zs r w. xs = (q, u) # zs @ [(r, w)]"
      by (metis append_Cons append_Nil length_Cons list.exhaust list.size(3) One_nat_def
          rev_exhaust surj_pair)
    then obtain zs r w where xs: "xs = (q, u) # zs @ [(r, w)]" by blast
    with assms x have "p \<noteq> q" "p \<noteq> r" "q \<noteq> r" "p \<notin> fst ` set zs" "q \<notin> fst ` set zs" "r \<notin> fst ` set zs"
      by (auto simp: lrep_def)
    with assms x xs show ?thesis
      by (auto simp: listRotate_def lrep_def heap_ops)
  qed
qed

lemma listAddNodeTail_frame:
  assumes "listAddNodeTail h l v = Some (h', l', True)" "lrep h l xs" "q \<notin> fst ` set xs" "q \<noteq> brk h"
  shows "cells h' q = cells h q" "brk h' = Suc (brk h)" "lim h' = lim h"
    "l_dup l' = l_dup l" "l_free l' = l_free l" "l_match l' = l_match l"
proof -
  have "last_of None xs \<noteq> Some q" using assms(3) by (auto simp: last_of_def)
  with assms show "cells h' q = cells h q" "brk h' = Suc (brk h)" "lim h' = lim h"
    "l_dup l' = l_dup l" "l_free l' = l_free l" "l_match l' = l_match l"
    by (auto simp: listAddNodeTail_def heap_ops lrep_def split: if_splits bind_splits)
qed

text \<open>How \<open>listDup\<close> copies one value.\<close>

definition dup_value :: "'v dlist \<Rightarrow> 'v \<Rightarrow> 'v option" where
  "dup_value l v = (case l_dup l of Some d \<Rightarrow> d v | None \<Rightarrow> Some v)"

lemma listDup_loop_rep:
  assumes "dseg (cells h) pr ys None" "lrep h copy xs" "fst ` set ys \<inter> fst ` set xs = {}"
    "\<forall>p \<in> fst ` set ys. p < brk h" "\<And>v. v \<in> snd ` set ys \<Longrightarrow> dup_value copy v = Some (f v)"
    "brk h + length ys \<le> lim h" "dseg (cells h) None os None"
    "fst ` set os \<inter> fst ` set xs = {}" "\<forall>p \<in> fst ` set os. p < brk h"
  shows "\<exists>h' copy' zs. listDup_loop h \<lparr>li_next = first_of None ys, li_dir = AL_START_HEAD\<rparr> copy =
      Some (h', Some copy') \<and> lrep h' copy' zs \<and> map snd zs = map snd xs @ map (f \<circ> snd) ys \<and>
      dseg (cells h') None os None \<and> brk h \<le> brk h'"
  using assms
proof (induction ys arbitrary: h pr copy xs)
  case Nil
  then show ?case by (subst listDup_loop.simps) (auto simp: listNext_def)
next
  case (Cons y ys)
  obtain p v where y: "y = (p, v)" by (cases y)
  obtain h1 c1 where add: "listAddNodeTail h copy (f v) = Some (h1, c1, True)"
    and rep: "lrep h1 c1 (xs @ [(brk h, f v)])"
    using listAddNodeTail_rep [OF Cons.prems(2), of "f v"] Cons.prems(6) by auto
  note fr = listAddNodeTail_frame [OF add Cons.prems(2)]
  have brk: "brk h1 = Suc (brk h)" "lim h1 = lim h" "dup_value c1 = dup_value copy"
    using fr(2-6) [of p] Cons.prems(3,4) y by (auto simp: dup_value_def fun_eq_iff)
  have same: "cells h1 q = cells h q" if "q < brk h" "q \<notin> fst ` set xs" for q
    using fr(1) [of q] that by auto
  have "dseg (cells h1) (Some p) ys None = dseg (cells h) (Some p) ys None"
    by (rule dseg_frame, rule same) (use Cons.prems(3,4) y in auto)
  then have ds: "dseg (cells h1) (Some p) ys None" using Cons.prems(1) y by simp
  have "dseg (cells h1) None os None = dseg (cells h) None os None"
    by (rule dseg_frame, rule same) (use Cons.prems(8,9) in auto)
  then have os: "dseg (cells h1) None os None" using Cons.prems(7) by simp
  have "fst ` set ys \<inter> fst ` set (xs @ [(brk h, f v)]) = {}" "\<forall>p \<in> fst ` set ys. p < brk h1"
    using Cons.prems(3,4) y brk(1) by auto
  moreover have "fst ` set os \<inter> fst ` set (xs @ [(brk h, f v)]) = {}" "\<forall>p \<in> fst ` set os. p < brk h1"
    using Cons.prems(8,9) brk(1) by auto
  moreover have "dup_value c1 w = Some (f w)" if "w \<in> snd ` set ys" for w
    using Cons.prems(5) [of w] that brk(3) by auto
  moreover have "brk h1 + length ys \<le> lim h1" using Cons.prems(6) brk by simp
  ultimately obtain h' copy' zs where
    loop: "listDup_loop h1 \<lparr>li_next = first_of None ys, li_dir = AL_START_HEAD\<rparr> c1 = Some (h', Some copy')"
    and res: "lrep h' copy' zs" "map snd zs = map snd (xs @ [(brk h, f v)]) @ map (f \<circ> snd) ys"
      "dseg (cells h') None os None" "brk h1 \<le> brk h'"
    using Cons.IH [OF ds rep] os by blast
  have "listDup_loop h \<lparr>li_next = first_of None (y # ys), li_dir = AL_START_HEAD\<rparr> copy = Some (h', Some copy')"
    using Cons.prems(1) Cons.prems(5) [of v] y add loop
    by (subst listDup_loop.simps) (simp add: listNext_def dup_value_def [symmetric])
  with res brk y show ?case by auto
qed

lemma listDup_rep:
  assumes "lrep h orig xs" "\<And>v. v \<in> snd ` set xs \<Longrightarrow> dup_value orig v = Some (f v)"
    "brk h + length xs < lim h"
  shows "\<exists>h' copy zs. listDup h orig = Some (h', Some copy) \<and> lrep h' copy zs \<and>
    map snd zs = map (f \<circ> snd) xs \<and> lrep h' orig xs"
proof -
  let ?c = "\<lparr>l_head = None, l_tail = None, l_dup = l_dup orig, l_free = l_free orig,
      l_match = l_match orig, l_len = 0\<rparr> :: 'a dlist"
  let ?h = "h\<lparr>brk := Suc (brk h)\<rparr>"
  have "\<exists>h' copy' zs. listDup_loop ?h \<lparr>li_next = first_of None xs, li_dir = AL_START_HEAD\<rparr> ?c =
      Some (h', Some copy') \<and> lrep h' copy' zs \<and> map snd zs = map snd ([] :: (nat \<times> 'a) list) @ map (f \<circ> snd) xs \<and>
      dseg (cells h') None xs None \<and> brk ?h \<le> brk h'"
    using assms by (intro listDup_loop_rep [where pr = None])
      (auto simp: lrep_def dup_value_def less_Suc_eq)
  then obtain h' copy' zs where
    loop: "listDup_loop ?h \<lparr>li_next = first_of None xs, li_dir = AL_START_HEAD\<rparr> ?c = Some (h', Some copy')"
    and res: "lrep h' copy' zs" "map snd zs = map (f \<circ> snd) xs" "dseg (cells h') None xs None"
      "brk ?h \<le> brk h'" by auto
  have "listDup h orig = Some (h', Some copy')"
    using assms(1,3) loop by (simp add: listDup_def listCreate_def zmalloc_def listGetIterator_def lrep_def)
  moreover have "lrep h' orig xs"
    using assms(1) res(3,4) by (auto simp: lrep_def)
  ultimately show ?thesis using res by blast
qed

section \<open>The list as a sequence interface\<close>

text \<open>
  What the users of adlist.c rely on: a sequence can be extended at its end, indexed from both
  ends and cut at any element.
\<close>

locale sequence_store =
  fixes rep :: "'s \<Rightarrow> (nat \<times> 'a) list \<Rightarrow> bool"
    and room :: "'s \<Rightarrow> nat"
    and push :: "'s \<Rightarrow> 'a \<Rightarrow> 's option"
    and node_at :: "'s \<Rightarrow> int \<Rightarrow> nat option option"
    and delete :: "'s \<Rightarrow> nat \<Rightarrow> 's option"
  assumes push_rep: "rep s xs \<Longrightarrow> 0 < room s \<Longrightarrow>
      \<exists>s' p. push s x = Some s' \<and> rep s' (xs @ [(p, x)]) \<and> room s' = room s - 1"
    and node_at_rep: "rep s xs \<Longrightarrow> is_ll i \<Longrightarrow> node_at s i = Some (map_option fst (list_index xs i))"
    and delete_rep: "rep s (xs @ (p, x) # ys) \<Longrightarrow> \<exists>s'. delete s p = Some s' \<and> rep s' (xs @ ys)"
begin

fun push_all :: "'s \<Rightarrow> 'a list \<Rightarrow> 's option" where
  "push_all s [] = Some s"
| "push_all s (x # xs) = do { s \<leftarrow> push s x; push_all s xs }"

fun delete_all :: "'s \<Rightarrow> nat list \<Rightarrow> 's option" where
  "delete_all s [] = Some s"
| "delete_all s (p # ps) = do { s \<leftarrow> delete s p; delete_all s ps }"

lemma push_all_rep:
  assumes "rep s xs" "length vs \<le> room s"
  shows "\<exists>s' ys. push_all s vs = Some s' \<and> rep s' (xs @ ys) \<and> map snd ys = vs"
  using assms
proof (induction vs arbitrary: s xs)
  case (Cons v vs)
  obtain s1 p where s1: "push s v = Some s1" "rep s1 (xs @ [(p, v)])" "room s1 = room s - 1"
    using push_rep [OF Cons.prems(1), of v] Cons.prems(2) by auto
  obtain s' ys where "push_all s1 vs = Some s'" "rep s' ((xs @ [(p, v)]) @ ys)" "map snd ys = vs"
    using Cons.IH [OF s1(2)] s1(3) Cons.prems(2) by fastforce
  with s1 show ?case by (intro exI [of _ s'] exI [of _ "(p, v) # ys"]) auto
qed (auto intro: exI [of _ "[]"])

text \<open>Deleting every node from a position on leaves the prefix.\<close>

lemma delete_all_rep:
  assumes "rep s (xs @ ys)"
  shows "\<exists>s'. delete_all s (map fst ys) = Some s' \<and> rep s' xs"
  using assms
proof (induction ys arbitrary: s)
  case (Cons y ys)
  obtain p v where "y = (p, v)" by (cases y)
  with delete_rep [of s xs p v ys] Cons show ?case by fastforce
qed simp

lemma push_all_last:
  assumes "rep s []" "length vs \<le> room s" "vs \<noteq> []" "push_all s vs = Some s'"
  shows "\<exists>ys. rep s' ys \<and> map snd ys = vs \<and> node_at s' (-1) = Some (Some (fst (last ys)))"
proof -
  obtain ys where ys: "rep s' ys" "map snd ys = vs"
    using push_all_rep [OF assms(1,2)] assms(4) by auto
  then have "ys \<noteq> []" using assms(3) by auto
  then have "list_index ys (-1) = Some (last ys)"
    by (auto simp: list_index_def last_conv_nth nat_diff_distrib' neq_Nil_conv)
  then show ?thesis using ys node_at_rep [of s' ys "-1"] by (auto simp: is_ll_def)
qed

end

text \<open>The linked list implements the interface: a state is a heap with a list header.\<close>

definition adl_push :: "'v heap \<times> 'v dlist \<Rightarrow> 'v \<Rightarrow> ('v heap \<times> 'v dlist) option" where
  "adl_push s v = (case s of (h, l) \<Rightarrow>
     do { (h, l, ok) \<leftarrow> listAddNodeTail h l v; if ok then Some (h, l) else None })"

lemma adl_push_rep:
  assumes "lrep h l xs" "0 < lim h - brk h"
  shows "\<exists>h' l' p. adl_push (h, l) x = Some (h', l') \<and> lrep h' l' (xs @ [(p, x)]) \<and>
    lim h' - brk h' = lim h - brk h - 1"
proof -
  obtain h' l' where add: "listAddNodeTail h l x = Some (h', l', True)" "lrep h' l' (xs @ [(brk h, x)])"
    using listAddNodeTail_rep [OF assms(1), of x] assms(2) by auto
  have "Suc (brk h) \<notin> fst ` set xs" using assms(1) by (force simp: lrep_def)
  then have "brk h' = Suc (brk h)" "lim h' = lim h"
    using listAddNodeTail_frame [OF add(1) assms(1), of "Suc (brk h)"] by auto
  with add show ?thesis by (auto simp: adl_push_def)
qed

interpretation adl: sequence_store
  "\<lambda>s xs. lrep (fst s) (snd s) xs"
  "\<lambda>s. lim (fst s) - brk (fst s)"
  adl_push
  "\<lambda>s i. listIndex (fst s) (snd s) i"
  "\<lambda>s p. listDelNode (fst s) (snd s) p"
proof (unfold_locales, goal_cases)
  case (1 s xs x)
  then show ?case using adl_push_rep [of "fst s" "snd s" xs x] by (cases s) fastforce
next
  case (2 s xs i)
  then show ?case by (simp add: listIndex_rep)
next
  case (3 s xs p x ys)
  then show ?case using listDelNode_rep by fastforce
qed

text \<open>A fresh heap with \<open>n\<close> cells and an empty list header, as \<open>listCreate\<close> leaves it.\<close>

definition heap0 :: "nat \<Rightarrow> 'v heap" where
  "heap0 n = \<lparr>cells = (\<lambda>_. None), brk = 0, lim = n, freed = []\<rparr>"

definition dlist0 :: "'v dlist" where
  "dlist0 = \<lparr>l_head = None, l_tail = None, l_dup = None, l_free = False, l_match = None, l_len = 0\<rparr>"

lemma build_list: "length vs \<le> n \<Longrightarrow>
   \<exists>s xs. adl.push_all (heap0 n, dlist0) vs = Some s \<and> lrep (fst s) (snd s) xs \<and> map snd xs = vs"
  using adl.push_all_rep [of "(heap0 n, dlist0)" "[]" vs]
  by (simp add: heap0_def dlist0_def lrep_def)

section \<open>Properties\<close>

text \<open>
  C13: Deleting a node.  Whatever its place in the list - first, last, in the middle or alone -
  \<open>listDelNode\<close> touches no freed memory, leaves a well-linked list of the other nodes in order,
  frees the node and hands its value to the list's free method.
\<close>

theorem listDelNode_correct:
  assumes "lrep h l (xs @ (p, v) # ys)"
  shows "\<exists>h' l'. listDelNode h l p = Some (h', l') \<and> lrep h' l' (xs @ ys) \<and>
    cells h' p = None \<and> freed h' = (if l_free l then v # freed h else freed h)"
  using listDelNode_rep [OF assms] by blast

theorem listDelNode_correct_witness:
  "\<exists>h l p. lrep h l [(p, CHR ''a'')] \<and> (\<exists>h' l'. listDelNode h l p = Some (h', l') \<and> lrep h' l' [])"
proof -
  obtain s and xs :: "(nat \<times> char) list" where s: "lrep (fst s) (snd s) xs" "map snd xs = ''a''"
    using build_list [of "''a''" 3] by auto
  then obtain p where xs: "xs = [(p, CHR ''a'')]" by auto
  with s(1) have "lrep (fst s) (snd s) ([] @ (p, CHR ''a'') # [])" by simp
  from listDelNode_correct [OF this] this show ?thesis unfolding append_Nil by blast
qed

text \<open>
  Indexing.  For every \<open>long\<close> index \<open>listIndex\<close> ends and returns the node counted from
  the head (from 0) or from the tail (from -1), and no node out of range.
\<close>

theorem listIndex_correct:
  assumes "lrep h l xs" "is_ll i"
  shows "listIndex h l i = Some (map_option fst
    (if 0 \<le> i \<and> i < int (length xs) then Some (xs ! nat i)
     else if i < 0 \<and> - i \<le> int (length xs) then Some (xs ! nat (int (length xs) + i)) else None))"
  using listIndex_rep [OF assms] by (simp add: list_index_def)

theorem listIndex_correct_witness:
  "\<exists>h l p q. lrep h l [(p, CHR ''a''), (q, CHR ''b'')] \<and> listIndex h l (-1) = Some (Some q) \<and>
     listIndex h l 2 = Some None"
proof -
  obtain s and xs :: "(nat \<times> char) list" where s: "lrep (fst s) (snd s) xs" "map snd xs = ''ab''"
    using build_list [of "''ab''" 3] by auto
  then obtain p q where "xs = [(p, CHR ''a''), (q, CHR ''b'')]" by auto
  with s(1) have r: "lrep (fst s) (snd s) [(p, CHR ''a''), (q, CHR ''b'')]" by simp
  have "listIndex (fst s) (snd s) (-1) = Some (Some q)" "listIndex (fst s) (snd s) 2 = Some None"
    using listIndex_correct [OF r, of "-1"] listIndex_correct [OF r, of 2] by (simp_all add: is_ll_def)
  with r show ?thesis by blast
qed

end
