(* ===== verification/Prez_Util.thy ===== *)
theory Prez_Util
  imports Prez_Prelude
begin

text \<open>
  The number conversions of src/src/util.c: \<open>digits10\<close>, \<open>ll2string\<close> (the two-digits-at-a-time
  printer that fills a caller's buffer), \<open>string2ll\<close>, \<open>string2l\<close> and \<open>memtoll\<close>.  The buffer
  of \<open>ll2string\<close> is a byte list updated in place; unsigned 64-bit values are natural numbers.
  The lemmas compare the printer with the plain decimal printer of the prelude and show that
  \<open>string2ll\<close> accepts exactly its output.
\<close>

section \<open>Definitions\<close>

fun digits10 :: "nat \<Rightarrow> nat" where
  "digits10 v =
     (if v < 10 then 1
      else if v < 100 then 2
      else if v < 1000 then 3
      else if v < 1000000000000 then
        (if v < 100000000 then
           (if v < 1000000 then
              (if v < 10000 then 4 else 5 + (if v \<ge> 100000 then 1 else 0))
            else 7 + (if v \<ge> 10000000 then 1 else 0))
         else if v < 10000000000 then 9 + (if v \<ge> 1000000000 then 1 else 0)
         else 11 + (if v \<ge> 100000000000 then 1 else 0))
      else 12 + digits10 (v div 1000000000000))"

declare digits10.simps [simp del]

definition ll2string_digits :: string where
  "ll2string_digits =
     ''0001020304050607080910111213141516171819'' @
     ''2021222324252627282930313233343536373839'' @
     ''4041424344454647484950515253545556575859'' @
     ''6061626364656667686970717273747576777879'' @
     ''8081828384858687888990919293949596979899''"

text \<open>The loop that writes two digits per round, from the right end of the buffer.\<close>

fun ll2string_loop :: "nat \<Rightarrow> nat \<Rightarrow> string \<Rightarrow> nat \<times> nat \<times> string" where
  "ll2string_loop val nxt dst =
     (if val \<ge> 100 then
        let i = (val mod 100) * 2
        in ll2string_loop (val div 100) (nxt - 2)
             (dst[nxt := ll2string_digits ! (i + 1), nxt - 1 := ll2string_digits ! i])
      else (val, nxt, dst))"

declare ll2string_loop.simps [simp del]

text \<open>The last one or two digits.\<close>

definition ll2string_last :: "nat \<Rightarrow> nat \<Rightarrow> string \<Rightarrow> string" where
  "ll2string_last val nxt dst =
     (if val < 10 then dst[nxt := digit_char val]
      else let i = val * 2
           in dst[nxt := ll2string_digits ! (i + 1), nxt - 1 := ll2string_digits ! i])"

definition ll2string :: "string \<Rightarrow> nat \<Rightarrow> int \<Rightarrow> nat \<times> string" where
  "ll2string dst dstlen svalue =
     (let negative = svalue < 0;
          val = (if negative then ull (ll (- svalue)) else ull svalue);
          len = digits10 val + (if negative then 1 else 0)
      in if len \<ge> dstlen then (0, dst)
         else
           let dst = dst[len := NUL];
               (val, nxt, dst) = ll2string_loop val (len - 1) dst;
               dst = ll2string_last val nxt dst;
               dst = (if negative then dst[0 := CHR ''-''] else dst)
           in (len, dst))"

text \<open>The digit loop of \<open>string2ll\<close>; \<open>None\<close> is the overflow return.\<close>

fun string2ll_loop :: "nat \<Rightarrow> string \<Rightarrow> (nat \<times> string) option" where
  "string2ll_loop v [] = Some (v, [])"
| "string2ll_loop v (c # p) =
     (if is_digit c then
        (if v > ULLONG_MAX div 10 then None
         else if v * 10 > ULLONG_MAX - digit_val c then None
         else string2ll_loop (v * 10 + digit_val c) p)
      else Some (v, c # p))"

text \<open>\<open>string2ll\<close> on the \<open>slen\<close> bytes \<open>s\<close>; \<open>None\<close> is the return value 0.\<close>

definition string2ll :: "string \<Rightarrow> int option" where
  "string2ll s =
     (if s = [] then None
      else if s = ''0'' then Some 0
      else
        let negative = (hd s = CHR ''-'');
            p = (if negative then tl s else s)
        in if p = [] then None
           else if is_digit (hd p) \<and> hd p \<noteq> CHR ''0'' then
             (case string2ll_loop (digit_val (hd p)) (tl p) of
                None \<Rightarrow> None
              | Some (v, rest) \<Rightarrow>
                  if rest \<noteq> [] then None
                  else if negative then
                    (if v > 9223372036854775808 then None else Some (ll (- int v)))
                  else (if int v > LLONG_MAX then None else Some (int v)))
           else if hd p = CHR ''0'' \<and> length s = 1 then Some 0
           else None)"

definition string2l :: "string \<Rightarrow> int option" where
  "string2l s =
     (case string2ll s of
        None \<Rightarrow> None
      | Some llval \<Rightarrow> if llval < LLONG_MIN \<or> llval > LLONG_MAX then None else Some llval)"

text \<open>\<open>memtoll\<close>: the unit suffix, then the whole function on a C string, with its error flag.\<close>

definition memtoll_unit :: "string \<Rightarrow> int \<times> bool" where
  "memtoll_unit u =
     (if u = [] \<or> strcaseeq u ''b'' then (1, False)
      else if strcaseeq u ''k'' then (1000, False)
      else if strcaseeq u ''kb'' then (1024, False)
      else if strcaseeq u ''m'' then (1000 * 1000, False)
      else if strcaseeq u ''mb'' then (1024 * 1024, False)
      else if strcaseeq u ''g'' then (1000 * 1000 * 1000, False)
      else if strcaseeq u ''gb'' then (1024 * 1024 * 1024, False)
      else (1, True))"

definition memtoll :: "string \<Rightarrow> int \<times> bool" where
  "memtoll p =
     (let q = (if p \<noteq> [] \<and> hd p = CHR ''-'' then tl p else p);
          u = dropWhile is_digit q;
          (mul, err) = memtoll_unit u;
          digits = length p - length u
      in if digits \<ge> 128 then (LLONG_MAX, True)
         else (ll (strtoll10 (take digits p) * mul), err))"

section \<open>The length of a decimal numeral\<close>

lemma length_show_nat_small: "n < 10 \<Longrightarrow> length (show_nat n) = 1"
  by (simp add: show_nat.simps [of n])

lemma length_show_nat_step: "10 \<le> n \<Longrightarrow> length (show_nat n) = Suc (length (show_nat (n div 10)))"
  by (simp add: show_nat.simps [of n])

lemma length_show_nat_shift:
  "10 ^ k \<le> n \<Longrightarrow> length (show_nat n) = k + length (show_nat (n div 10 ^ k))"
proof (induction k arbitrary: n)
  case (Suc k)
  have "10 \<le> n" using Suc.prems by (metis le_trans one_le_numeral power_Suc self_le_ge2_pow
      mult.commute mult_le_mono1 nat_mult_1 one_le_power)
  moreover have "10 ^ k \<le> n div 10" using Suc.prems by (simp add: less_eq_div_iff_mult_less_eq)
  ultimately show ?case
    using Suc.IH [of "n div 10"] by (simp add: length_show_nat_step div_mult2_eq)
qed simp

lemma length_show_nat_exact:
  assumes "10 ^ k \<le> n" "n < 10 * 10 ^ k"
  shows "length (show_nat n) = Suc k"
proof -
  have "n div 10 ^ k < 10" using assms(2) by (simp add: less_mult_imp_div_less)
  then show ?thesis
    using length_show_nat_shift [OF assms(1)] length_show_nat_small by simp
qed

lemma digits10_eq: "digits10 v = length (show_nat v)"
proof (induction v rule: digits10.induct)
  case (1 v)
  note ex = length_show_nat_exact [of _ v]
  show ?case
  proof (cases "v < 1000000000000")
    case True
    then show ?thesis
      using ex [of 1] ex [of 2] ex [of 3] ex [of 4] ex [of 5] ex [of 6] ex [of 7] ex [of 8]
        ex [of 9] ex [of 10] ex [of 11] length_show_nat_small [of v]
      by (simp add: digits10.simps [of v])
  next
    case False
    then show ?thesis
      using 1 length_show_nat_shift [of 12 v] by (simp add: digits10.simps [of v])
  qed
qed

section \<open>The printer\<close>

lemma ll2string_digits_nth:
  assumes "k < 100"
  shows "ll2string_digits ! (k * 2) = digit_char (k div 10)"
    and "ll2string_digits ! (k * 2 + 1) = digit_char (k mod 10)"
proof -
  have "\<forall>k \<in> set [0..<100]. ll2string_digits ! (k * 2) = digit_char (k div 10) \<and>
      ll2string_digits ! (k * 2 + 1) = digit_char (k mod 10)"
    by code_simp
  with assms show "ll2string_digits ! (k * 2) = digit_char (k div 10)"
    and "ll2string_digits ! (k * 2 + 1) = digit_char (k mod 10)" by auto
qed

lemma show_nat_two:
  assumes "100 \<le> v"
  shows "show_nat v = show_nat (v div 100) @ [digit_char (v mod 100 div 10), digit_char (v mod 10)]"
proof -
  have "v div 10 mod 10 = v mod 100 div 10"
    using mod_mult2_eq [of v 10 10] by simp
  with assms show ?thesis
    by (simp add: show_nat.simps [of v] show_nat.simps [of "v div 10"] div_mult2_eq [symmetric])
qed

lemma show_nat_two_last:
  "10 \<le> v \<Longrightarrow> v < 100 \<Longrightarrow> show_nat v = [digit_char (v div 10), digit_char (v mod 10)]"
  by (simp add: show_nat.simps [of v] show_nat.simps [of "v div 10"])

lemma update_two:
  assumes "Suc n < length xs"
  shows "xs[Suc n := b, n := a] = take n xs @ a # b # drop (Suc (Suc n)) xs"
  using assms by (auto simp: list_eq_iff_nth_eq nth_append nth_Cons' nth_list_update
      intro!: arg_cong [where f = "nth xs"])


text \<open>
  The loop and the last digits together: with \<open>off\<close> bytes left of the number, the buffer gets
  the decimal representation at that offset and is otherwise unchanged.
\<close>

lemma ll2string_fill:
  assumes "off + length (show_nat val) = Suc nxt" "Suc nxt \<le> length dst"
    and "ll2string_loop val nxt dst = (val', nxt', dst')"
  shows "ll2string_last val' nxt' dst' = take off dst @ show_nat val @ drop (Suc nxt) dst"
  using assms
proof (induction val nxt dst arbitrary: val' nxt' dst' rule: ll2string_loop.induct)
  case (1 val nxt dst)
  show ?case
  proof (cases "100 \<le> val")
    case False
    then have eq: "val' = val" "nxt' = nxt" "dst' = dst"
      using "1.prems"(3) by (auto simp: ll2string_loop.simps [of val])
    show ?thesis
    proof (cases "val < 10")
      case True
      then have "show_nat val = [digit_char val]" by (simp add: show_nat.simps [of val])
      with True "1.prems" eq show ?thesis
        by (simp add: ll2string_last_def upd_conv_take_nth_drop)
    next
      case F: False
      with False have s: "show_nat val = [digit_char (val div 10), digit_char (val mod 10)]"
        by (simp add: show_nat_two_last)
      then obtain m where "nxt = Suc m" "off = m" using "1.prems"(1) by (cases nxt) auto
      with F False s "1.prems" eq show ?thesis
        using ll2string_digits_nth [of val] by (simp add: ll2string_last_def update_two)
    qed
  next
    case True
    let ?v = "val div 100"
    let ?dst = "dst[nxt := ll2string_digits ! (val mod 100 * 2 + 1),
        nxt - 1 := ll2string_digits ! (val mod 100 * 2)]"
    have s: "show_nat val = show_nat ?v @ [digit_char (val mod 100 div 10), digit_char (val mod 10)]"
      using True by (rule show_nat_two)
    then have off: "off + length (show_nat ?v) + 1 = nxt" using "1.prems"(1) by simp
    moreover have "0 < length (show_nat ?v)" by simp
    ultimately obtain m where m: "nxt = Suc (Suc m)" "off + length (show_nat ?v) = Suc m"
      by (cases nxt; cases "nxt - 1") auto
    have d: "?dst = take (Suc m) dst @ digit_char (val mod 100 div 10) # digit_char (val mod 10)
        # drop (Suc (Suc (Suc m))) dst"
      using m "1.prems"(2) ll2string_digits_nth [of "val mod 100"]
      by (simp add: update_two mod_mod_cancel)
    have loop: "ll2string_loop ?v (nxt - 2) ?dst = (val', nxt', dst')"
      using "1.prems"(3) True by (simp add: ll2string_loop.simps [of val] Let_def)
    have "ll2string_last val' nxt' dst' = take off ?dst @ show_nat ?v @ drop (Suc (nxt - 2)) ?dst"
      using "1.IH" [OF True refl _ _ loop] m "1.prems"(2) by simp
    also have "\<dots> = take off dst @ show_nat val @ drop (Suc nxt) dst"
      unfolding d using m "1.prems"(2) s by (simp add: min_def)
    finally show ?thesis .
  qed
qed

lemma ll2string_eq:
  assumes "is_ll n" "dstlen \<le> length dst"
  shows "ll2string dst dstlen n =
    (if length (show_int n) < dstlen
     then (length (show_int n), show_int n @ NUL # drop (Suc (length (show_int n))) dst)
     else (0, dst))"
proof -
  define val where "val = (if n < 0 then ull (ll (- n)) else ull n)"
  define off where "off = (if n < 0 then 1 else 0 :: nat)"
  have val: "val = nat \<bar>n\<bar>"
    using assms(1) by (auto simp: val_def is_ll_def ull_nonneg)
  have sh: "show_int n = (if n < 0 then ''-'' else []) @ show_nat val"
    by (simp add: show_int_def val)
  then have len: "length (show_int n) = digits10 val + off"
    by (simp add: digits10_eq off_def)
  show ?thesis
  proof (cases "length (show_int n) < dstlen")
    case False
    then show ?thesis using len by (simp add: ll2string_def val_def off_def Let_def)
  next
    case True
    let ?len = "digits10 val + off"
    let ?dst = "dst[?len := NUL]"
    obtain v' n' d' where l: "ll2string_loop val (?len - 1) ?dst = (v', n', d')"
      by (cases "ll2string_loop val (?len - 1) ?dst") auto
    have pos: "0 < digits10 val" by (simp add: digits10_eq)
    have "ll2string_last v' n' d' = take off ?dst @ show_nat val @ drop (Suc (?len - 1)) ?dst"
      by (rule ll2string_fill [OF _ _ l])
        (use True len assms(2) pos in \<open>auto simp: digits10_eq\<close>)
    also have "\<dots> = take off dst @ show_nat val @ NUL # drop (Suc ?len) dst"
      using True len assms(2) pos
      by (simp add: upd_conv_take_nth_drop)
    finally have last: "ll2string_last v' n' d' = \<dots>" .
    have ne: "dst \<noteq> []" using True assms(2) by auto
    show ?thesis
    proof (cases "n < 0")
      case neg: True
      then have "ull (- n) = val" by (simp add: val_def)
      with neg True len l last ne sh show ?thesis
        by (cases dst) (simp_all add: ll2string_def val_def [symmetric] off_def Let_def)
    next
      case nneg: False
      then have "ull n = val" by (simp add: val_def)
      with nneg True len l last sh show ?thesis
        by (simp add: ll2string_def val_def [symmetric] off_def Let_def)
    qed
  qed
qed

section \<open>The parser\<close>

lemma string2ll_loop_Some:
  assumes "\<And>c. c \<in> set p \<Longrightarrow> is_digit c" "foldl (\<lambda>v c. 10 * v + digit_val c) v p \<le> ULLONG_MAX"
  shows "string2ll_loop v p = Some (foldl (\<lambda>v c. 10 * v + digit_val c) v p, [])"
  using assms
proof (induction p arbitrary: v)
  case (Cons c p)
  have "10 * v + digit_val c \<le> foldl (\<lambda>v c. 10 * v + digit_val c) (10 * v + digit_val c) p"
    by (rule foldl_mono_le) simp
  with Cons.prems(2) have "10 * v + digit_val c \<le> ULLONG_MAX" by simp
  then have "\<not> v > ULLONG_MAX div 10" "\<not> v * 10 > ULLONG_MAX - digit_val c" by auto
  with Cons show ?case by (simp add: mult.commute)
qed simp

lemma string2ll_loop_NilD:
  "string2ll_loop v p = Some (w, []) \<Longrightarrow>
   (\<forall>c \<in> set p. is_digit c) \<and> w = foldl (\<lambda>v c. 10 * v + digit_val c) v p"
  by (induction p arbitrary: v) (auto simp: mult.commute split: if_splits)

lemma hd_show_nat_pos:
  assumes "0 < n" "show_nat n = c # p"
  shows "is_digit c" "c \<noteq> CHR ''0''" "foldl (\<lambda>v c. 10 * v + digit_val c) (digit_val c) p = n"
    "\<And>d. d \<in> set p \<Longrightarrow> is_digit d"
proof -
  show "is_digit c" using show_nat_digits [of c n] assms(2) by simp
  show "c \<noteq> CHR ''0''" using show_nat_hd_nonzero [OF assms(1)] assms(2) by simp
  show "foldl (\<lambda>v c. 10 * v + digit_val c) (digit_val c) p = n"
    using dec_val_show_nat [of n] assms(2) by (simp add: dec_val_def)
  show "\<And>d. d \<in> set p \<Longrightarrow> is_digit d" using show_nat_digits [of _ n] assms(2) by simp
qed

lemma show_int_0: "show_int 0 = ''0''"
  by code_simp

lemma string2ll_show_int:
  assumes "is_ll n"
  shows "string2ll (show_int n) = Some n"
proof (cases "n = 0")
  case True
  then show ?thesis by (simp add: string2ll_def show_int_0)
next
  case False
  define v where "v = nat \<bar>n\<bar>"
  have v: "0 < v" "v \<le> ULLONG_MAX" using False assms by (auto simp: v_def is_ll_def)
  obtain c p where cp: "show_nat v = c # p" by (cases "show_nat v") auto
  note f = hd_show_nat_pos [OF v(1) cp]
  have loop: "string2ll_loop (digit_val c) p = Some (v, [])"
    using string2ll_loop_Some [of p "digit_val c"] f v by simp
  have c: "c \<noteq> CHR ''-''" using f(1) by (auto dest: digit_not_sign)
  show ?thesis
  proof (cases "n < 0")
    case True
    then have "show_int n = CHR ''-'' # c # p" by (simp add: show_int_def v_def flip: cp)
    moreover have "ll (- int v) = n" "\<not> v > 9223372036854775808"
      using True assms by (auto simp: v_def is_ll_def ll_id)
    ultimately show ?thesis using f c loop by (simp add: string2ll_def)
  next
    case nneg: False
    then have "show_int n = c # p" by (simp add: show_int_def v_def flip: cp)
    moreover have "int v = n" "\<not> int v > LLONG_MAX"
      using nneg assms by (auto simp: v_def is_ll_def)
    ultimately show ?thesis using f c loop by (simp add: string2ll_def)
  qed
qed

lemma show_nat_of_digits:
  assumes "is_digit c" "c \<noteq> CHR ''0''" "\<forall>d \<in> set p. is_digit d"
  shows "show_nat (foldl (\<lambda>v c. 10 * v + digit_val c) (digit_val c) p) = c # p"
    and "0 < foldl (\<lambda>v c. 10 * v + digit_val c) (digit_val c) p"
proof -
  have z: "CHR ''0'' = digit_char 0" by code_simp
  have "digit_val c \<noteq> 0" using assms(1,2) digit_char_val [of c] unfolding z by metis
  moreover have "show_nat (digit_val c) = [c]"
    using digit_val_less [OF assms(1)] assms(1) by (simp add: show_nat.simps)
  ultimately show "show_nat (foldl (\<lambda>v c. 10 * v + digit_val c) (digit_val c) p) = c # p"
    using assms(3) by (simp add: show_nat_foldl)
  show "0 < foldl (\<lambda>v c. 10 * v + digit_val c) (digit_val c) p"
    using foldl_mono_le [of "\<lambda>v c. 10 * v + digit_val c" "digit_val c" p] \<open>digit_val c \<noteq> 0\<close> by simp
qed

lemma string2ll_SomeD:
  assumes "string2ll s = Some n"
  shows "is_ll n \<and> s = show_int n"
proof (cases "s = ''0''")
  case True
  then have "n = 0" using assms by (simp add: string2ll_def)
  then show ?thesis using True by (simp add: is_ll_def show_int_0)
next
  case False
  define p where "p = (if hd s = CHR ''-'' then tl s else s)"
  have s: "s \<noteq> []" using assms by (auto simp: string2ll_def)
  have p: "p \<noteq> []" using assms s False by (auto simp: string2ll_def Let_def p_def split: if_splits)
  then obtain c q where cq: "p = c # q" by (cases p) auto
  have z: "\<not> (hd p = CHR ''0'' \<and> length s = 1)"
    using False s p by (cases s) (auto simp: p_def split: if_splits)
  have dig: "is_digit c" "c \<noteq> CHR ''0''"
    using assms s False cq z p by (auto simp: string2ll_def Let_def p_def [symmetric] split: if_splits)
  obtain v where loop: "string2ll_loop (digit_val c) q = Some (v, [])"
    and res: "if hd s = CHR ''-'' then v \<le> 9223372036854775808 \<and> n = ll (- int v)
      else int v \<le> LLONG_MAX \<and> n = int v"
    using assms s False cq p dig
    by (auto simp: string2ll_def Let_def p_def [symmetric] split: if_splits option.splits)
  have ds: "\<forall>d \<in> set q. is_digit d" and v: "v = foldl (\<lambda>v c. 10 * v + digit_val c) (digit_val c) q"
    using string2ll_loop_NilD [OF loop] by auto
  have sh: "show_nat v = p" "0 < v"
    using show_nat_of_digits [OF dig ds] by (simp_all add: v cq)
  show ?thesis
  proof (cases "hd s = CHR ''-''")
    case True
    then have "is_ll (- int v)" using res by (simp add: is_ll_def)
    then show ?thesis using True res sh s by (cases s) (auto simp: p_def show_int_def)
  next
    case F: False
    then show ?thesis using res sh s by (auto simp: p_def show_int_def is_ll_def)
  qed
qed

text \<open>The parser accepts exactly the printed form of the 64-bit integers.\<close>

lemma string2ll_iff: "string2ll s = Some n \<longleftrightarrow> is_ll n \<and> s = show_int n"
  using string2ll_SomeD string2ll_show_int by blast

lemma string2l_eq: "string2l s = string2ll s"
  using string2ll_SomeD [of s] by (auto simp: string2l_def is_ll_def split: option.splits)

section \<open>Memory sizes\<close>

lemma memtoll_eq:
  assumes "int n \<le> LLONG_MAX" "length (show_nat n) < 128" "u = [] \<or> \<not> is_digit (hd u)"
  shows "memtoll (show_nat n @ u) = (ll (int n * fst (memtoll_unit u)), snd (memtoll_unit u))"
proof -
  have hd: "hd (show_nat n @ u) \<noteq> CHR ''-''"
    using hd_show_nat_digit [of n] by (simp add: digit_not_sign)
  have drop: "dropWhile is_digit (show_nat n @ u) = u"
    using assms(3) show_nat_digits [of _ n] by (cases u) (auto simp: dropWhile_append)
  have "strtoll10 (show_nat n) = int n"
    using assms(1) by (intro strtoll10_show_nat) simp
  then show ?thesis using assms(2) hd drop
    by (auto simp: memtoll_def Let_def split: prod.splits)
qed

lemma length_show_nat_le: "n < 10 ^ k \<Longrightarrow> 0 < k \<Longrightarrow> length (show_nat n) \<le> k"
proof (induction k arbitrary: n)
  case (Suc k)
  show ?case
  proof (cases "n < 10")
    case True
    then show ?thesis by (simp add: length_show_nat_small)
  next
    case False
    then have "0 < k" using Suc.prems by (cases k) auto
    moreover have "n div 10 < 10 ^ k" using Suc.prems by (simp add: less_mult_imp_div_less mult.commute)
    ultimately show ?thesis using Suc.IH [of "n div 10"] False by (simp add: length_show_nat_step)
  qed
qed simp

lemma length_show_int_ll20: "is_ll v \<Longrightarrow> length (show_int v) \<le> 20"
proof -
  assume "is_ll v"
  then have "nat v < 10 ^ 19" "nat (- v) < 10 ^ 19" by (auto simp: is_ll_def nat_less_iff)
  then have "length (show_nat (nat v)) \<le> 19" "length (show_nat (nat (- v))) \<le> 19"
    by (simp_all add: length_show_nat_le)
  then show ?thesis by (simp add: show_int_def)
qed

lemma length_show_int_ll: "is_ll v \<Longrightarrow> length (show_int v) < 31"
  using length_show_int_ll20 [of v] by simp

section \<open>Properties\<close>

text \<open>
  C14: Printing and parsing integers.  For every 64-bit integer and every buffer that is long
  enough, what \<open>ll2string\<close> writes is the canonical decimal text, null-terminated inside the
  buffer, and \<open>string2ll\<close> reads the same integer back.
\<close>

theorem ll2string_string2ll:
  assumes "is_ll n" "32 \<le> dstlen" "dstlen \<le> length dst"
  shows "case ll2string dst dstlen n of (len, buf) \<Rightarrow>
    len < dstlen \<and> length buf = length dst \<and> buf ! len = NUL \<and> string2ll (take len buf) = Some n"
proof -
  have "length (show_int n) < 31" using assms(1) by (rule length_show_int_ll)
  then show ?thesis using assms
    by (simp add: ll2string_eq string2ll_iff nth_append)
qed

theorem ll2string_string2ll_witness:
  "case ll2string (replicate 32 NUL) 32 (-9223372036854775808) of (len, buf) \<Rightarrow>
     buf ! len = NUL \<and> string2ll (take len buf) = Some (-9223372036854775808)"
  using ll2string_string2ll [of "-9223372036854775808" 32 "replicate 32 NUL"]
  by (simp add: is_ll_def split_beta)

text \<open>
  C15: \<open>string2ll\<close> accepts exactly the canonical decimal texts of 64-bit integers: no leading
  zeros, plus signs, spaces, empty or overflowing texts.
\<close>

theorem string2ll_exact: "string2ll s = Some n \<longleftrightarrow> is_ll n \<and> s = show_int n"
  by (rule string2ll_iff)

end
