(* ===== verification/Prez_Object.thy ===== *)
theory Prez_Object
  imports Prez_Util
begin

text \<open>
  String objects of src/src/object.c: a value with an encoding and a reference count.  The
  content is a byte string (RAW and EMBSTR encodings) or a machine integer (INT encoding).
  \<open>obj_str\<close> is the byte string an object stands for, whatever its encoding.
\<close>

datatype encoding = ENC_RAW | ENC_INT | ENC_EMBSTR

datatype obj_ptr = PSds string | PInt int

record robj =
  o_encoding :: encoding
  o_refcount :: int
  o_ptr :: obj_ptr

definition createObject :: "obj_ptr \<Rightarrow> robj" where
  "createObject p = \<lparr>o_encoding = ENC_RAW, o_refcount = 1, o_ptr = p\<rparr>"

definition createRawStringObject :: "string \<Rightarrow> robj" where
  "createRawStringObject s = createObject (PSds s)"

definition createEmbeddedStringObject :: "string \<Rightarrow> robj" where
  "createEmbeddedStringObject s = \<lparr>o_encoding = ENC_EMBSTR, o_refcount = 1, o_ptr = PSds s\<rparr>"

definition createStringObject :: "string \<Rightarrow> robj" where
  "createStringObject s =
     (if length s \<le> 39 then createEmbeddedStringObject s else createRawStringObject s)"

text \<open>
  \<open>createStringObjectFromLongLong\<close>; the shared integers 0..9999 have the same content as a
  fresh INT-encoded object, and their count is a shared one.
\<close>

definition createStringObjectFromLongLong :: "int \<Rightarrow> robj" where
  "createStringObjectFromLongLong v =
     (if LLONG_MIN \<le> v \<and> v \<le> LLONG_MAX
      then \<lparr>o_encoding = ENC_INT, o_refcount = 1, o_ptr = PInt v\<rparr>
      else createObject (PSds (show_int v)))"

definition getDecodedObject :: "robj \<Rightarrow> robj option" where
  "getDecodedObject ob =
     (case (o_encoding ob, o_ptr ob) of
        (ENC_INT, PInt v) \<Rightarrow>
          (let (n, buf) = ll2string (replicate 32 NUL) 32 v in Some (createStringObject (cstr buf)))
      | (ENC_INT, PSds s) \<Rightarrow> None
      | (_, _) \<Rightarrow> Some (ob\<lparr>o_refcount := o_refcount ob + 1\<rparr>))"

text \<open>The byte string an object stands for.\<close>

definition obj_str :: "robj \<Rightarrow> string" where
  "obj_str ob = (case o_ptr ob of PSds s \<Rightarrow> s | PInt v \<Rightarrow> show_int v)"

text \<open>The encoding tag agrees with the kind of the content.\<close>

definition obj_wf :: "robj \<Rightarrow> bool" where
  "obj_wf ob \<longleftrightarrow>
     (case o_ptr ob of PSds s \<Rightarrow> o_encoding ob \<noteq> ENC_INT | PInt v \<Rightarrow> o_encoding ob = ENC_INT \<and> is_ll v)"

lemma ll2string_32:
  assumes "is_ll v" "31 \<le> n"
  shows "ll2string (replicate n NUL) n v =
    (length (show_int v), show_int v @ NUL # replicate (n - Suc (length (show_int v))) NUL)"
  using assms length_show_int_ll [OF assms(1)] ll2string_eq [OF assms(1), of n "replicate n NUL"]
  by (simp add: less_le_trans)

lemma getDecodedObject_str:
  assumes "obj_wf ob"
  shows "\<exists>d. getDecodedObject ob = Some d \<and> o_ptr d = PSds (obj_str ob)"
  using assms
  by (cases "o_ptr ob"; cases "o_encoding ob")
    (auto simp: getDecodedObject_def obj_wf_def obj_str_def ll2string_32 cstr_append_nul
      show_int_no_nul createStringObject_def createEmbeddedStringObject_def
      createRawStringObject_def createObject_def)

lemma obj_wf_create [simp]:
  "obj_wf (createStringObject s)" "is_ll v \<Longrightarrow> obj_wf (createStringObjectFromLongLong v)"
  by (auto simp: obj_wf_def createStringObject_def createEmbeddedStringObject_def is_ll_def
      createRawStringObject_def createObject_def createStringObjectFromLongLong_def)

lemma obj_str_create [simp]:
  "obj_str (createStringObject s) = s" "obj_str (createStringObjectFromLongLong v) = show_int v"
  by (auto simp: obj_str_def createStringObject_def createEmbeddedStringObject_def
      createRawStringObject_def createObject_def createStringObjectFromLongLong_def)

end
