(* ===== verification/Prez_Log.thy ===== *)
theory Prez_Log
  imports Prez_Adlist Prez_Object
begin

text \<open>
  The replicated log of src/src/log.c: the in-memory list of entries with their file offsets,
  the log file as a byte string, truncation, appending, the commit index and the loader that
  rebuilds the list from the file at start.  \<open>logApply\<close>, which runs commands, is modelled with
  the whole server in \<open>Prez_Server\<close>.  System calls are the fields of \<open>osenv\<close>: how many bytes a write takes, and
  whether \<open>fsync\<close> and \<open>ftruncate\<close> succeed.
\<close>

section \<open>Data\<close>

definition PREZ_COMMAND_NAMELEN :: nat where "PREZ_COMMAND_NAMELEN = 40"
definition PREZ_COMMAND_LEN :: nat where "PREZ_COMMAND_LEN = 40"
definition PREZ_LOG_MAX_ENTRIES_PER_REQUEST :: nat where "PREZ_LOG_MAX_ENTRIES_PER_REQUEST = 50"

text \<open>The two names are character arrays of 40 bytes.\<close>

record logEntry =
  le_index :: int
  le_term :: int
  le_commandName :: string
  le_command :: string

record logEntryNode =
  log_entry :: logEntry
  position :: nat

text \<open>
  The log's part of \<open>struct clusterState\<close>; the record of the whole state extends it.
  \<open>log_file\<close> is the content of the file behind \<open>log_fd\<close>, which is open in append mode.
\<close>

record logState =
  log_entries :: "logEntryNode list"
  log_file :: string
  log_current_size :: nat
  commit_index :: int
  last_applied :: int

record osenv =
  os_write :: "string \<Rightarrow> string \<Rightarrow> int"      \<comment> \<open>file content, buffer: the result of write(2)\<close>
  os_fsync :: "string \<Rightarrow> int"
  os_ftruncate :: "string \<Rightarrow> nat \<Rightarrow> int"

section \<open>Lookup\<close>

definition logLength :: "'z logState_scheme \<Rightarrow> nat" where
  "logLength s = length (log_entries s)"

text \<open>
  \<open>getLogNode\<close>: the position in the list of the node that \<open>listIndex\<close> finds for
  \<open>index-1-logLength\<close>.  The subtraction is done in unsigned 64-bit arithmetic and the result is
  passed as a \<open>long\<close>, so an index above the length is read from the head of the list.
\<close>

definition getLogNode :: "'z logState_scheme \<Rightarrow> int \<Rightarrow> nat option" where
  "getLogNode s index = list_index [0..<logLength s] (ll (index - 1 - int (logLength s)))"

definition getLogEntry :: "'z logState_scheme \<Rightarrow> int \<Rightarrow> logEntryNode option" where
  "getLogEntry s index =
     (case getLogNode s index of None \<Rightarrow> None | Some n \<Rightarrow> Some (log_entries s ! n))"

definition logCurrentIndex :: "'z logState_scheme \<Rightarrow> int" where
  "logCurrentIndex s =
     (case list_index (log_entries s) (-1) of Some e \<Rightarrow> le_index (log_entry e) | None \<Rightarrow> 0)"

definition logCurrentTerm :: "'z logState_scheme \<Rightarrow> int" where
  "logCurrentTerm s =
     (case list_index (log_entries s) (-1) of Some e \<Rightarrow> le_term (log_entry e) | None \<Rightarrow> 0)"

definition logGetTerm :: "'z logState_scheme \<Rightarrow> int \<Rightarrow> int" where
  "logGetTerm s index =
     (case getLogNode s index of Some n \<Rightarrow> le_term (log_entry (log_entries s ! n)) | None \<Rightarrow> 0)"

text \<open>\<open>None\<close> is the dereference of a NULL entry.\<close>

definition logVerifyAppend :: "'z logState_scheme \<Rightarrow> int \<Rightarrow> int \<Rightarrow> int option" where
  "logVerifyAppend s index term =
     (if index = 0 then Some PREZ_OK
      else if ull index > logLength s then Some PREZ_ERR
      else
        do { entry \<leftarrow> getLogEntry s index;
             if le_term (log_entry entry) \<noteq> term then Some PREZ_ERR else Some PREZ_OK })"

section \<open>Writing\<close>

text \<open>
  \<open>logTruncate\<close>: the guard compares in unsigned arithmetic; the loop deletes every node from
  the found one on.
\<close>

definition logTruncate :: "osenv \<Rightarrow> 'z logState_scheme \<Rightarrow> int \<Rightarrow> 'z logState_scheme option" where
  "logTruncate env s index =
     (if ull index < logLength s then
        do { n \<leftarrow> getLogNode s index;
             let pos = position (log_entries s ! n);
             let file = (if os_ftruncate env (log_file s) pos = 0
                         then take pos (log_file s) @ replicate (pos - length (log_file s)) NUL
                         else log_file s);
             Some (s\<lparr>log_file := file, log_current_size := pos,
                    log_entries := take n (log_entries s)\<rparr>) }
      else Some s)"

text \<open>The decimal length prefix that \<open>catLogEntry\<close> writes through its 32-byte stack buffer.\<close>

definition fmt_len :: "char \<Rightarrow> nat \<Rightarrow> string" where
  "fmt_len c n = (let (len, buf) = ll2string (replicate 31 NUL) 31 (int n) in c # take len buf @ CRLF)"

definition catLogEntry :: "string \<Rightarrow> string list \<Rightarrow> string" where
  "catLogEntry dst argv =
     dst @ fmt_len CHR ''*'' (length argv) @
     concat (map (\<lambda>a. fmt_len CHR ''$'' (length a) @ a @ CRLF) argv)"

text \<open>The four arguments of an entry, as string objects and decoded.\<close>

definition log_argv :: "logEntry \<Rightarrow> robj list" where
  "log_argv e =
     [createStringObjectFromLongLong (le_index e),
      createStringObjectFromLongLong (le_term e),
      createStringObject (cstr (le_commandName e)),
      createStringObject (cstr (le_command e))]"

fun decode_argv :: "robj list \<Rightarrow> string list option" where
  "decode_argv [] = Some []"
| "decode_argv (ob # obs) =
     do { d \<leftarrow> getDecodedObject ob; ss \<leftarrow> decode_argv obs; Some (obj_str d # ss) }"

text \<open>The copy of an entry that is kept in memory: zeroed, then both C strings copied in.\<close>

definition copy_entry :: "logEntry \<Rightarrow> logEntry" where
  "copy_entry e =
     \<lparr>le_index = le_index e, le_term = le_term e,
      le_commandName = char_array PREZ_COMMAND_NAMELEN (cstr (le_commandName e)),
      le_command = char_array PREZ_COMMAND_LEN (cstr (le_command e))\<rparr>"

text \<open>
  Persist to the file and append to the list.  \<open>None\<close> is \<open>strlen\<close> running off the end of an
  array without a null byte.
\<close>

definition terminated :: "logEntry \<Rightarrow> bool" where
  "terminated e \<longleftrightarrow> strlen (le_commandName e) < PREZ_COMMAND_NAMELEN \<and>
     strlen (le_command e) < PREZ_COMMAND_LEN"

definition log_persist :: "osenv \<Rightarrow> 'z logState_scheme \<Rightarrow> logEntry \<Rightarrow> 'z logState_scheme option" where
  "log_persist env s e =
     do { argv \<leftarrow> (if terminated e then decode_argv (log_argv e) else None);
          let buf = catLogEntry [] argv;
          let nwritten = os_write env (log_file s) buf;
          let en = \<lparr>log_entry = copy_entry e, position = log_current_size s\<rparr>;
          Some (s\<lparr>log_file := log_file s @ take (nat nwritten) buf,
                 log_current_size := log_current_size s + length buf,
                 log_entries := log_entries s @ [en]\<rparr>) }"

definition logWriteEntry :: "osenv \<Rightarrow> 'z logState_scheme \<Rightarrow> logEntry \<Rightarrow> ('z logState_scheme \<times> int) option" where
  "logWriteEntry env s e =
     (case (if logLength s > 0 then getLogEntry s (le_index e) else None) of
        None \<Rightarrow> do { s \<leftarrow> log_persist env s e; Some (s, PREZ_OK) }
      | Some en \<Rightarrow>
          if le_index (log_entry en) = le_index e \<and> le_term (log_entry en) = le_term e
          then Some (s, PREZ_OK)
          else
            do { s \<leftarrow> (if le_term e \<noteq> le_term (log_entry en) \<and> le_index e = le_index (log_entry en)
                      then logTruncate env s (le_index e) else Some s);
                 s \<leftarrow> log_persist env s e;
                 Some (s, PREZ_OK) })"

text \<open>
  The AppendEntries message.  The count comes from the network, the array has 50 elements;
  \<open>None\<close> is an access beyond the received elements.
\<close>

record clusterMsgDataAppendEntries =
  ae_term :: int
  ae_leaderid :: string
  ae_prev_log_index :: int
  ae_prev_log_term :: int
  ae_leader_commit_index :: int
  ae_log_entries_count :: nat
  ae_log_entries :: "logEntry list"

fun logAppend_loop :: "osenv \<Rightarrow> 'z logState_scheme \<Rightarrow> nat \<Rightarrow> logEntry list \<Rightarrow> ('z logState_scheme \<times> int) option" where
  "logAppend_loop env s 0 es = Some (s, PREZ_OK)"
| "logAppend_loop env s (Suc n) [] = None"
| "logAppend_loop env s (Suc n) (e # es) =
     do { (s, rc) \<leftarrow> logWriteEntry env s e;
          if rc \<noteq> 0 then Some (s, PREZ_ERR) else logAppend_loop env s n es }"

definition logAppendEntries ::
  "osenv \<Rightarrow> 'z logState_scheme \<Rightarrow> clusterMsgDataAppendEntries \<Rightarrow> ('z logState_scheme \<times> int) option" where
  "logAppendEntries env s m =
     do { (s, rc) \<leftarrow> logAppend_loop env s (ae_log_entries_count m) (ae_log_entries m);
          if rc \<noteq> 0 then Some (s, PREZ_ERR)
          else if os_fsync env (log_file s) = -1 then Some (s, PREZ_ERR)
          else Some (s, PREZ_OK) }"

definition logCommitIndex :: "'z logState_scheme \<Rightarrow> int \<Rightarrow> 'z logState_scheme \<times> int" where
  "logCommitIndex s leader_commit =
     (if leader_commit > commit_index s
      then (s\<lparr>commit_index := (if leader_commit < logCurrentIndex s then leader_commit
                              else logCurrentIndex s)\<rparr>, PREZ_OK)
      else (s, PREZ_OK))"

definition logSync :: "osenv \<Rightarrow> 'z logState_scheme \<Rightarrow> int" where
  "logSync env s = (if os_fsync env (log_file s) = -1 then PREZ_ERR else PREZ_OK)"

section \<open>Loading\<close>

text \<open>\<open>fgets(buf, 128, fp)\<close>: at most 127 bytes, up to and including a newline.\<close>

fun fgets_len :: "nat \<Rightarrow> string \<Rightarrow> nat" where
  "fgets_len 0 s = 0"
| "fgets_len (Suc n) [] = 0"
| "fgets_len (Suc n) (c # s) = (if c = LF then 1 else Suc (fgets_len n s))"

definition fgets :: "nat \<Rightarrow> string \<Rightarrow> (string \<times> string) option" where
  "fgets n s = (if s = [] then None
                else (let k = fgets_len (n - 1) s in Some (take k s, drop k s)))"

text \<open>
  The 40-byte copies out of a freshly allocated argument: its bytes, the terminating null and
  then whatever the heap holds (\<open>junk\<close>).
\<close>

definition memcpy40 :: "(nat \<Rightarrow> char) \<Rightarrow> string \<Rightarrow> string" where
  "memcpy40 junk a =
     map (\<lambda>i. if i < length a then a ! i else if i = length a then NUL else junk i) [0..<40]"

text \<open>
  The argument loop, from argument \<open>j\<close> with \<open>n\<close> to go: the entry so far, the bytes consumed
  and the rest of the file.  Both error labels end in \<open>exit(1)\<close>.
\<close>

fun load_args :: "(nat \<Rightarrow> char) \<Rightarrow> nat \<Rightarrow> nat \<Rightarrow> logEntry \<Rightarrow> nat \<Rightarrow> string \<Rightarrow> fault + (logEntry \<times> nat \<times> string)" where
  "load_args junk j 0 e loglen f = Inr (e, loglen, f)"
| "load_args junk j (Suc n) e loglen f =
     (case fgets 128 f of
        None \<Rightarrow> Inl (Exit 1)
      | Some (buf, f) \<Rightarrow>
          if cstr buf = [] \<or> hd buf \<noteq> CHR ''$'' then Inl (Exit 1)
          else
            let len = strtoll10 (tl (cstr buf)) in
            if len < 0 then Inl Out_Of_Memory
            else if nat len > length f then Inl (Exit 1)
            else
              let a = take (nat len) f;
                  f = drop (nat len) f;
                  loglen = loglen + (nat len + strlen buf);
                  e' = (if j = 0 then map_option (\<lambda>i. e\<lparr>le_index := i\<rparr>) (string2ll a)
                        else if j = 1 then map_option (\<lambda>i. e\<lparr>le_term := i\<rparr>) (string2ll a)
                        else if j = 2 then Some (e\<lparr>le_commandName := memcpy40 junk a\<rparr>)
                        else if j = 3 then Some (e\<lparr>le_command := memcpy40 junk a\<rparr>)
                        else None)
              in (case e' of
                    None \<Rightarrow> Inl (Exit 1)
                  | Some e \<Rightarrow>
                      if length f < 2 then Inl (Exit 1)
                      else load_args junk (Suc j) n e (loglen + 2) (drop 2 f)))"

lemma fgets_len_le: "fgets_len n s \<le> length s"
  by (induction n s rule: fgets_len.induct) auto

lemma fgets_shrinks: "fgets 128 s = Some (b, r) \<Longrightarrow> length r < length s \<and> length b + length r = length s"
  using fgets_len_le [of 127 s]
  by (cases s) (auto simp: fgets_def Let_def numeral_eq_Suc split: if_splits)

lemma load_args_shrinks: "load_args junk j n e k f = Inr (e', k', f') \<Longrightarrow> length f' \<le> length f"
proof (induction n arbitrary: j e k f)
  case (Suc n)
  then show ?case
    by (fastforce simp: Let_def dest!: fgets_shrinks split: option.splits if_splits prod.splits)
qed simp

text \<open>
  The outer loop, one entry per round; \<open>uninit\<close> is the freshly allocated, not yet written
  entry.
\<close>

function load_entries ::
  "(nat \<Rightarrow> char) \<Rightarrow> logEntry \<Rightarrow> logEntryNode list \<Rightarrow> nat \<Rightarrow> string \<Rightarrow> fault + (logEntryNode list \<times> nat)" where
  "load_entries junk uninit es sz f =
     (case fgets 128 f of
        None \<Rightarrow> Inr (es, sz)
      | Some (buf, f') \<Rightarrow>
          if cstr buf = [] \<or> hd buf \<noteq> CHR ''*'' then Inl (Exit 1)
          else
            let argc = c_atoi (tl (cstr buf)) in
            if argc < 1 then Inl (Exit 1)
            else
              (case load_args junk 0 (nat argc) uninit (strlen buf) f' of
                 Inl err \<Rightarrow> Inl err
               | Inr (e, loglen, f'') \<Rightarrow>
                   load_entries junk uninit (es @ [\<lparr>log_entry = e, position = sz\<rparr>])
                     (sz + loglen) f''))"
  by pat_completeness auto
termination
  by (relation "measure (\<lambda>(junk, uninit, es, sz, f). length f)")
    (auto dest!: fgets_shrinks load_args_shrinks)

declare load_entries.simps [simp del]

text \<open>\<open>loadLogFile\<close> on a file that could be opened.\<close>

definition loadLogFile :: "(nat \<Rightarrow> char) \<Rightarrow> logEntry \<Rightarrow> 'z logState_scheme \<Rightarrow> fault + 'z logState_scheme" where
  "loadLogFile junk uninit s =
     (if log_file s = [] then Inr (s\<lparr>log_current_size := 0\<rparr>)
      else case load_entries junk uninit (log_entries s) 0 (log_file s) of
             Inl err \<Rightarrow> Inl err
           | Inr (es, sz) \<Rightarrow> Inr (s\<lparr>log_entries := es, log_current_size := sz\<rparr>))"

section \<open>Lookup by index\<close>

text \<open>Logs and indices far below the 64-bit limit.\<close>

definition small :: "int \<Rightarrow> bool" where
  "small i \<longleftrightarrow> \<bar>i\<bar> < 4611686018427387904"

definition log_small :: "'z logState_scheme \<Rightarrow> bool" where
  "log_small s \<longleftrightarrow> int (logLength s) < 4611686018427387000"

text \<open>The entry at position \<open>k\<close> of the list has index \<open>k+1\<close>.\<close>

definition log_wf :: "'z logState_scheme \<Rightarrow> bool" where
  "log_wf s \<longleftrightarrow> (\<forall>k < logLength s. le_index (log_entry (log_entries s ! k)) = int k + 1)"

lemma small_is_ll: "small i \<Longrightarrow> is_ll i"
  unfolding small_def is_ll_def by linarith

lemma small_sub_ll: "small i \<Longrightarrow> log_small s \<Longrightarrow> ll (i - 1 - int (logLength s)) = i - 1 - int (logLength s)"
  by (rule ll_id) (auto simp: small_def log_small_def is_ll_def)

lemma getLogNode_in:
  assumes "log_small s" "1 \<le> i" "i \<le> int (logLength s)"
  shows "getLogNode s i = Some (nat (i - 1))"
proof -
  have "small i" using assms unfolding small_def log_small_def by linarith
  then have "getLogNode s i = list_index [0..<logLength s] (i - 1 - int (logLength s))"
    using assms(1) by (simp add: getLogNode_def small_sub_ll)
  moreover have "nat (i - 1) < logLength s" using assms by linarith
  ultimately show ?thesis using assms(2,3) by (simp add: list_index_def)
qed

text \<open>Above the length the lookup wraps round to the head of the list.\<close>

lemma getLogNode_above:
  assumes "log_small s" "small i" "int (logLength s) < i"
  shows "getLogNode s i =
    (if i - 1 < 2 * int (logLength s) then Some (nat (i - 1 - int (logLength s))) else None)"
  using assms by (auto simp: getLogNode_def small_sub_ll list_index_def)

lemma getLogNode_below:
  assumes "log_small s" "small i" "i < 1"
  shows "getLogNode s i = None"
  using assms by (auto simp: getLogNode_def small_sub_ll list_index_def)

lemma getLogNode_less: "getLogNode s i = Some n \<Longrightarrow> n < logLength s"
  by (auto simp: getLogNode_def dest!: list_index_Some_in)

lemma getLogEntry_in:
  assumes "log_small s" "1 \<le> i" "i \<le> int (logLength s)"
  shows "getLogEntry s i = Some (log_entries s ! nat (i - 1))"
  using getLogNode_in [OF assms] by (simp add: getLogEntry_def)

lemma logGetTerm_in:
  assumes "log_small s" "1 \<le> i" "i \<le> int (logLength s)"
  shows "logGetTerm s i = le_term (log_entry (log_entries s ! nat (i - 1)))"
  using getLogNode_in [OF assms] by (simp add: logGetTerm_def)

lemma list_index_last: "list_index xs (-1) = (if xs = [] then None else Some (last xs))"
proof (cases xs rule: rev_cases)
  case (snoc ys y)
  then show ?thesis by (simp add: list_index_def nth_append)
qed (simp add: list_index_def)

lemma logCurrentIndex_last:
  "logCurrentIndex s = (if log_entries s = [] then 0 else le_index (log_entry (last (log_entries s))))"
  "logCurrentTerm s = (if log_entries s = [] then 0 else le_term (log_entry (last (log_entries s))))"
  by (simp_all add: logCurrentIndex_def logCurrentTerm_def list_index_last)

lemma logCurrentIndex_wf: "log_wf s \<Longrightarrow> logCurrentIndex s = int (logLength s)"
  by (cases "log_entries s" rule: rev_cases)
    (auto simp: logCurrentIndex_last log_wf_def logLength_def nth_append)

lemma logVerifyAppend_eq:
  assumes "log_small s" "is_ll i"
  shows "logVerifyAppend s i t = Some (
    if i = 0 \<or> (1 \<le> i \<and> i \<le> int (logLength s) \<and> le_term (log_entry (log_entries s ! nat (i - 1))) = t)
    then PREZ_OK else PREZ_ERR)"
proof -
  consider "i = 0" | "i < 0" | "0 < i" by linarith
  then show ?thesis
  proof cases
    case 1
    then show ?thesis by (simp add: logVerifyAppend_def)
  next
    case 2
    then have "9223372036854775808 \<le> ull i" using assms(2) by (intro ull_neg) (simp_all add: is_ll_def)
    then have "ull i > logLength s" using assms(1) unfolding log_small_def by linarith
    with 2 show ?thesis by (simp add: logVerifyAppend_def)
  next
    case 3
    then have u: "ull i = nat i" using assms(2) by (simp add: ull_nonneg is_ll_def)
    show ?thesis
    proof (cases "i \<le> int (logLength s)")
      case True
      then have "\<not> logLength s < nat i" by linarith
      with True 3 u assms(1) show ?thesis by (simp add: logVerifyAppend_def getLogEntry_in)
    next
      case False
      then have "logLength s < nat i" by linarith
      with False 3 u show ?thesis by (simp add: logVerifyAppend_def)
    qed
  qed
qed

section \<open>The effect of a write\<close>

definition os_ok :: "osenv \<Rightarrow> bool" where
  "os_ok env \<longleftrightarrow> (\<forall>f b. os_write env f b = int (length b)) \<and> (\<forall>f p. os_ftruncate env f p = 0) \<and>
     (\<forall>f. os_fsync env f = 0)"

text \<open>The contents of an entry that other parts of the program look at.\<close>

definition entry_ok :: "logEntry \<Rightarrow> bool" where
  "entry_ok e \<longleftrightarrow> is_ll (le_index e) \<and> is_ll (le_term e) \<and> terminated e"

definition enc_entry :: "logEntry \<Rightarrow> string" where
  "enc_entry e = catLogEntry [] [show_int (le_index e), show_int (le_term e),
     cstr (le_commandName e), cstr (le_command e)]"

lemma copy_entry_sel [simp]:
  "le_index (copy_entry e) = le_index e" "le_term (copy_entry e) = le_term e"
  "cstr (le_commandName (copy_entry e)) = cstr (le_commandName e)"
  "cstr (le_command (copy_entry e)) = cstr (le_command e)"
  by (simp_all add: copy_entry_def cstr_char_array)

lemma copy_entry_idem [simp]: "copy_entry (copy_entry e) = copy_entry e"
  by (simp add: copy_entry_def cstr_char_array)

lemma enc_copy_entry [simp]: "enc_entry (copy_entry e) = enc_entry e"
  by (simp add: enc_entry_def)

lemma entry_ok_copy [simp]: "entry_ok (copy_entry e) = entry_ok e"
  by (simp add: entry_ok_def terminated_def strlen_def)

lemma decode_log_argv:
  assumes "is_ll (le_index e)" "is_ll (le_term e)"
  shows "decode_argv (log_argv e) = Some [show_int (le_index e), show_int (le_term e),
     cstr (le_commandName e), cstr (le_command e)]"
proof -
  have d: "\<exists>d. getDecodedObject ob = Some d \<and> obj_str d = obj_str ob" if "obj_wf ob" for ob
    using getDecodedObject_str [OF that] by (auto simp: obj_str_def)
  show ?thesis
    using assms d [of "createStringObjectFromLongLong (le_index e)"]
      d [of "createStringObjectFromLongLong (le_term e)"]
      d [of "createStringObject (cstr (le_commandName e))"]
      d [of "createStringObject (cstr (le_command e))"]
    by (auto simp: log_argv_def)
qed

text \<open>The node that a write of \<open>e\<close> adds at offset \<open>p\<close>.\<close>

definition new_node :: "logEntry \<Rightarrow> nat \<Rightarrow> logEntryNode" where
  "new_node e p = \<lparr>log_entry = copy_entry e, position = p\<rparr>"

lemma log_persist_eq:
  assumes "entry_ok e"
  shows "log_persist env s e = Some (s\<lparr>
    log_file := log_file s @ take (nat (os_write env (log_file s) (enc_entry e))) (enc_entry e),
    log_current_size := log_current_size s + length (enc_entry e),
    log_entries := log_entries s @ [new_node e (log_current_size s)]\<rparr>)"
  using decode_log_argv [of e] assms by (simp add: entry_ok_def log_persist_def enc_entry_def new_node_def Let_def)

text \<open>
  A write decides between three outcomes: the entry is already there, it replaces a conflicting
  suffix, or it is appended.
\<close>

definition conflict_at :: "'z logState_scheme \<Rightarrow> logEntry \<Rightarrow> bool" where
  "conflict_at s e \<longleftrightarrow> 1 \<le> le_index e \<and> le_index e \<le> int (logLength s) \<and>
     le_term (log_entry (log_entries s ! nat (le_index e - 1))) \<noteq> le_term e"

definition present_at :: "'z logState_scheme \<Rightarrow> logEntry \<Rightarrow> bool" where
  "present_at s e \<longleftrightarrow> 1 \<le> le_index e \<and> le_index e \<le> int (logLength s) \<and>
     le_term (log_entry (log_entries s ! nat (le_index e - 1))) = le_term e"

lemma logTruncate_eq:
  assumes "log_small s" "1 \<le> i" "i < int (logLength s)"
  shows "logTruncate env s i = Some (let pos = position (log_entries s ! nat (i - 1)) in
    s\<lparr>log_file := (if os_ftruncate env (log_file s) pos = 0
                   then take pos (log_file s) @ replicate (pos - length (log_file s)) NUL
                   else log_file s),
      log_current_size := pos, log_entries := take (nat (i - 1)) (log_entries s)\<rparr>)"
proof -
  have "ull i = nat i" using assms by (intro ull_nonneg) (auto simp: log_small_def)
  then show ?thesis using assms by (simp add: logTruncate_def getLogNode_in Let_def nat_less_iff)
qed

lemma logTruncate_last:
  assumes "log_small s" "i = int (logLength s)"
  shows "logTruncate env s i = Some s"
proof -
  have "ull i = logLength s" using assms by (auto simp: log_small_def intro: ull_of_nat)
  then show ?thesis by (simp add: logTruncate_def)
qed

lemma logWriteEntry_present:
  assumes "log_small s" "log_wf s" "present_at s e"
  shows "logWriteEntry env s e = Some (s, PREZ_OK)"
proof -
  have i: "1 \<le> le_index e" "le_index e \<le> int (logLength s)" using assms(3) by (auto simp: present_at_def)
  then have "0 < logLength s" "nat (le_index e - 1) < logLength s" by linarith+
  with i assms show ?thesis
    by (simp add: logWriteEntry_def getLogEntry_in log_wf_def present_at_def)
qed

lemma logWriteEntry_conflict:
  assumes "log_small s" "log_wf s" "conflict_at s e"
  shows "logWriteEntry env s e =
    do { s \<leftarrow> logTruncate env s (le_index e); s \<leftarrow> log_persist env s e; Some (s, PREZ_OK) }"
proof -
  have i: "1 \<le> le_index e" "le_index e \<le> int (logLength s)" using assms(3) by (auto simp: conflict_at_def)
  then have "0 < logLength s" "nat (le_index e - 1) < logLength s" by linarith+
  with i assms show ?thesis
    by (simp add: logWriteEntry_def getLogEntry_in log_wf_def conflict_at_def)
qed

lemma logWriteEntry_append:
  assumes "log_small s" "log_wf s" "int (logLength s) < le_index e" "small (le_index e)"
  shows "logWriteEntry env s e = do { s \<leftarrow> log_persist env s e; Some (s, PREZ_OK) }"
proof (cases "getLogEntry s (le_index e)")
  case (Some en)
  then obtain n where n: "getLogNode s (le_index e) = Some n" "en = log_entries s ! n"
    by (auto simp: getLogEntry_def split: option.splits)
  then have "n < logLength s" by (blast dest: getLogNode_less)
  then have "le_index (log_entry en) \<noteq> le_index e" using assms(2,3) n(2) by (auto simp: log_wf_def)
  with Some show ?thesis by (auto simp: logWriteEntry_def)
qed (simp add: logWriteEntry_def)

section \<open>The log file\<close>

text \<open>
  The file holds the entries in list order, each node's \<open>position\<close> is the offset of its
  entry, and the recorded size is the size of the file.
\<close>

fun offsets_ok :: "nat \<Rightarrow> logEntryNode list \<Rightarrow> bool" where
  "offsets_ok p [] = True"
| "offsets_ok p (n # ns) = (position n = p \<and> offsets_ok (p + length (enc_entry (log_entry n))) ns)"

definition enc_log :: "logEntryNode list \<Rightarrow> string" where
  "enc_log ns = concat (map (\<lambda>n. enc_entry (log_entry n)) ns)"

definition log_disk :: "'z logState_scheme \<Rightarrow> bool" where
  "log_disk s \<longleftrightarrow> offsets_ok 0 (log_entries s) \<and> log_file s = enc_log (log_entries s) \<and>
     log_current_size s = length (log_file s) \<and> (\<forall>n \<in> set (log_entries s). entry_ok (log_entry n))"

lemma enc_log_simps [simp]:
  "enc_log [] = []" "enc_log (n # ns) = enc_entry (log_entry n) @ enc_log ns"
  "enc_log (ms @ ns) = enc_log ms @ enc_log ns"
  by (simp_all add: enc_log_def)

lemma offsets_ok_append [simp]:
  "offsets_ok p (ms @ ns) \<longleftrightarrow> offsets_ok p ms \<and> offsets_ok (p + length (enc_log ms)) ns"
  by (induction ms arbitrary: p) (auto simp: add.assoc)

lemma offsets_ok_nth:
  "offsets_ok p ns \<Longrightarrow> k < length ns \<Longrightarrow> position (ns ! k) = p + length (enc_log (take k ns))"
proof (induction ns arbitrary: p k)
  case (Cons n ns)
  then show ?case by (cases k) auto
qed simp

lemma offsets_ok_take: "offsets_ok p ns \<Longrightarrow> offsets_ok p (take k ns)"
proof (induction ns arbitrary: p k)
  case (Cons n ns)
  then show ?case by (cases k) auto
qed simp

lemma enc_log_take: "enc_log ns = enc_log (take k ns) @ enc_log (drop k ns)"
  by (metis append_take_drop_id enc_log_simps(3))

lemma logTruncate_disk:
  assumes "os_ok env" "log_small s" "log_disk s" "1 \<le> i" "i < int (logLength s)"
  shows "\<exists>s'. logTruncate env s i = Some s' \<and> log_disk s' \<and>
    log_entries s' = take (nat (i - 1)) (log_entries s)"
proof -
  let ?k = "nat (i - 1)"
  let ?pos = "position (log_entries s ! ?k)"
  have "?k < length (log_entries s)" using assms(4,5) by (simp add: logLength_def)
  then have pos: "?pos = length (enc_log (take ?k (log_entries s)))"
    using assms(3) offsets_ok_nth [of 0 "log_entries s" ?k] by (simp add: log_disk_def)
  have fcont: "log_file s = enc_log (take ?k (log_entries s)) @ enc_log (drop ?k (log_entries s))"
    using assms(3) enc_log_take [of "log_entries s" ?k] by (simp add: log_disk_def)
  have "os_ftruncate env (log_file s) ?pos = 0" using assms(1) by (simp add: os_ok_def)
  then have "logTruncate env s i = Some (s\<lparr>log_file := enc_log (take ?k (log_entries s)),
      log_current_size := ?pos, log_entries := take ?k (log_entries s)\<rparr>)"
    using assms(2,4,5) by (simp add: logTruncate_eq Let_def fcont pos)
  then show ?thesis using assms(3) pos
    by (auto simp: log_disk_def offsets_ok_take dest: in_set_takeD)
qed

lemma log_persist_disk:
  assumes "os_ok env" "log_disk s" "entry_ok e"
  shows "\<exists>s'. log_persist env s e = Some s' \<and> log_disk s' \<and>
    log_entries s' = log_entries s @ [new_node e (log_current_size s)]"
  using assms by (simp add: log_persist_eq log_disk_def new_node_def os_ok_def)

text \<open>
  The list of entries alone.  \<open>raft_write\<close> is the write that Raft prescribes: an entry that is
  present stays, a conflicting entry goes together with all that follow it.  \<open>code_write\<close> is
  what the code does: a conflicting entry that is the last one stays in the list.
\<close>

definition abs_log :: "'z logState_scheme \<Rightarrow> logEntry list" where
  "abs_log s = map log_entry (log_entries s)"

definition raft_write :: "logEntry list \<Rightarrow> logEntry \<Rightarrow> logEntry list" where
  "raft_write es e =
     (let i = nat (le_index e - 1) in
      if i < length es \<and> le_term (es ! i) = le_term e then es else take i es @ [copy_entry e])"

definition code_write :: "logEntry list \<Rightarrow> logEntry \<Rightarrow> logEntry list" where
  "code_write es e =
     (let i = nat (le_index e - 1) in
      if i < length es \<and> le_term (es ! i) = le_term e then es
      else if Suc i = length es then es @ [copy_entry e]
      else take i es @ [copy_entry e])"

lemma length_abs_log [simp]: "length (abs_log s) = logLength s"
  by (simp add: abs_log_def logLength_def)

lemma abs_log_nth: "k < logLength s \<Longrightarrow> abs_log s ! k = log_entry (log_entries s ! k)"
  by (simp add: abs_log_def logLength_def)

lemma abs_log_new: "log_entries t = ns @ [new_node e p] \<Longrightarrow> abs_log t = map log_entry ns @ [copy_entry e]"
  by (simp add: abs_log_def new_node_def)

lemma log_wf_abs: "log_wf s \<longleftrightarrow> (\<forall>k < length (abs_log s). le_index (abs_log s ! k) = int k + 1)"
  by (simp add: log_wf_def abs_log_nth)

lemma write_conflict:
  assumes env: "os_ok env" and sm: "log_small s" and wf: "log_wf s" and disk: "log_disk s"
    and e: "entry_ok e" and cf: "conflict_at s e"
  shows "\<exists>s'. logWriteEntry env s e = Some (s', PREZ_OK) \<and> log_disk s' \<and>
    abs_log s' = code_write (abs_log s) e"
proof -
  have i: "1 \<le> le_index e" "le_index e \<le> int (logLength s)" using cf by (auto simp: conflict_at_def)
  let ?ns = "if le_index e = int (logLength s) then log_entries s
             else take (nat (le_index e - 1)) (log_entries s)"
  have "\<exists>t. logTruncate env s (le_index e) = Some t \<and> log_disk t \<and> log_entries t = ?ns"
  proof (cases "le_index e = int (logLength s)")
    case True
    then show ?thesis using logTruncate_last [OF sm True] disk by simp
  next
    case False
    with i have "le_index e < int (logLength s)" by simp
    from logTruncate_disk [OF env sm disk i(1) this] False show ?thesis by auto
  qed
  then obtain t where t: "logTruncate env s (le_index e) = Some t" "log_disk t" "log_entries t = ?ns"
    by blast
  obtain u where u: "log_persist env t e = Some u" "log_disk u"
    "log_entries u = log_entries t @ [new_node e (log_current_size t)]"
    using log_persist_disk [OF env t(2) e] by blast
  have "Suc (nat (le_index e - 1)) = logLength s \<longleftrightarrow> le_index e = int (logLength s)"
    "nat (le_index e - 1) < logLength s" using i by auto
  moreover have "le_term (abs_log s ! nat (le_index e - 1)) \<noteq> le_term e"
    using cf i by (simp add: conflict_at_def abs_log_nth)
  ultimately have "code_write (abs_log s) e = map log_entry ?ns @ [copy_entry e]"
    by (auto simp: code_write_def Let_def abs_log_def take_map logLength_def)
  then show ?thesis
    using t(1,3) u abs_log_new [OF u(3)] by (simp add: logWriteEntry_conflict [OF sm wf cf])
qed

lemma write_append:
  assumes env: "os_ok env" and sm: "log_small s" and wf: "log_wf s" and disk: "log_disk s"
    and e: "entry_ok e" and i: "le_index e = int (logLength s) + 1"
  shows "\<exists>s'. logWriteEntry env s e = Some (s', PREZ_OK) \<and> log_disk s' \<and>
    abs_log s' = code_write (abs_log s) e"
proof -
  have sm': "small (le_index e)" "int (logLength s) < le_index e"
    using i sm by (auto simp: small_def log_small_def)
  obtain u where u: "log_persist env s e = Some u" "log_disk u"
    "log_entries u = log_entries s @ [new_node e (log_current_size s)]"
    using log_persist_disk [OF env disk e] by blast
  have "code_write (abs_log s) e = map log_entry (log_entries s) @ [copy_entry e]"
    using i by (simp add: code_write_def Let_def abs_log_def logLength_def)
  then show ?thesis
    using u abs_log_new [OF u(3)] by (simp add: logWriteEntry_append [OF sm wf sm'(2,1)])
qed

text \<open>Every write keeps file and list in step and acts on the list as \<open>code_write\<close>.\<close>

lemma logWriteEntry_refines:
  assumes env: "os_ok env" and sm: "log_small s" and wf: "log_wf s" and disk: "log_disk s"
    and e: "entry_ok e" "1 \<le> le_index e" "le_index e \<le> int (logLength s) + 1"
  shows "\<exists>s'. logWriteEntry env s e = Some (s', PREZ_OK) \<and> log_disk s' \<and>
    abs_log s' = code_write (abs_log s) e"
proof -
  consider "present_at s e" | "conflict_at s e" | "le_index e = int (logLength s) + 1"
    using e(2,3) unfolding present_at_def conflict_at_def by fastforce
  then show ?thesis
  proof cases
    case 1
    then have "code_write (abs_log s) e = abs_log s"
      by (auto simp: code_write_def Let_def present_at_def abs_log_nth)
    with 1 show ?thesis using sm wf disk by (simp add: logWriteEntry_present)
  qed (use assms write_conflict write_append in blast)+
qed

lemma code_write_raft:
  assumes "Suc (nat (le_index e - 1)) = length es \<longrightarrow> le_term (es ! nat (le_index e - 1)) = le_term e"
  shows "code_write es e = raft_write es e"
  using assms by (auto simp: code_write_def raft_write_def Let_def)

lemma raft_write_wf:
  assumes "\<forall>k < length es. le_index (es ! k) = int k + 1" "1 \<le> le_index e" "le_index e \<le> int (length es) + 1"
  shows "\<forall>k < length (raft_write es e). le_index (raft_write es e ! k) = int k + 1"
  using assms by (auto simp: raft_write_def Let_def nth_append min_def)

lemma raft_write_nth:
  assumes "1 \<le> le_index e" "le_index e \<le> int (length es) + 1"
  shows "nat (le_index e - 1) < length (raft_write es e) \<and>
    le_term (raft_write es e ! nat (le_index e - 1)) = le_term e"
  using assms by (auto simp: raft_write_def Let_def nth_append min_def)

lemma raft_write_prefix:
  assumes "k < nat (le_index e - 1)" "le_index e \<le> int (length es) + 1"
  shows "raft_write es e ! k = es ! k"
  using assms by (auto simp: raft_write_def Let_def nth_append min_def)

section \<open>A batch of entries\<close>

text \<open>The entries of an AppendEntries message carry consecutive indices after \<open>p\<close>.\<close>

fun consecutive :: "nat \<Rightarrow> logEntry list \<Rightarrow> bool" where
  "consecutive p [] = True"
| "consecutive p (e # es) = (le_index e = int p + 1 \<and> consecutive (Suc p) es)"

definition tail_agrees :: "logEntry list \<Rightarrow> logEntry list \<Rightarrow> bool" where
  "tail_agrees es ms \<longleftrightarrow>
     list_all (\<lambda>e. le_index e = int (length es) \<longrightarrow> es \<noteq> [] \<longrightarrow> le_term (last es) = le_term e) ms"

definition indexed :: "logEntry list \<Rightarrow> bool" where
  "indexed es \<longleftrightarrow> (\<forall>k < length es. le_index (es ! k) = int k + 1)"

lemma log_wf_indexed: "log_wf s \<longleftrightarrow> indexed (abs_log s)"
  by (simp add: log_wf_abs indexed_def)

lemma consecutive_gt: "consecutive p es \<Longrightarrow> e \<in> set es \<Longrightarrow> int p < le_index e"
  by (induction p es rule: consecutive.induct) auto

lemma consecutive_le: "consecutive p es \<Longrightarrow> e \<in> set es \<Longrightarrow> le_index e \<le> int p + int (length es)"
  by (induction p es rule: consecutive.induct) auto

lemma indexed_raft_write:
  "indexed es \<Longrightarrow> le_index e = int p + 1 \<Longrightarrow> p \<le> length es \<Longrightarrow> indexed (raft_write es e)"
  unfolding indexed_def by (rule raft_write_wf) auto

lemma length_raft_write:
  "le_index e = int p + 1 \<Longrightarrow> p \<le> length es \<Longrightarrow>
   Suc p \<le> length (raft_write es e) \<and> length (raft_write es e) \<le> Suc (length es)"
  by (auto simp: raft_write_def Let_def)

lemma raft_batch:
  assumes "indexed es" "consecutive p ms" "p \<le> length es"
  shows "indexed (foldl raft_write es ms) \<and> (\<forall>k < p. foldl raft_write es ms ! k = es ! k) \<and>
    p + length ms \<le> length (foldl raft_write es ms) \<and>
    (\<forall>k < length ms. le_term (foldl raft_write es ms ! (p + k)) = le_term (ms ! k))"
  using assms
proof (induction ms arbitrary: es p)
  case (Cons m ms)
  let ?r = "foldl raft_write (raft_write es m) ms"
  have i: "le_index m = int p + 1" "consecutive (Suc p) ms" using Cons.prems by auto
  have IH: "indexed ?r" "\<forall>k < Suc p. ?r ! k = raft_write es m ! k" "Suc p + length ms \<le> length ?r"
    "\<forall>k < length ms. le_term (?r ! (Suc p + k)) = le_term (ms ! k)"
    using Cons.IH [OF indexed_raft_write [OF _ i(1)] i(2)] length_raft_write [OF i(1), of es] Cons.prems
    by auto
  have "?r ! k = es ! k" if "k < p" for k
    using IH(2) that raft_write_prefix [of k m es] i(1) Cons.prems(3) by simp
  moreover have "le_term (?r ! (p + k)) = le_term ((m # ms) ! k)" if "k < length (m # ms)" for k
    using IH(2,4) that raft_write_nth [of m es] i(1) Cons.prems(3) by (cases k) auto
  ultimately show ?case using IH(1,3) by simp
qed simp

lemma tail_agrees_code:
  assumes "tail_agrees es (m # ms)" "le_index m = int p + 1" "p \<le> length es"
  shows "code_write es m = raft_write es m"
proof (rule code_write_raft, intro impI)
  assume l: "Suc (nat (le_index m - 1)) = length es"
  then have "le_index m = int (length es)" "es \<noteq> []" using assms(2) by auto
  moreover have "nat (le_index m - 1) = length es - 1" using l by simp
  ultimately show "le_term (es ! nat (le_index m - 1)) = le_term m"
    using assms(1) by (simp add: tail_agrees_def last_conv_nth')
qed

lemma tail_agrees_step:
  assumes "tail_agrees es (m # ms)" "consecutive p (m # ms)" "p \<le> length es"
  shows "tail_agrees (raft_write es m) ms"
proof (cases "raft_write es m = es")
  case True
  then show ?thesis using assms(1) by (simp add: tail_agrees_def)
next
  case False
  then have "length (raft_write es m) = Suc p"
    using assms(2,3) by (auto simp: raft_write_def Let_def split: if_splits)
  then have "le_index e \<noteq> int (length (raft_write es m))" if "e \<in> set ms" for e
    using consecutive_gt [of "Suc p" ms e] assms(2) that by auto
  then show ?thesis by (auto simp: tail_agrees_def list_all_iff)
qed

lemma logAppend_loop_refines:
  assumes "os_ok env" "int (logLength s + length ms) < 4611686018427387000" "log_wf s" "log_disk s"
    and "\<forall>e \<in> set ms. entry_ok e" "consecutive p ms" "p \<le> logLength s" "tail_agrees (abs_log s) ms"
  shows "\<exists>s'. logAppend_loop env s (length ms) ms = Some (s', PREZ_OK) \<and> log_disk s' \<and>
    abs_log s' = foldl raft_write (abs_log s) ms"
  using assms(2-)
proof (induction ms arbitrary: s p)
  case (Cons m ms)
  have m: "entry_ok m" "le_index m = int p + 1" "consecutive (Suc p) ms" using Cons.prems by auto
  have "log_small s" using Cons.prems(1) by (simp add: log_small_def)
  from logWriteEntry_refines [OF assms(1) this Cons.prems(2,3) m(1)] m(2) Cons.prems(6)
  obtain t where t: "logWriteEntry env s m = Some (t, PREZ_OK)" "log_disk t"
    "abs_log t = code_write (abs_log s) m" by auto
  have at: "abs_log t = raft_write (abs_log s) m"
    using t(3) tail_agrees_code [OF Cons.prems(7) m(2)] Cons.prems(6) by simp
  have len: "Suc p \<le> logLength t" "logLength t \<le> Suc (logLength s)"
    using length_raft_write [OF m(2), of "abs_log s"] Cons.prems(6) at
    by (simp_all flip: length_abs_log)
  have "log_wf t" using indexed_raft_write [OF _ m(2), of "abs_log s"] Cons.prems(2,6) at
    by (simp add: log_wf_indexed)
  moreover have "tail_agrees (abs_log t) ms"
    using tail_agrees_step [OF Cons.prems(7,5)] Cons.prems(6) at by simp
  ultimately obtain u where "logAppend_loop env t (length ms) ms = Some (u, PREZ_OK)" "log_disk u"
    "abs_log u = foldl raft_write (abs_log t) ms"
    using Cons.IH [of t "Suc p"] t(2) m(3) len Cons.prems(1,4) by auto
  with t(1) at show ?case by simp
qed auto

section \<open>Reading the file back\<close>

lemma fmt_len_eq:
  assumes "int n \<le> LLONG_MAX"
  shows "fmt_len c n = c # show_nat n @ CRLF"
proof -
  have "is_ll (int n)" using assms by (simp add: is_ll_def)
  from ll2string_32 [OF this, of 31] show ?thesis by (simp add: fmt_len_def show_int_def)
qed

lemma length_show_nat_ll: "int n \<le> LLONG_MAX \<Longrightarrow> length (show_nat n) < 31"
  using length_show_int_ll [of "int n"] by (simp add: show_int_def is_ll_def)

lemma fgets_len_line: "LF \<notin> set l \<Longrightarrow> length l < n \<Longrightarrow> fgets_len n (l @ LF # r) = Suc (length l)"
  by (induction n "l @ LF # r" arbitrary: l rule: fgets_len.induct)
    (auto simp: neq_Nil_conv Cons_eq_append_conv)

lemma fgets_line:
  assumes "LF \<notin> set l" "length l < 127"
  shows "fgets 128 (l @ LF # r) = Some (l @ [LF], r)"
  using fgets_len_line [OF assms, of r] by (cases l) (simp_all add: fgets_def Let_def)

text \<open>A length line as the loader reads it.\<close>

lemma fgets_fmt_len:
  assumes "int n \<le> LLONG_MAX" "c \<noteq> LF"
  shows "fgets 128 (fmt_len c n @ r) = Some (c # show_nat n @ CRLF, r)"
proof -
  have "LF \<notin> set (show_nat n)" using show_nat_digits [of LF n] by (auto simp: is_digit_def)
  then have "LF \<notin> set (c # show_nat n @ [CR])" using assms(2) by auto
  from fgets_line [OF this, of r] show ?thesis
    using length_show_nat_ll [OF assms(1)] assms(1) by (simp add: fmt_len_eq)
qed

lemma cstr_fmt_len: "c \<noteq> NUL \<Longrightarrow> cstr (c # show_nat n @ CRLF) = c # show_nat n @ CRLF"
  using show_nat_digits [of NUL n] by (intro cstr_id) (auto simp: is_digit_def)

lemma strtoll10_fmt_len: "int n \<le> LLONG_MAX \<Longrightarrow> strtoll10 (show_nat n @ CRLF) = int n"
  by (simp add: strtoll10_show_nat_append is_digit_def)

lemma length_fmt_len: "int n \<le> LLONG_MAX \<Longrightarrow> length (fmt_len c n) = Suc (length (show_nat n)) + 2"
  by (simp add: fmt_len_eq)

text \<open>What the argument loop stores for argument \<open>j\<close>.\<close>

definition set_arg :: "(nat \<Rightarrow> char) \<Rightarrow> nat \<Rightarrow> logEntry \<Rightarrow> string \<Rightarrow> logEntry option" where
  "set_arg junk j e a =
     (if j = 0 then map_option (\<lambda>i. e\<lparr>le_index := i\<rparr>) (string2ll a)
      else if j = 1 then map_option (\<lambda>i. e\<lparr>le_term := i\<rparr>) (string2ll a)
      else if j = 2 then Some (e\<lparr>le_commandName := memcpy40 junk a\<rparr>)
      else if j = 3 then Some (e\<lparr>le_command := memcpy40 junk a\<rparr>)
      else None)"

definition enc_arg :: "string \<Rightarrow> string" where
  "enc_arg a = fmt_len CHR ''$'' (length a) @ a @ CRLF"

lemma load_args_arg:
  assumes "int (length a) \<le> LLONG_MAX"
  shows "load_args junk j (Suc n) e k (enc_arg a @ r) =
    (case set_arg junk j e a of None \<Rightarrow> Inl (Exit 1)
     | Some e' \<Rightarrow> load_args junk (Suc j) n e' (k + length (enc_arg a)) r)"
proof -
  note f = fgets_fmt_len [OF assms, of "CHR ''$''" "a @ CRLF @ r"] cstr_fmt_len [of "CHR ''$''" "length a"]
    strtoll10_fmt_len [OF assms] length_fmt_len [OF assms, of "CHR ''$''"]
  show ?thesis using f
    by (simp add: enc_arg_def Let_def set_arg_def strlen_def ac_simps split: option.split)
qed

lemma enc_entry_args:
  "enc_entry e = fmt_len CHR ''*'' 4 @ enc_arg (show_int (le_index e)) @ enc_arg (show_int (le_term e)) @
     enc_arg (cstr (le_commandName e)) @ enc_arg (cstr (le_command e))"
  by (simp add: enc_entry_def catLogEntry_def enc_arg_def numeral_eq_Suc)

text \<open>The entry that the loader builds: both arrays filled up with heap bytes.\<close>

definition loaded :: "(nat \<Rightarrow> char) \<Rightarrow> logEntry \<Rightarrow> logEntry \<Rightarrow> logEntry" where
  "loaded junk uninit e = uninit\<lparr>le_index := le_index e, le_term := le_term e,
     le_commandName := memcpy40 junk (cstr (le_commandName e)),
     le_command := memcpy40 junk (cstr (le_command e))\<rparr>"

lemma length_ll_arg: "is_ll v \<Longrightarrow> int (length (show_int v)) \<le> LLONG_MAX"
  using length_show_int_ll [of v] by simp

lemma load_args_entry:
  assumes "entry_ok e"
  shows "load_args junk 0 4 u k (enc_arg (show_int (le_index e)) @ enc_arg (show_int (le_term e)) @
     enc_arg (cstr (le_commandName e)) @ enc_arg (cstr (le_command e)) @ r) =
    Inr (loaded junk u e, k + (length (enc_entry e) - length (fmt_len CHR ''*'' 4)), r)"
proof -
  have e: "is_ll (le_index e)" "is_ll (le_term e)" "int (length (cstr (le_commandName e))) \<le> LLONG_MAX"
    "int (length (cstr (le_command e))) \<le> LLONG_MAX"
    using assms by (auto simp: entry_ok_def terminated_def strlen_def PREZ_COMMAND_LEN_def PREZ_COMMAND_NAMELEN_def)
  have s: "string2ll (show_int v) = Some v" if "is_ll v" for v using that by (simp add: string2ll_iff)
  have four: "4 = Suc (Suc (Suc (Suc 0)))" by simp
  have "load_args junk 0 (Suc (Suc (Suc (Suc 0)))) u k (enc_arg (show_int (le_index e)) @
     enc_arg (show_int (le_term e)) @ enc_arg (cstr (le_commandName e)) @ enc_arg (cstr (le_command e)) @ r) =
    Inr (loaded junk u e, k + (length (enc_entry e) - length (fmt_len CHR ''*'' 4)), r)"
    by (simp add: load_args_arg [OF length_ll_arg [OF e(1)]] load_args_arg [OF length_ll_arg [OF e(2)]]
        load_args_arg [OF e(3)] load_args_arg [OF e(4)] set_arg_def s e(1,2) loaded_def enc_entry_args
        add.assoc del: load_args.simps(2))
  then show ?thesis by (simp only: four)
qed

lemma load_entries_entry:
  assumes "entry_ok e"
  shows "load_entries junk u es k (enc_entry e @ r) =
    load_entries junk u (es @ [\<lparr>log_entry = loaded junk u e, position = k\<rparr>]) (k + length (enc_entry e)) r"
proof -
  have l: "int 4 \<le> LLONG_MAX" by simp
  have "enc_entry e @ r = fmt_len CHR ''*'' 4 @ enc_arg (show_int (le_index e)) @
     enc_arg (show_int (le_term e)) @ enc_arg (cstr (le_commandName e)) @ enc_arg (cstr (le_command e)) @ r"
    by (simp add: enc_entry_args)
  then have f: "fgets 128 (enc_entry e @ r) = Some (CHR ''*'' # show_nat 4 @ CRLF,
     enc_arg (show_int (le_index e)) @ enc_arg (show_int (le_term e)) @
     enc_arg (cstr (le_commandName e)) @ enc_arg (cstr (le_command e)) @ r)"
    using fgets_fmt_len [OF l, of "CHR ''*''"] by simp
  have a: "c_atoi (show_nat 4 @ CRLF) = 4"
    using strtoll10_fmt_len [OF l] by (simp add: c_atoi_def c_int32_def)
  have len: "length (fmt_len CHR ''*'' 4) = length (CHR ''*'' # show_nat 4 @ CRLF)"
    using l by (simp add: fmt_len_eq)
  show ?thesis
    using f a cstr_fmt_len [of "CHR ''*''" 4] len load_args_entry [OF assms, of junk u _ r]
    by (subst load_entries.simps) (simp add: strlen_def Let_def enc_entry_args)
qed

lemma load_entries_log:
  assumes "\<forall>n \<in> set ns. entry_ok (log_entry n)" "offsets_ok k ns"
  shows "load_entries junk u es k (enc_log ns) =
    Inr (es @ map (\<lambda>n. n\<lparr>log_entry := loaded junk u (log_entry n)\<rparr>) ns, k + length (enc_log ns))"
  using assms
proof (induction ns arbitrary: es k)
  case Nil
  then show ?case by (subst load_entries.simps) (simp add: fgets_def)
next
  case (Cons n ns)
  have "\<lparr>log_entry = loaded junk u (log_entry n), position = k\<rparr> = n\<lparr>log_entry := loaded junk u (log_entry n)\<rparr>"
    using Cons.prems(2) by (cases n) auto
  with Cons show ?case by (simp add: load_entries_entry add.assoc)
qed

section \<open>Properties\<close>

text \<open>What the rest of the program reads of an entry: both arrays as C strings.\<close>

definition entry_view :: "logEntry \<Rightarrow> int \<times> int \<times> string \<times> string" where
  "entry_view e = (le_index e, le_term e, cstr (le_commandName e), cstr (le_command e))"

lemma cstr_memcpy40:
  assumes "length (cstr a) < 40"
  shows "cstr (memcpy40 junk (cstr a)) = cstr a"
proof -
  let ?n = "length (cstr a)"
  let ?g = "\<lambda>i. if i < ?n then cstr a ! i else if i = ?n then NUL else junk i"
  have "[0..<40] = [0..<?n] @ [?n..<40]" using upt_add_eq_append [of 0 ?n "40 - ?n"] assms by simp
  moreover have "[?n..<40] = ?n # [Suc ?n..<40]" using assms by (simp add: upt_conv_Cons)
  moreover have "map ?g [0..<?n] = cstr a" by (rule nth_equalityI) auto
  ultimately have "memcpy40 junk (cstr a) = cstr a @ NUL # map ?g [Suc ?n..<40]"
    by (simp add: memcpy40_def)
  then show ?thesis by (simp add: cstr_append_nul)
qed

lemma entry_view_loaded: "entry_ok e \<Longrightarrow> entry_view (loaded junk u e) = entry_view e"
  by (simp add: entry_view_def loaded_def cstr_memcpy40 entry_ok_def terminated_def strlen_def
      PREZ_COMMAND_LEN_def PREZ_COMMAND_NAMELEN_def)

lemma entry_ok_loaded: "entry_ok e \<Longrightarrow> entry_ok (loaded junk u e) \<and> enc_entry (loaded junk u e) = enc_entry e"
  by (simp add: loaded_def cstr_memcpy40 entry_ok_def terminated_def strlen_def enc_entry_def
      PREZ_COMMAND_LEN_def PREZ_COMMAND_NAMELEN_def)

lemma enc_log_loaded:
  "\<forall>n \<in> set ns. entry_ok (log_entry n) \<Longrightarrow>
   enc_log (map (\<lambda>n. n\<lparr>log_entry := loaded junk u (log_entry n)\<rparr>) ns) = enc_log ns \<and>
   offsets_ok p (map (\<lambda>n. n\<lparr>log_entry := loaded junk u (log_entry n)\<rparr>) ns) = offsets_ok p ns"
  by (induction ns arbitrary: p) (auto simp: entry_ok_loaded)

text \<open>
  C7: Recovery.  Starting on the file of a log whose file and list agree, whatever the heap
  contains, the loader accepts the file and rebuilds a list with the same indices, terms, command
  names, commands and file offsets, the same recorded size, and file and list agree again.
\<close>

theorem loadLogFile_recovers:
  fixes s s0 :: logState
  assumes "log_disk s" "log_entries s0 = []" "log_file s0 = log_file s"
  shows "\<exists>s'. loadLogFile junk uninit s0 = Inr s' \<and>
    map entry_view (abs_log s') = map entry_view (abs_log s) \<and>
    map position (log_entries s') = map position (log_entries s) \<and>
    log_current_size s' = log_current_size s \<and> log_disk s'"
proof (cases "log_file s = []")
  case True
  have "enc_entry e \<noteq> []" for e by (simp add: enc_entry_args fmt_len_eq)
  then have "log_entries s = []"
    using assms(1) True by (cases "log_entries s") (auto simp: log_disk_def)
  then show ?thesis using assms True by (simp add: loadLogFile_def abs_log_def log_disk_def)
next
  case False
  have ok: "\<forall>n \<in> set (log_entries s). entry_ok (log_entry n)" "offsets_ok 0 (log_entries s)"
    "log_file s = enc_log (log_entries s)" "log_current_size s = length (log_file s)"
    using assms(1) by (auto simp: log_disk_def)
  let ?ns = "map (\<lambda>n. n\<lparr>log_entry := loaded junk uninit (log_entry n)\<rparr>) (log_entries s)"
  have "loadLogFile junk uninit s0 =
    Inr (s0\<lparr>log_entries := ?ns, log_current_size := length (enc_log (log_entries s))\<rparr>)"
    using False assms(2,3) ok load_entries_log [OF ok(1,2), of junk uninit "[]"]
    by (simp add: loadLogFile_def)
  then show ?thesis
    using ok assms(3) enc_log_loaded [OF ok(1), of junk uninit 0]
    by (auto simp: abs_log_def entry_view_loaded log_disk_def entry_ok_loaded o_def)
qed

text \<open>Concrete logs for the examples: a list of entries and the file that goes with it.\<close>

fun mk_nodes :: "nat \<Rightarrow> logEntry list \<Rightarrow> logEntryNode list" where
  "mk_nodes p [] = []"
| "mk_nodes p (e # es) = new_node e p # mk_nodes (p + length (enc_entry e)) es"

definition mk_log :: "logEntry list \<Rightarrow> logState" where
  "mk_log es = \<lparr>log_entries = mk_nodes 0 es, log_file = enc_log (mk_nodes 0 es),
     log_current_size = length (enc_log (mk_nodes 0 es)), commit_index = 0, last_applied = 0\<rparr>"

definition os_ideal :: osenv where
  "os_ideal = \<lparr>os_write = (\<lambda>f b. int (length b)), os_fsync = (\<lambda>f. 0), os_ftruncate = (\<lambda>f p. 0)\<rparr>"

definition set_entry :: "int \<Rightarrow> int \<Rightarrow> logEntry" where
  "set_entry i t = \<lparr>le_index = i, le_term = t, le_commandName = char_array 40 ''set'',
     le_command = char_array 40 ''set a 1''\<rparr>"

lemma os_ok_ideal [simp]: "os_ok os_ideal"
  by (simp add: os_ok_def os_ideal_def)

lemma set_entry_simps [simp]:
  "is_ll i \<Longrightarrow> is_ll t \<Longrightarrow> entry_ok (set_entry i t)" "copy_entry (set_entry i t) = set_entry i t"
  "le_index (set_entry i t) = i" "le_term (set_entry i t) = t"
  "entry_view (set_entry i t) = (i, t, ''set'', ''set a 1'')"
  by (simp_all add: entry_ok_def set_entry_def terminated_def strlen_def cstr_char_array copy_entry_def
      entry_view_def PREZ_COMMAND_LEN_def PREZ_COMMAND_NAMELEN_def)

lemma mk_nodes_ok: "offsets_ok p (mk_nodes p es)" "map log_entry (mk_nodes p es) = map copy_entry es"
  by (induction es arbitrary: p) (auto simp: new_node_def)

lemma abs_mk_log [simp]: "abs_log (mk_log es) = map copy_entry es"
  by (simp add: abs_log_def mk_log_def mk_nodes_ok)

lemma length_mk_log [simp]: "logLength (mk_log es) = length es"
  using abs_mk_log [of es] length_abs_log [of "mk_log es"] by simp

lemma mk_nodes_entry_ok: "\<forall>e \<in> set es. entry_ok e \<Longrightarrow> \<forall>n \<in> set (mk_nodes p es). entry_ok (log_entry n)"
  by (induction es arbitrary: p) (auto simp: new_node_def)

lemma mk_log_disk [simp]: "\<forall>e \<in> set es. entry_ok e \<Longrightarrow> log_disk (mk_log es)"
  using mk_nodes_entry_ok [of es 0] by (simp add: log_disk_def mk_log_def mk_nodes_ok)

theorem loadLogFile_recovers_witness:
  "\<exists>s'. loadLogFile (\<lambda>_. CHR ''x'') (set_entry 0 0)
          ((mk_log [])\<lparr>log_file := log_file (mk_log [set_entry 1 1, set_entry 2 3])\<rparr>) = Inr s' \<and>
    map entry_view (abs_log s') = [(1, 1, ''set'', ''set a 1''), (2, 3, ''set'', ''set a 1'')] \<and>
    log_disk s'"
proof -
  let ?s = "mk_log [set_entry 1 1, set_entry 2 3]"
  let ?fresh = "(mk_log [])\<lparr>log_file := log_file ?s\<rparr>"
  have h: "log_disk ?s" "log_entries ?fresh = []" "log_file ?fresh = log_file ?s"
    by (simp_all add: is_ll_def) (simp add: mk_log_def)
  show ?thesis using loadLogFile_recovers [OF h, of "\<lambda>_. CHR ''x''" "set_entry 0 0"] by auto
qed

text \<open>
  C4: AppendEntries on the follower.  Entries with consecutive indices that follow the log
  without a gap are all accepted: afterwards the entry at each of their indices has the term of
  the message, the entries before the batch are untouched, every entry still sits at its own
  index, and the file agrees with the list, so that a restart recovers it.  The batch must agree
  with the log's last entry where it reaches it.
\<close>

theorem logAppendEntries_correct:
  fixes s :: logState
  assumes env: "os_ok env" and wf: "log_wf s" "log_disk s"
    and sz: "int (logLength s + length (ae_log_entries m)) < 4611686018427387000"
    and cnt: "ae_log_entries_count m = length (ae_log_entries m)"
    and ok: "list_all entry_ok (ae_log_entries m)"
    and con: "consecutive p (ae_log_entries m)" "p \<le> logLength s"
    and tail: "tail_agrees (abs_log s) (ae_log_entries m)"
  shows "\<exists>s'. logAppendEntries env s m = Some (s', PREZ_OK) \<and> log_wf s' \<and> log_disk s' \<and>
    take p (abs_log s') = take p (abs_log s) \<and>
    map le_term (take (length (ae_log_entries m)) (drop p (abs_log s'))) = map le_term (ae_log_entries m)"
proof -
  have "\<forall>e \<in> set (ae_log_entries m). entry_ok e" using ok by (simp add: list_all_iff)
  from logAppend_loop_refines [OF env sz wf this con tail] obtain t where
    t: "logAppend_loop env s (length (ae_log_entries m)) (ae_log_entries m) = Some (t, PREZ_OK)"
      "log_disk t" "abs_log t = foldl raft_write (abs_log s) (ae_log_entries m)" by blast
  have "p \<le> length (abs_log s)" using con(2) by simp
  note b = raft_batch [OF _ con(1) this, folded t(3)]
  have "log_wf t" using b wf(1) by (simp add: log_wf_indexed)
  moreover have "take p (abs_log t) = take p (abs_log s)"
    using b wf(1) con(2) by (intro nth_equalityI) (auto simp: log_wf_indexed)
  moreover have "map le_term (take (length (ae_log_entries m)) (drop p (abs_log t))) =
      map le_term (ae_log_entries m)"
    using b wf(1) by (intro nth_equalityI) (auto simp: log_wf_indexed)
  ultimately show ?thesis
    using t(1,2) cnt env by (simp add: logAppendEntries_def os_ok_def)
qed

definition mk_append :: "int \<Rightarrow> int \<Rightarrow> logEntry list \<Rightarrow> clusterMsgDataAppendEntries" where
  "mk_append p t es = \<lparr>ae_term = t, ae_leaderid = ''L'', ae_prev_log_index = p, ae_prev_log_term = t,
     ae_leader_commit_index = 0, ae_log_entries_count = length es, ae_log_entries = es\<rparr>"

lemma mk_log_wf: "log_wf (mk_log es) \<longleftrightarrow> indexed es"
  by (simp add: log_wf_indexed indexed_def)

theorem logAppendEntries_correct_witness:
  "\<exists>s'. logAppendEntries os_ideal (mk_log [set_entry 1 1, set_entry 2 1, set_entry 3 1])
      (mk_append 1 1 [set_entry 2 2, set_entry 3 1]) = Some (s', PREZ_OK) \<and> log_wf s' \<and>
      map le_term (take 2 (drop 1 (abs_log s'))) = [2, 1]"
proof -
  have "indexed [set_entry 1 1, set_entry 2 1, set_entry 3 1]"
    by (auto simp: indexed_def less_Suc_eq)
  then show ?thesis
    using logAppendEntries_correct [OF os_ok_ideal, of "mk_log [set_entry 1 1, set_entry 2 1, set_entry 3 1]"
      "mk_append 1 1 [set_entry 2 2, set_entry 3 1]" 1]
    by (auto simp: mk_log_wf mk_append_def tail_agrees_def is_ll_def numeral_2_eq_2)
qed


text \<open>
  C9: Redelivery.  A message whose entries are all in the log already leaves memory and file
  untouched, whatever the operating system answers to the writes it does not make.
\<close>

theorem logAppend_duplicate:
  fixes s :: logState
  assumes "log_small s" "log_wf s" "list_all (present_at s) (ae_log_entries m)"
    and "ae_log_entries_count m = length (ae_log_entries m)"
  shows "logAppendEntries env s m =
    Some (s, if os_fsync env (log_file s) = -1 then PREZ_ERR else PREZ_OK)"
proof -
  have "logAppend_loop env s (length ms) ms = Some (s, PREZ_OK)" if "list_all (present_at s) ms" for ms
    using that logWriteEntry_present [OF assms(1,2)] by (induction ms) auto
  then show ?thesis using assms(3,4) by (simp add: logAppendEntries_def)
qed

theorem logAppend_duplicate_witness:
  "logAppendEntries os_ideal (mk_log [set_entry 1 1, set_entry 2 4]) (mk_append 1 1 [set_entry 2 4]) =
     Some (mk_log [set_entry 1 1, set_entry 2 4], PREZ_OK)"
proof -
  let ?s = "mk_log [set_entry 1 1, set_entry 2 4]"
  have "log_wf ?s" by (auto simp: mk_log_wf indexed_def less_Suc_eq)
  moreover have "present_at ?s (set_entry 2 4)"
    using abs_log_nth [of 1 ?s] by (simp add: present_at_def)
  ultimately show ?thesis
    using logAppend_duplicate [of ?s "mk_append 1 1 [set_entry 2 4]" os_ideal]
    by (simp add: log_small_def mk_append_def) (simp add: os_ideal_def)
qed

text \<open>
  C10: The consistency check of AppendEntries accepts exactly the previous-entry positions that
  exist in the log with the same term, and the position 0; it never dereferences a missing entry.
\<close>

theorem logVerifyAppend_exact:
  fixes s :: logState
  assumes "log_small s" "is_ll i"
  shows "(logVerifyAppend s i t = Some PREZ_OK \<longleftrightarrow>
      i = 0 \<or> (1 \<le> i \<and> i \<le> int (logLength s) \<and> le_term (abs_log s ! nat (i - 1)) = t)) \<and>
    (logVerifyAppend s i t = Some PREZ_OK \<or> logVerifyAppend s i t = Some PREZ_ERR)"
  using assms by (auto simp: logVerifyAppend_eq abs_log_nth)

theorem logVerifyAppend_exact_witness:
  "logVerifyAppend (mk_log [set_entry 1 1, set_entry 2 4]) 2 4 = Some PREZ_OK \<and>
   logVerifyAppend (mk_log [set_entry 1 1, set_entry 2 4]) 2 3 = Some PREZ_ERR \<and>
   logVerifyAppend (mk_log [set_entry 1 1, set_entry 2 4]) 3 4 = Some PREZ_ERR"
  using logVerifyAppend_exact [of "mk_log [set_entry 1 1, set_entry 2 4]" 2 4]
    logVerifyAppend_exact [of "mk_log [set_entry 1 1, set_entry 2 4]" 2 3]
    logVerifyAppend_exact [of "mk_log [set_entry 1 1, set_entry 2 4]" 3 4]
  by (auto simp: log_small_def is_ll_def)



section \<open>The list of entries on the linked list\<close>

text \<open>
  The loop of \<open>logTruncate\<close> on the heap of the linked list: \<open>listNext\<close> reads the successor of
  the current node before \<open>listDelNode\<close> frees it.
\<close>

partial_function (option) truncate_loop ::
  "'v heap \<Rightarrow> 'v dlist \<Rightarrow> listIter \<Rightarrow> ('v heap \<times> 'v dlist) option" where
  "truncate_loop h l li =
     do { (ln, li) \<leftarrow> listNext h li;
          case ln of
            None \<Rightarrow> Some (h, l)
          | Some p \<Rightarrow> do { (h, l) \<leftarrow> listDelNode h l p; truncate_loop h l li } }"

lemma truncate_loop_rep:
  assumes "lrep h l (xs @ ys)"
  shows "\<exists>h' l'. truncate_loop h l \<lparr>li_next = first_of None ys, li_dir = AL_START_HEAD\<rparr> = Some (h', l') \<and>
    lrep h' l' xs"
  using assms
proof (induction ys arbitrary: h l)
  case Nil
  then show ?case by (subst truncate_loop.simps) (simp add: listNext_def)
next
  case (Cons y ys)
  obtain p v where y: "y = (p, v)" by (cases y)
  have "cells h p = Some \<lparr>ln_prev = last_of None xs, ln_next = first_of None ys, ln_value = v\<rparr>"
    using Cons.prems y by (simp add: lrep_def)
  then have nx: "listNext h \<lparr>li_next = Some p, li_dir = AL_START_HEAD\<rparr> =
      Some (Some p, \<lparr>li_next = first_of None ys, li_dir = AL_START_HEAD\<rparr>)"
    by (simp add: listNext_def)
  obtain h1 l1 where d: "listDelNode h l p = Some (h1, l1)" "lrep h1 l1 (xs @ ys)"
    using listDelNode_rep [of h l xs p v ys] Cons.prems y by auto
  from Cons.IH [OF d(2)] show ?case
    using nx d(1) y by (subst truncate_loop.simps) simp
qed

text \<open>
  C8: Truncation on the pointers.  For an index inside the log the loop of \<open>logTruncate\<close>,
  started at the node that \<open>getLogNode\<close> finds, ends, frees exactly the nodes from that index on
  and leaves a well-linked list with the entries before it, the list of the abstract truncation.
\<close>

theorem logTruncate_on_list:
  fixes s :: logState
  assumes rep: "lrep h l nodes" "map snd nodes = log_entries s"
    and sm: "log_small s" and i: "1 \<le> i" "i < int (logLength s)"
  shows "\<exists>p h' l' s'. listIndex h l (ll (i - 1 - int (l_len l))) = Some (Some p) \<and>
    truncate_loop h l \<lparr>li_next = Some p, li_dir = AL_START_HEAD\<rparr> = Some (h', l') \<and>
    lrep h' l' (take (nat (i - 1)) nodes) \<and>
    logTruncate env s i = Some s' \<and> log_entries s' = map snd (take (nat (i - 1)) nodes)"
proof -
  have len: "length nodes = logLength s" using rep(2) by (metis length_map logLength_def)
  have "small i" using i sm by (simp add: small_def log_small_def)
  then have idx: "ll (i - 1 - int (l_len l)) = i - 1 - int (logLength s)"
    using small_sub_ll [OF _ sm] rep(1) len by (simp add: lrep_def)
  let ?k = "nat (i - 1)"
  have k: "?k < length nodes" using i len by simp
  have "list_index nodes (i - 1 - int (logLength s)) = Some (nodes ! ?k)"
    using i len by (simp add: list_index_def)
  moreover have "is_ll (i - 1 - int (logLength s))" using i sm by (simp add: is_ll_def log_small_def)
  ultimately have at: "listIndex h l (ll (i - 1 - int (l_len l))) = Some (Some (fst (nodes ! ?k)))"
    using listIndex_rep [OF rep(1)] idx by simp
  have "first_of None (drop ?k nodes) = Some (fst (nodes ! ?k))"
    using k by (simp add: Cons_nth_drop_Suc [symmetric] first_of_def split_beta)
  then have "\<exists>h' l'. truncate_loop h l \<lparr>li_next = Some (fst (nodes ! ?k)), li_dir = AL_START_HEAD\<rparr> =
      Some (h', l') \<and> lrep h' l' (take ?k nodes)"
    using truncate_loop_rep [of h l "take ?k nodes" "drop ?k nodes"] rep(1) by simp
  moreover have "\<exists>s'. logTruncate env s i = Some s' \<and> log_entries s' = map snd (take ?k nodes)"
    using logTruncate_eq [OF sm i, of env] rep(2) by (simp add: Let_def flip: take_map)
  ultimately show ?thesis using at by blast
qed

theorem logTruncate_on_list_witness:
  "\<exists>h l nodes p h' l'. lrep h l nodes \<and> map snd nodes = log_entries (mk_log [set_entry 1 1, set_entry 2 1]) \<and>
     listIndex h l (-2) = Some (Some p) \<and>
     truncate_loop h l \<lparr>li_next = Some p, li_dir = AL_START_HEAD\<rparr> = Some (h', l') \<and> lrep h' l' []"
proof -
  let ?s = "mk_log [set_entry 1 1, set_entry 2 1]"
  have "length (log_entries ?s) \<le> 3" by (simp flip: logLength_def)
  then obtain st nodes where st: "lrep (fst st) (snd st) nodes" "map snd nodes = log_entries ?s"
    using build_list [of "log_entries ?s" 3] by auto
  then have "length nodes = 2" by (metis length_map logLength_def length_mk_log length_Cons list.size(3) numeral_2_eq_2)
  then have "l_len (snd st) = 2" using st(1) by (simp add: lrep_def)
  moreover have "ll (-2) = -2" by (rule ll_id) (simp add: is_ll_def)
  ultimately have "\<exists>p h' l'. listIndex (fst st) (snd st) (-2) = Some (Some p) \<and>
     truncate_loop (fst st) (snd st) \<lparr>li_next = Some p, li_dir = AL_START_HEAD\<rparr> = Some (h', l') \<and> lrep h' l' []"
    using logTruncate_on_list [OF st, of 1 os_ideal] by (auto simp: log_small_def)
  with st show ?thesis by blast
qed

end
