(* ===== verification/Prez_Sds.thy ===== *)
theory Prez_Sds
  imports Prez_Util
begin

text \<open>
  The dynamic strings of src/src/sds.c.  A string is its header - length and free space, both
  32-bit \<open>int\<close>s - and the bytes of its allocation.  \<open>None\<close> is an access outside the allocation
  or a failed assertion.  Allocation itself does not fail: zmalloc.c aborts the process when
  memory is exhausted.  Bytes that an allocation leaves unset come from the parameter \<open>g\<close>.
  The abstraction of a string is the list of its bytes; every operation is shown to act on it as
  the corresponding list operation, to stay inside the allocation and to keep the null byte.
  \<open>sdssplitargs\<close>, \<open>sdscatrepr\<close> and \<open>sdssplitlen\<close>, which only append to strings, are modelled on
  byte lists.
\<close>

section \<open>Memory\<close>

record sdshdr =
  sh_len :: int
  sh_free :: int
  sh_buf :: string

definition mem_write :: "string \<Rightarrow> nat \<Rightarrow> string \<Rightarrow> string option" where
  "mem_write b off d =
     (if off + length d \<le> length b then Some (take off b @ d @ drop (off + length d) b) else None)"

definition mem_read :: "string \<Rightarrow> nat \<Rightarrow> nat \<Rightarrow> string option" where
  "mem_read b off n = (if off + n \<le> length b then Some (take n (drop off b)) else None)"

definition zrealloc_bytes :: "(nat \<Rightarrow> char) \<Rightarrow> nat \<Rightarrow> string \<Rightarrow> string" where
  "zrealloc_bytes g n b = take n b @ map g [length b..<n]"

section \<open>Operations\<close>

definition SDS_MAX_PREALLOC :: nat where "SDS_MAX_PREALLOC = 1048576"

definition sdslen :: "sdshdr \<Rightarrow> nat" where "sdslen s = ull (sh_len s)"
definition sdsavail :: "sdshdr \<Rightarrow> nat" where "sdsavail s = ull (sh_free s)"

text \<open>A NULL \<open>init\<close> (\<open>None\<close>) gives zero bytes.\<close>

definition sdsnewlen :: "string option \<Rightarrow> nat \<Rightarrow> sdshdr option" where
  "sdsnewlen init initlen =
     do { d \<leftarrow> (case init of None \<Rightarrow> Some (replicate initlen NUL) | Some t \<Rightarrow> mem_read t 0 initlen);
          Some \<lparr>sh_len = c_int32 (int initlen), sh_free = 0, sh_buf = d @ [NUL]\<rparr> }"

definition sdsempty :: "sdshdr option" where "sdsempty = sdsnewlen (Some []) 0"

definition sdsnew :: "string option \<Rightarrow> sdshdr option" where
  "sdsnew init = sdsnewlen init (case init of None \<Rightarrow> 0 | Some t \<Rightarrow> strlen t)"

definition sdsdup :: "sdshdr \<Rightarrow> sdshdr option" where
  "sdsdup s = sdsnewlen (Some (sh_buf s)) (sdslen s)"

definition sdsupdatelen :: "sdshdr \<Rightarrow> sdshdr" where
  "sdsupdatelen s =
     (let reallen = c_int32 (int (strlen (sh_buf s))) in
      s\<lparr>sh_free := c_int32 (sh_free s + (sh_len s - reallen)), sh_len := reallen\<rparr>)"

definition sdsclear :: "sdshdr \<Rightarrow> sdshdr option" where
  "sdsclear s =
     do { b \<leftarrow> mem_write (sh_buf s) 0 [NUL];
          Some \<lparr>sh_len = 0, sh_free = c_int32 (sh_free s + sh_len s), sh_buf = b\<rparr> }"

definition sdsMakeRoomFor :: "(nat \<Rightarrow> char) \<Rightarrow> sdshdr \<Rightarrow> nat \<Rightarrow> sdshdr" where
  "sdsMakeRoomFor g s addlen =
     (if sdsavail s \<ge> addlen then s
      else
        let len = sdslen s;
            newlen = len + addlen;
            newlen = (if newlen < SDS_MAX_PREALLOC then newlen * 2 else newlen + SDS_MAX_PREALLOC)
        in s\<lparr>sh_buf := zrealloc_bytes g (newlen + 1) (sh_buf s), sh_free := c_int32 (int newlen - int len)\<rparr>)"

definition sdsRemoveFreeSpace :: "(nat \<Rightarrow> char) \<Rightarrow> sdshdr \<Rightarrow> sdshdr" where
  "sdsRemoveFreeSpace g s = s\<lparr>sh_buf := zrealloc_bytes g (sdslen s + 1) (sh_buf s), sh_free := 0\<rparr>"

definition sdsAllocSize :: "sdshdr \<Rightarrow> nat" where
  "sdsAllocSize s = ull (8 + sh_len s + sh_free s + 1)"

text \<open>A negative increment may not reach below the start of the string.\<close>

definition sdsIncrLen :: "sdshdr \<Rightarrow> int \<Rightarrow> sdshdr option" where
  "sdsIncrLen s incr =
     (if sh_free s \<ge> incr then
        let len = c_int32 (sh_len s + incr); fr = c_int32 (sh_free s - incr) in
        if fr \<ge> 0 \<and> len \<ge> 0 then
          do { b \<leftarrow> mem_write (sh_buf s) (nat len) [NUL]; Some \<lparr>sh_len = len, sh_free = fr, sh_buf = b\<rparr> }
        else None
      else None)"

definition sdsgrowzero :: "(nat \<Rightarrow> char) \<Rightarrow> sdshdr \<Rightarrow> nat \<Rightarrow> sdshdr option" where
  "sdsgrowzero g s len =
     (let curlen = sdslen s in
      if len \<le> curlen then Some s
      else
        let s = sdsMakeRoomFor g s (len - curlen) in
        do { b \<leftarrow> mem_write (sh_buf s) curlen (replicate (len - curlen + 1) NUL);
             let totlen = sh_len s + sh_free s;
             Some \<lparr>sh_len = c_int32 (int len), sh_free = c_int32 (totlen - c_int32 (int len)), sh_buf = b\<rparr> })"

definition sdscatlen :: "(nat \<Rightarrow> char) \<Rightarrow> sdshdr \<Rightarrow> string \<Rightarrow> sdshdr option" where
  "sdscatlen g s t =
     (let curlen = sdslen s;
          s = sdsMakeRoomFor g s (length t) in
      do { b \<leftarrow> mem_write (sh_buf s) curlen t;
           b \<leftarrow> mem_write b (curlen + length t) [NUL];
           Some \<lparr>sh_len = c_int32 (int (curlen + length t)),
                 sh_free = c_int32 (sh_free s - int (length t)), sh_buf = b\<rparr> })"

definition sdscat :: "(nat \<Rightarrow> char) \<Rightarrow> sdshdr \<Rightarrow> string \<Rightarrow> sdshdr option" where
  "sdscat g s t = sdscatlen g s (cstr t)"

definition sdscatsds :: "(nat \<Rightarrow> char) \<Rightarrow> sdshdr \<Rightarrow> sdshdr \<Rightarrow> sdshdr option" where
  "sdscatsds g s t = do { d \<leftarrow> mem_read (sh_buf t) 0 (sdslen t); sdscatlen g s d }"

definition sdscpylen :: "(nat \<Rightarrow> char) \<Rightarrow> sdshdr \<Rightarrow> string \<Rightarrow> sdshdr option" where
  "sdscpylen g s t =
     (let len = length t;
          s = (if sh_free s + sh_len s < int len then sdsMakeRoomFor g s (ull (int len - sh_len s)) else s);
          totlen = sh_free s + sh_len s in
      do { b \<leftarrow> mem_write (sh_buf s) 0 t;
           b \<leftarrow> mem_write b len [NUL];
           Some \<lparr>sh_len = c_int32 (int len), sh_free = c_int32 (totlen - int len), sh_buf = b\<rparr> })"

definition sdscpy :: "(nat \<Rightarrow> char) \<Rightarrow> sdshdr \<Rightarrow> string \<Rightarrow> sdshdr option" where
  "sdscpy g s t = sdscpylen g s (cstr t)"

section \<open>Representation\<close>

definition sds_str :: "sdshdr \<Rightarrow> string" where
  "sds_str s = take (nat (sh_len s)) (sh_buf s)"

definition sds_ok :: "sdshdr \<Rightarrow> bool" where
  "sds_ok s \<longleftrightarrow> 0 \<le> sh_len s \<and> 0 \<le> sh_free s \<and> sh_len s + sh_free s < 2147483647 \<and>
     int (length (sh_buf s)) = sh_len s + sh_free s + 1 \<and> sh_buf s ! nat (sh_len s) = NUL"

named_theorems sds \<open>unfolding of the string operations\<close>

lemmas [sds] = mem_write_def mem_read_def

lemma sdslen_ok: "sds_ok s \<Longrightarrow> sdslen s = nat (sh_len s)" "sds_ok s \<Longrightarrow> sdsavail s = nat (sh_free s)"
  by (auto simp: sds_ok_def sdslen_def sdsavail_def intro!: ull_nonneg)

lemma length_sds_str: "sds_ok s \<Longrightarrow> length (sds_str s) = nat (sh_len s)"
  by (auto simp: sds_str_def sds_ok_def)

lemma sds_buf: "sds_ok s \<Longrightarrow> \<exists>r. sh_buf s = sds_str s @ NUL # r \<and> int (length r) = sh_free s"
proof -
  assume ok: "sds_ok s"
  let ?n = "nat (sh_len s)"
  have "?n < length (sh_buf s)" using ok by (auto simp: sds_ok_def)
  then have "sh_buf s = take ?n (sh_buf s) @ sh_buf s ! ?n # drop (Suc ?n) (sh_buf s)"
    by (rule id_take_nth_drop)
  then show ?thesis using ok by (intro exI [of _ "drop (Suc ?n) (sh_buf s)"]) (auto simp: sds_str_def sds_ok_def)
qed

text \<open>The converse: a header over such a buffer is well-formed.\<close>

lemma sds_okI:
  assumes "sh_buf s = t @ NUL # r" "sh_len s = int (length t)" "sh_free s = int (length r)"
    "int (length t) + int (length r) < 2147483647"
  shows "sds_ok s \<and> sds_str s = t"
  using assms by (simp add: sds_ok_def sds_str_def)

lemma sds_mk:
  assumes "sh_len s = c_int32 (int (length t))" "sh_free s = c_int32 (int (length r))"
    "sh_buf s = t @ NUL # r" "length t + length r < 2147483647"
  shows "sds_ok s \<and> sds_str s = t"
  using assms by (intro sds_okI [of s t r]) (simp_all add: c_int32_id)

lemma zrealloc_bytes_append:
  "length a \<le> n \<Longrightarrow> zrealloc_bytes g n (a @ b) = a @ zrealloc_bytes (\<lambda>i. g (i + length a)) (n - length a) b"
  by (auto simp: zrealloc_bytes_def ac_simps intro!: nth_equalityI simp: nth_append)

lemma length_zrealloc_bytes [simp]: "length (zrealloc_bytes g n b) = n"
  by (auto simp: zrealloc_bytes_def)

section \<open>Refinement\<close>

text \<open>Sizes for which no 32-bit field overflows.\<close>

definition room_ok :: "sdshdr \<Rightarrow> nat \<Rightarrow> bool" where
  "room_ok s n \<longleftrightarrow> length (sds_str s) + n < 1073741824"

lemma sdsnewlen_ok:
  assumes "n < 2147483647" "n \<le> length t"
  shows "\<exists>s. sdsnewlen (Some t) n = Some s \<and> sds_ok s \<and> sds_str s = take n t"
  using assms by (auto simp: sdsnewlen_def sds c_int32_id sds_ok_def sds_str_def nth_append)

lemma sdsnewlen_null:
  assumes "n < 2147483647"
  shows "\<exists>s. sdsnewlen None n = Some s \<and> sds_ok s \<and> sds_str s = replicate n NUL"
  using assms by (auto simp: sdsnewlen_def sds c_int32_id sds_ok_def sds_str_def nth_append)

lemma sdsempty_ok: "\<exists>s. sdsempty = Some s \<and> sds_ok s \<and> sds_str s = []"
  using sdsnewlen_ok [of 0 "[]"] by (simp add: sdsempty_def)

lemma sdsdup_ok:
  assumes "sds_ok s"
  shows "\<exists>s'. sdsdup s = Some s' \<and> sds_ok s' \<and> sds_str s' = sds_str s"
proof -
  have "nat (sh_len s) < 2147483647" "nat (sh_len s) \<le> length (sh_buf s)"
    using assms by (auto simp: sds_ok_def)
  from sdsnewlen_ok [OF this] show ?thesis using assms by (simp add: sdsdup_def sdslen_ok sds_str_def)
qed

lemma sdsclear_ok:
  assumes "sds_ok s"
  shows "\<exists>s'. sdsclear s = Some s' \<and> sds_ok s' \<and> sds_str s' = []"
  using assms by (auto simp: sdsclear_def sds sds_ok_def sds_str_def c_int32_id)

lemma sdsMakeRoomFor_ok:
  assumes ok: "sds_ok s" and room: "room_ok s n"
  shows "sds_ok (sdsMakeRoomFor g s n) \<and> sds_str (sdsMakeRoomFor g s n) = sds_str s \<and>
    sh_len (sdsMakeRoomFor g s n) = sh_len s \<and> int n \<le> sh_free (sdsMakeRoomFor g s n)"
proof (cases "sdsavail s \<ge> n")
  case True
  then show ?thesis using ok by (auto simp: sdsMakeRoomFor_def sdslen_ok sds_ok_def)
next
  case False
  define t where "t = sds_str s"
  define newlen where "newlen = (if length t + n < SDS_MAX_PREALLOC then (length t + n) * 2
    else length t + n + SDS_MAX_PREALLOC)"
  obtain r where r: "sh_buf s = t @ NUL # r" using sds_buf [OF ok] t_def by auto
  have len: "sdslen s = length t" "sh_len s = int (length t)"
    using ok length_sds_str [OF ok] by (auto simp: sdslen_ok t_def sds_ok_def)
  have nl: "length t + n \<le> newlen" "newlen < 2147483647"
    using room by (auto simp: newlen_def room_ok_def t_def SDS_MAX_PREALLOC_def)
  have "zrealloc_bytes g (newlen + 1) (t @ [NUL] @ r) =
     (t @ [NUL]) @ zrealloc_bytes (\<lambda>i. g (i + length (t @ [NUL]))) (newlen + 1 - length (t @ [NUL])) r"
    using nl(1) zrealloc_bytes_append [of "t @ [NUL]" "newlen + 1" g r] by simp
  then have "sdsMakeRoomFor g s n = s\<lparr>sh_buf := t @ NUL #
      zrealloc_bytes (\<lambda>i. g (i + length (t @ [NUL]))) (newlen - length t) r,
      sh_free := c_int32 (int newlen - int (length t))\<rparr>" (is "_ = ?s'")
    using False r len(1) by (simp add: sdsMakeRoomFor_def Let_def newlen_def)
  moreover have "sds_ok ?s' \<and> sds_str ?s' = t"
    by (rule sds_okI) (use nl len in \<open>auto simp: c_int32_id\<close>)
  ultimately show ?thesis using nl len by (simp add: t_def c_int32_id)
qed

text \<open>Overwriting from position \<open>k\<close> on and moving the end.\<close>

lemma mem_write_end:
  assumes "b = t @ c # r" "length d \<le> length r"
  shows "\<exists>r'. do { b \<leftarrow> mem_write b (length t) d; mem_write b (length t + length d) [NUL] } =
     Some (t @ d @ NUL # r') \<and> length r' = length r - length d"
proof -
  have "mem_write b (length t) d = Some (t @ d @ drop (length d) (c # r))"
    using assms by (simp add: sds)
  moreover have "drop (length d) (c # r) \<noteq> []" "length (drop (length d) (c # r)) = Suc (length r - length d)"
    using assms(2) by auto
  then obtain c' r' where "drop (length d) (c # r) = c' # r'" "length r' = length r - length d"
    by (cases "drop (length d) (c # r)") auto
  ultimately show ?thesis by (simp add: sds)
qed

lemma sdscatlen_ok:
  assumes ok: "sds_ok s" and room: "room_ok s (length d)"
  shows "\<exists>s'. sdscatlen g s d = Some s' \<and> sds_ok s' \<and> sds_str s' = sds_str s @ d"
proof -
  define m where "m = sdsMakeRoomFor g s (length d)"
  have m: "sds_ok m" "sds_str m = sds_str s" "sh_len m = sh_len s" "int (length d) \<le> sh_free m"
    using sdsMakeRoomFor_ok [OF ok room, of g] by (auto simp: m_def)
  obtain r where r: "sh_buf m = sds_str s @ NUL # r" "int (length r) = sh_free m"
    using sds_buf [OF m(1)] m(2) by auto
  have len: "sdslen s = length (sds_str s)" "sh_len s = int (length (sds_str s))"
    using ok length_sds_str [OF ok] by (auto simp: sdslen_ok sds_ok_def)
  obtain r' where "do { b \<leftarrow> mem_write (sh_buf m) (length (sds_str s)) d;
      mem_write b (length (sds_str s) + length d) [NUL] } = Some (sds_str s @ d @ NUL # r')"
      "length r' = length r - length d"
    using mem_write_end [OF r(1), of d] r(2) m(4) by auto
  then have w: "sdscatlen g s d = Some \<lparr>sh_len = c_int32 (int (length (sds_str s) + length d)),
      sh_free = c_int32 (sh_free m - int (length d)), sh_buf = (sds_str s @ d) @ NUL # r'\<rparr>" (is "_ = Some ?s'")
    unfolding sdscatlen_def Let_def m_def [symmetric] len(1)
    by (cases "mem_write (sh_buf m) (length (sds_str s)) d") simp_all
  have b: "sh_len m + sh_free m < 2147483647" "0 \<le> sh_free m" using m(1) by (auto simp: sds_ok_def)
  have "length (sds_str s) + length d < 1073741824" using room by (simp add: room_ok_def)
  moreover have "sh_free m - int (length d) = int (length r')" using r(2) \<open>length r' = _\<close> m(4) by simp
  ultimately have "sds_ok ?s' \<and> sds_str ?s' = sds_str s @ d"
    using b m(3) len(2) by (intro sds_mk [where r = r']) simp_all
  with w show ?thesis by blast
qed

section \<open>Trimming and ranges\<close>

text \<open>The two scans of \<open>sdstrim\<close>; \<open>strchr\<close> also finds the null byte that ends \<open>cset\<close>.\<close>

definition in_cset :: "string \<Rightarrow> char \<Rightarrow> bool" where
  "in_cset cset c \<longleftrightarrow> c \<in> set (cstr cset) \<or> c = NUL"

function trim_sp :: "(char \<Rightarrow> bool) \<Rightarrow> string \<Rightarrow> nat \<Rightarrow> nat \<Rightarrow> nat" where
  "trim_sp P b len sp = (if sp < len \<and> P (b ! sp) then trim_sp P b len (Suc sp) else sp)"
  by pat_completeness auto
termination
  by (relation "measure (\<lambda>(P, b, len, sp). len - sp)") auto

declare trim_sp.simps [simp del]

fun trim_ep :: "(char \<Rightarrow> bool) \<Rightarrow> string \<Rightarrow> nat \<Rightarrow> nat" where
  "trim_ep P b 0 = 0"
| "trim_ep P b (Suc k) = (if P (b ! Suc k) then trim_ep P b k else Suc k)"

text \<open>The common end of \<open>sdstrim\<close> and \<open>sdsrange\<close>: move the kept part to the front and cut.\<close>

definition sds_keep :: "sdshdr \<Rightarrow> nat \<Rightarrow> nat \<Rightarrow> sdshdr option" where
  "sds_keep s start newlen =
     do { b \<leftarrow> (if start \<noteq> 0 \<and> newlen \<noteq> 0
               then do { d \<leftarrow> mem_read (sh_buf s) start newlen; mem_write (sh_buf s) 0 d }
               else Some (sh_buf s));
          b \<leftarrow> mem_write b newlen [NUL];
          Some \<lparr>sh_len = c_int32 (int newlen), sh_free = c_int32 (sh_free s + (sh_len s - int newlen)),
                sh_buf = b\<rparr> }"

definition sdstrim :: "sdshdr \<Rightarrow> string \<Rightarrow> sdshdr option" where
  "sdstrim s cset =
     (let n = sdslen s;
          sp = trim_sp (in_cset cset) (sh_buf s) n 0;
          ep = (if n = 0 then -1 else int (trim_ep (in_cset cset) (sh_buf s) (n - 1)));
          len = (if int sp > ep then 0 else nat (ep - int sp + 1))
      in sds_keep s sp len)"

definition sdsrange_clip :: "sdshdr \<Rightarrow> nat \<Rightarrow> int \<Rightarrow> int \<Rightarrow> sdshdr option" where
  "sdsrange_clip s len start end =
     (let newlen = (if start > end then 0 else ull (c_int32 (end - start + 1)));
          (start, newlen) =
            (if newlen \<noteq> 0 then
               if start \<ge> c_int32 (int len) then (start, 0)
               else if end \<ge> c_int32 (int len) then
                 let end = c_int32 (int len - 1) in
                 (start, if start > end then 0 else ull (c_int32 (end - start + 1)))
               else (start, newlen)
             else (0, newlen))
      in sds_keep s (nat start) newlen)"

definition sdsrange :: "sdshdr \<Rightarrow> int \<Rightarrow> int \<Rightarrow> sdshdr option" where
  "sdsrange s start end =
     (let len = sdslen s in
      if len = 0 then Some s
      else
        let start = (if start < 0 then max 0 (c_int32 (int len + start)) else start);
            end = (if end < 0 then max 0 (c_int32 (int len + end)) else end)
        in sdsrange_clip s len start end)"

lemma sds_keep_ok:
  assumes ok: "sds_ok s" and n: "st + n \<le> length (sds_str s)"
  shows "\<exists>s'. sds_keep s st n = Some s' \<and> sds_ok s' \<and> sds_str s' = take n (drop st (sds_str s))"
proof -
  define t where "t = sds_str s"
  obtain r where r: "sh_buf s = t @ NUL # r" "int (length r) = sh_free s" using sds_buf [OF ok] t_def by auto
  have len: "sh_len s = int (length t)" "sh_len s + sh_free s < 2147483647"
    using ok length_sds_str [OF ok] by (auto simp: t_def sds_ok_def)
  let ?k = "take n (drop st t)"
  have "\<exists>b. (if st \<noteq> 0 \<and> n \<noteq> 0 then do { d \<leftarrow> mem_read (sh_buf s) st n; mem_write (sh_buf s) 0 d }
      else Some (sh_buf s)) = Some (?k @ b) \<and> length b = length (sh_buf s) - n"
  proof (cases "st \<noteq> 0 \<and> n \<noteq> 0")
    case True
    then show ?thesis using n r by (simp add: sds t_def)
  next
    case False
    then have "?k @ drop n (sh_buf s) = sh_buf s" using n r by (auto simp: t_def)
    with False show ?thesis by (intro exI [of _ "drop n (sh_buf s)"]) auto
  qed
  then obtain b where b: "(if st \<noteq> 0 \<and> n \<noteq> 0 then do { d \<leftarrow> mem_read (sh_buf s) st n; mem_write (sh_buf s) 0 d }
      else Some (sh_buf s)) = Some (?k @ b)" "length b = length (sh_buf s) - n" by blast
  have kl: "length ?k = n" using n by (simp add: t_def)
  have bl: "length b = Suc (length t - n + length r)" using b(2) r n by (simp add: t_def)
  then have "mem_write (?k @ b) n [NUL] = Some (?k @ NUL # tl b)"
    using kl by (cases b) (auto simp: sds)
  then have w: "sds_keep s st n = Some \<lparr>sh_len = c_int32 (int n),
      sh_free = c_int32 (sh_free s + (sh_len s - int n)), sh_buf = ?k @ NUL # tl b\<rparr>" (is "_ = Some ?s'")
    using b(1) by (simp add: sds_keep_def)
  have "sh_free s + (sh_len s - int n) = int (length (tl b))" using bl r(2) len(1) n by (simp add: t_def)
  then have "sds_ok ?s' \<and> sds_str ?s' = ?k"
    using len r(2) kl by (intro sds_mk [where r = "tl b"]) simp_all
  with w show ?thesis by (simp add: t_def)
qed

lemma trim_sp_eq:
  assumes "sp \<le> length t"
  shows "trim_sp P (t @ r) (length t) sp = sp + length (takeWhile P (drop sp t))"
  using assms
proof (induction "length t - sp" arbitrary: sp)
  case 0
  then show ?case by (subst trim_sp.simps) simp
next
  case (Suc k)
  then have "drop sp t = t ! sp # drop (Suc sp) t" "sp < length t" by (simp_all add: Cons_nth_drop_Suc)
  with Suc show ?case by (subst trim_sp.simps) (simp add: nth_append)
qed

lemma trim_ep_eq:
  assumes "k < length t" "\<exists>c \<in> set (take (Suc k) t). \<not> P c"
  shows "trim_ep P (t @ r) k = k - length (takeWhile P (rev (take (Suc k) t)))"
  using assms
proof (induction k)
  case (Suc k)
  then have "take (Suc (Suc k)) t = take (Suc k) t @ [t ! Suc k]" by (simp add: take_Suc_conv_app_nth)
  with Suc show ?case by (auto simp: nth_append)
qed simp

text \<open>What trimming means on the bytes.\<close>

definition trim_bytes :: "(char \<Rightarrow> bool) \<Rightarrow> string \<Rightarrow> string" where
  "trim_bytes P t = rev (dropWhile P (rev (dropWhile P t)))"

lemma takeWhile_rev_dropWhile:
  "\<exists>c \<in> set t. \<not> P c \<Longrightarrow> takeWhile P (rev (dropWhile P t)) = takeWhile P (rev t)"
proof -
  assume "\<exists>c \<in> set t. \<not> P c"
  then have "\<exists>c \<in> set (rev (dropWhile P t)). \<not> P c"
    by (metis dropWhile_eq_Nil_conv hd_dropWhile list.set_sel(1) set_rev)
  moreover have "rev t = rev (dropWhile P t) @ rev (takeWhile P t)"
    by (metis rev_append takeWhile_dropWhile_id)
  ultimately show ?thesis by (metis takeWhile_append1)
qed

lemma rev_dropWhile_rev: "rev (dropWhile P (rev ys)) = take (length ys - length (takeWhile P (rev ys))) ys"
  by (metis dropWhile_eq_drop drop_rev rev_rev_ident length_rev rev_swap)

lemma sdstrim_ok:
  assumes ok: "sds_ok s"
  shows "\<exists>s'. sdstrim s cset = Some s' \<and> sds_ok s' \<and> sds_str s' = trim_bytes (in_cset cset) (sds_str s)"
proof -
  define t where "t = sds_str s"
  define P where "P = in_cset cset"
  obtain r where r: "sh_buf s = t @ NUL # r" using sds_buf [OF ok] t_def by auto
  have n: "sdslen s = length t" using ok length_sds_str [OF ok] by (simp add: sdslen_ok t_def)
  let ?sp = "length (takeWhile P t)"
  have sp: "trim_sp P (sh_buf s) (length t) 0 = ?sp" using trim_sp_eq [of 0 t P] r by simp
  show ?thesis
  proof (cases "\<exists>c \<in> set t. \<not> P c")
    case True
    let ?q = "length (takeWhile P (rev t))"
    have q: "?q < length t" using True
      by (metis length_rev set_rev length_takeWhile_le nat_less_le takeWhile_eq_take take_all_iff
          takeWhile_eq_all_conv)
    have "trim_ep P (sh_buf s) (length t - 1) = length t - 1 - ?q"
      using trim_ep_eq [of "length t - 1" t P] q True r by (cases t) auto
    moreover have lt: "?sp + ?q < length t"
    proof -
      have "length (dropWhile P t) = length t - ?sp"
        by (metis add_diff_cancel_left' length_append takeWhile_dropWhile_id)
      moreover have "takeWhile P (rev (dropWhile P t)) = takeWhile P (rev t)"
        by (rule takeWhile_rev_dropWhile [OF True])
      moreover have "takeWhile P (rev (dropWhile P t)) \<noteq> rev (dropWhile P t)"
        using True by (metis dropWhile_eq_Nil_conv hd_dropWhile list.set_sel(1) set_rev takeWhile_eq_all_conv)
      ultimately have "?q < length t - ?sp"
        by (metis length_rev length_takeWhile_le nat_less_le takeWhile_eq_take take_all_iff)
      then show ?thesis by simp
    qed
    then have "nat (int (length t - 1 - ?q) - int ?sp + 1) = length t - ?sp - ?q"
      "\<not> int (length t - 1 - ?q) < int ?sp" by linarith+
    ultimately have "sdstrim s cset = sds_keep s ?sp (length t - ?sp - ?q)"
      using n sp q by (simp add: sdstrim_def Let_def P_def [symmetric])
    moreover have "trim_bytes P t = take (length (dropWhile P t) - ?q) (dropWhile P t)"
      unfolding trim_bytes_def rev_dropWhile_rev takeWhile_rev_dropWhile [OF True] ..
    then have "take (length t - ?sp - ?q) (drop ?sp t) = trim_bytes P t"
      by (simp add: dropWhile_eq_drop)
    ultimately show ?thesis using sds_keep_ok [OF ok, of ?sp "length t - ?sp - ?q"] lt
      by (simp add: t_def P_def)
  next
    case False
    then have all: "takeWhile P t = t" "dropWhile P t = []" by simp_all
    have le: "trim_ep P b k \<le> k" for b k by (induction k) auto
    have "int (length t) > (if length t = 0 then -1 else int (trim_ep P (sh_buf s) (length t - 1)))"
      using le [of "sh_buf s" "length t - 1"] by (cases t) auto
    then have "sdstrim s cset = sds_keep s (length t) 0"
      using n sp all(1) by (simp add: sdstrim_def Let_def P_def [symmetric] split: if_splits)
    moreover have "trim_bytes P t = []" by (simp add: trim_bytes_def all(2))
    ultimately show ?thesis using sds_keep_ok [OF ok, of "length t" 0] by (simp add: t_def P_def)
  qed
qed

text \<open>What a range means on the bytes: both ends inclusive, negative ones counted from the end.\<close>

definition range_bytes :: "string \<Rightarrow> int \<Rightarrow> int \<Rightarrow> string" where
  "range_bytes t i j =
     (let n = int (length t);
          i = (if i < 0 then max 0 (n + i) else i);
          j = (if j < 0 then max 0 (n + j) else j)
      in take (nat (j - i + 1)) (drop (nat i) t))"

lemma sdsrange_ok:
  assumes ok: "sds_ok s" and ij: "-2147483648 \<le> i" "i < 2147483648" "-2147483648 \<le> j" "j < 2147483648"
  shows "\<exists>s'. sdsrange s i j = Some s' \<and> sds_ok s' \<and> sds_str s' = range_bytes (sds_str s) i j"
proof (cases "sds_str s = []")
  case True
  then show ?thesis using ok length_sds_str [OF ok] by (simp add: sdsrange_def sdslen_ok range_bytes_def)
next
  case False
  define t where "t = sds_str s"
  have n: "sdslen s = length t" "int (length t) < 2147483647"
    using ok length_sds_str [OF ok] by (auto simp: sdslen_ok t_def sds_ok_def)
  define st where "st = (if i < 0 then max 0 (int (length t) + i) else i)"
  define en where "en = (if j < 0 then max 0 (int (length t) + j) else j)"
  have c: "c_int32 (int (length t)) = int (length t)" "c_int32 (int (length t) - 1) = int (length t) - 1"
    "i < 0 \<Longrightarrow> c_int32 (int (length t) + i) = int (length t) + i"
    "j < 0 \<Longrightarrow> c_int32 (int (length t) + j) = int (length t) + j"
    using n(2) ij by (auto simp: c_int32_id)
  have b: "0 \<le> st" "st < 2147483648" "0 \<le> en" "en < 2147483648"
    using n(2) ij by (auto simp: st_def en_def)
  have u: "ull (c_int32 (en - st + 1)) \<noteq> 0" if "st \<le> en"
  proof (cases "en - st + 1 < 2147483648")
    case True
    then show ?thesis using b that by (simp add: c_int32_id ull_nonneg)
  next
    case False
    then have "en - st + 1 = 2147483648" using b by linarith
    then show ?thesis by (simp add: c_int32_def ull_def)
  qed
  have v: "ull (c_int32 (e - st + 1)) = nat (e - st + 1)" if "st \<le> e" "e < int (length t)" for e
    using b(1) that n(2) by (simp add: c_int32_id ull_nonneg)
  have eq: "range_bytes t i j = take (nat (en - st + 1)) (drop (nat st) t)"
    by (simp add: range_bytes_def Let_def st_def en_def)
  have "st = (if i < 0 then max 0 (c_int32 (int (length t) + i)) else i)"
    "en = (if j < 0 then max 0 (c_int32 (int (length t) + j)) else j)"
    using c(3,4) by (simp_all add: st_def en_def)
  then have len: "sdsrange s i j = sdsrange_clip s (length t) st en"
    using False n(1) by (simp only: sdsrange_def Let_def t_def length_0_conv if_False)
  have keep0: "sds_keep s k 0 = sds_keep s 0 0" for k by (simp add: sds_keep_def)
  consider "en < st \<or> int (length t) \<le> st" | "st \<le> en" "st < int (length t)" "int (length t) \<le> en"
    | "st \<le> en" "en < int (length t)" by linarith
  then show ?thesis
  proof cases
    case 1
    then have "sdsrange s i j = sds_keep s 0 0" using len u keep0 c by (auto simp: sdsrange_clip_def Let_def)
    moreover have "range_bytes t i j = []" using eq 1 b by auto
    ultimately show ?thesis using sds_keep_ok [OF ok, of 0 0] by (simp add: t_def)
  next
    case 2
    then have "sdsrange s i j = sds_keep s (nat st) (length t - nat st)"
      using len u v [of "int (length t) - 1"] b c(1,2) by (auto simp: sdsrange_clip_def Let_def nat_diff_distrib)
    moreover have "range_bytes t i j = take (length t - nat st) (drop (nat st) t)" using eq 2 b by auto
    ultimately show ?thesis using sds_keep_ok [OF ok, of "nat st" "length t - nat st"] 2 b
      by (simp add: t_def)
  next
    case 3
    then have "sdsrange s i j = sds_keep s (nat st) (nat (en - st + 1))"
      using len u v [of en] b c(1) by (auto simp: sdsrange_clip_def Let_def)
    then show ?thesis using sds_keep_ok [OF ok, of "nat st" "nat (en - st + 1)"] 3 b eq
      by (simp add: t_def)
  qed
qed

section \<open>Growing, copying and cutting\<close>

lemma sdsIncrLen_ok:
  assumes ok: "sds_ok s" and i: "- sh_len s \<le> i" "i \<le> sh_free s"
  shows "\<exists>s'. sdsIncrLen s i = Some s' \<and> sds_ok s' \<and>
    sds_str s' = take (nat (sh_len s + i)) (sh_buf s)"
proof -
  let ?n = "nat (sh_len s + i)"
  have b: "0 \<le> sh_len s" "0 \<le> sh_free s" "sh_len s + sh_free s < 2147483647"
    "int (length (sh_buf s)) = sh_len s + sh_free s + 1" using ok by (auto simp: sds_ok_def)
  have n: "?n < length (sh_buf s)" using b i by linarith
  have c: "c_int32 (sh_len s + i) = int ?n" "c_int32 (sh_free s - i) = sh_free s - i"
    using b i by (simp_all add: c_int32_id)
  have "mem_write (sh_buf s) ?n [NUL] = Some (take ?n (sh_buf s) @ NUL # drop (Suc ?n) (sh_buf s))"
    using n by (simp add: sds)
  then have w: "sdsIncrLen s i = Some \<lparr>sh_len = int ?n, sh_free = sh_free s - i,
      sh_buf = take ?n (sh_buf s) @ NUL # drop (Suc ?n) (sh_buf s)\<rparr>" (is "_ = Some ?s'")
    using c b i by (simp add: sdsIncrLen_def Let_def)
  have "sds_ok ?s' \<and> sds_str ?s' = take ?n (sh_buf s)"
    by (rule sds_okI [where r = "drop (Suc ?n) (sh_buf s)"]) (use b n i in \<open>auto simp: min_def\<close>)
  with w show ?thesis by blast
qed

lemma sdsgrowzero_ok:
  assumes ok: "sds_ok s" and n: "n < 1073741824"
  shows "\<exists>s'. sdsgrowzero g s n = Some s' \<and> sds_ok s' \<and>
    sds_str s' = sds_str s @ replicate (n - length (sds_str s)) NUL"
proof (cases "n \<le> length (sds_str s)")
  case True
  then show ?thesis using ok length_sds_str [OF ok] by (simp add: sdsgrowzero_def sdslen_ok)
next
  case False
  let ?t = "sds_str s"
  define m where "m = sdsMakeRoomFor g s (n - length ?t)"
  have m: "sds_ok m" "sds_str m = ?t" "sh_len m = sh_len s" "int (n - length ?t) \<le> sh_free m"
    using sdsMakeRoomFor_ok [OF ok, of "n - length ?t" g] n False by (auto simp: m_def room_ok_def)
  obtain r where r: "sh_buf m = ?t @ NUL # r" "int (length r) = sh_free m"
    using sds_buf [OF m(1)] m(2) by auto
  have len: "sdslen s = length ?t" "sh_len s = int (length ?t)"
    using ok length_sds_str [OF ok] by (auto simp: sdslen_ok sds_ok_def)
  let ?k = "n - length ?t"
  have "mem_write (sh_buf m) (length ?t) (replicate (Suc ?k) NUL) =
      Some ((?t @ replicate ?k NUL) @ NUL # drop ?k r)"
    using r m(4) by (simp add: sds replicate_append_same)
  then have w: "sdsgrowzero g s n = Some \<lparr>sh_len = c_int32 (int n),
      sh_free = c_int32 (sh_len m + sh_free m - c_int32 (int n)),
      sh_buf = (?t @ replicate ?k NUL) @ NUL # drop ?k r\<rparr>" (is "_ = Some ?s'")
    using False len(1) by (simp add: sdsgrowzero_def Let_def m_def)
  have "sh_len m + sh_free m < 2147483647" using m(1) by (auto simp: sds_ok_def)
  moreover have "sh_len m + sh_free m - c_int32 (int n) = int (length (drop ?k r))"
    using n m(3,4) len(2) r(2) False by (simp add: c_int32_id of_nat_diff)
  ultimately have "sds_ok ?s' \<and> sds_str ?s' = ?t @ replicate ?k NUL"
    using False n m(3) len(2) r(2) by (intro sds_mk [where r = "drop ?k r"]) simp_all
  with w show ?thesis by blast
qed

lemma sdscpylen_ok:
  assumes ok: "sds_ok s" and n: "length d < 1073741824"
  shows "\<exists>s'. sdscpylen g s d = Some s' \<and> sds_ok s' \<and> sds_str s' = d"
proof -
  have len: "sh_len s = int (length (sds_str s))" "0 \<le> sh_free s"
    using ok length_sds_str [OF ok] by (auto simp: sds_ok_def)
  define m where "m = (if sh_free s + sh_len s < int (length d)
    then sdsMakeRoomFor g s (ull (int (length d) - sh_len s)) else s)"
  have m: "sds_ok m \<and> int (length d) \<le> sh_free m + sh_len m"
  proof (cases "sh_free s + sh_len s < int (length d)")
    case True
    then have u: "ull (int (length d) - sh_len s) = length d - length (sds_str s)"
      using len n by (simp add: ull_nonneg nat_diff_distrib)
    then have "room_ok s (ull (int (length d) - sh_len s))"
      using n len True by (simp add: room_ok_def)
    from sdsMakeRoomFor_ok [OF ok this, of g] show ?thesis
      using True u len by (auto simp: m_def)
  next
    case False
    then show ?thesis using ok by (simp add: m_def)
  qed
  then have b: "int (length (sh_buf m)) = sh_len m + sh_free m + 1" "sh_len m + sh_free m < 2147483647"
    by (auto simp: sds_ok_def)
  obtain c r where cr: "drop (length d) (sh_buf m) = c # r"
    using b(1) m by (cases "drop (length d) (sh_buf m)") auto
  have "length (drop (length d) (sh_buf m)) = length (sh_buf m) - length d" by simp
  then have r: "int (length r) = sh_free m + sh_len m - int (length d)" using cr b(1) m by simp
  have "mem_write (sh_buf m) 0 d = Some (d @ c # r)" using cr b(1) m by (simp add: sds)
  then have w: "sdscpylen g s d = Some \<lparr>sh_len = c_int32 (int (length d)),
      sh_free = c_int32 (sh_free m + sh_len m - int (length d)), sh_buf = d @ NUL # r\<rparr>" (is "_ = Some ?s'")
    by (simp add: sdscpylen_def Let_def m_def [symmetric]) (simp add: sds)
  have "sds_ok ?s' \<and> sds_str ?s' = d"
    by (rule sds_mk [where r = r]) (use r b(2) in simp_all)
  with w show ?thesis by blast
qed

lemma sdsRemoveFreeSpace_ok:
  assumes ok: "sds_ok s"
  shows "sds_ok (sdsRemoveFreeSpace g s) \<and> sds_str (sdsRemoveFreeSpace g s) = sds_str s"
proof -
  obtain r where r: "sh_buf s = sds_str s @ NUL # r" using sds_buf [OF ok] by auto
  have len: "sdslen s = length (sds_str s)" "sh_len s = int (length (sds_str s))" "sh_len s < 2147483647"
    using ok length_sds_str [OF ok] by (auto simp: sdslen_ok sds_ok_def)
  have "zrealloc_bytes g (sdslen s + 1) (sh_buf s) = sds_str s @ [NUL]"
    using r len(1) by (simp add: zrealloc_bytes_def)
  then show ?thesis using len by (intro sds_okI [where r = "[]"]) (simp_all add: sdsRemoveFreeSpace_def)
qed

lemma sdsupdatelen_ok:
  assumes ok: "sds_ok s"
  shows "sds_ok (sdsupdatelen s) \<and> sds_str (sdsupdatelen s) = cstr (sds_str s)"
proof -
  obtain r where r: "sh_buf s = sds_str s @ NUL # r" "int (length r) = sh_free s" using sds_buf [OF ok] by auto
  have len: "sh_len s = int (length (sds_str s))" "sh_len s + sh_free s < 2147483647"
    using ok length_sds_str [OF ok] by (auto simp: sds_ok_def)
  let ?c = "cstr (sds_str s)"
  obtain q where q: "sds_str s @ [NUL] = ?c @ NUL # q" using cstr_split by blast
  have buf: "sh_buf s = (sds_str s @ [NUL]) @ r" using r(1) by simp
  have "cstr (sh_buf s) = ?c" unfolding buf q by (simp add: cstr_append_nul)
  moreover have "c_int32 (int (length ?c)) = int (length ?c)"
    using len length_cstr_le [of "sds_str s"] ok by (simp add: c_int32_id sds_ok_def)
  ultimately have s': "sdsupdatelen s = s\<lparr>sh_free := c_int32 (sh_free s + (sh_len s - int (length ?c))),
      sh_len := c_int32 (int (length ?c))\<rparr>"
    by (simp add: sdsupdatelen_def strlen_def Let_def)
  have "sh_buf s = ?c @ NUL # q @ r" unfolding buf q by simp
  moreover have "length (sds_str s) = length ?c + length q" using arg_cong [OF q, of length] by simp
  ultimately show ?thesis using s' len r(2)
    by (intro sds_mk [where r = "q @ r"]) (simp_all add: add.commute)
qed

section \<open>Integers\<close>

text \<open>\<open>sdsll2str\<close>: digits in reverse, sign, null byte, then a reversal in place.\<close>

function put_digits :: "string \<Rightarrow> nat \<Rightarrow> nat \<Rightarrow> (string \<times> nat) option" where
  "put_digits b p v =
     do { b \<leftarrow> mem_write b p [digit_char (v mod 10)];
          if v div 10 = 0 then Some (b, Suc p) else put_digits b (Suc p) (v div 10) }"
  by pat_completeness auto
termination
  by (relation "measure (\<lambda>(b, p, v). v)") auto

function rev_loop :: "string \<Rightarrow> nat \<Rightarrow> nat \<Rightarrow> string" where
  "rev_loop b i j = (if i < j then rev_loop (b[i := b ! j, j := b ! i]) (Suc i) (j - 1) else b)"
  by pat_completeness auto
termination
  by (relation "measure (\<lambda>(b, i, j). j - i)") auto

declare put_digits.simps [simp del] rev_loop.simps [simp del]

definition sdsll2str :: "string \<Rightarrow> int \<Rightarrow> (nat \<times> string) option" where
  "sdsll2str b value =
     do { (b, p) \<leftarrow> put_digits b 0 (if value < 0 then ull (ll (- value)) else ull value);
          (b, p) \<leftarrow> (if value < 0 then do { b \<leftarrow> mem_write b p ''-''; Some (b, Suc p) } else Some (b, p));
          b \<leftarrow> mem_write b p [NUL];
          Some (p, rev_loop b 0 (p - 1)) }"

definition sdsull2str :: "string \<Rightarrow> nat \<Rightarrow> (nat \<times> string) option" where
  "sdsull2str b v =
     do { (b, p) \<leftarrow> put_digits b 0 v;
          b \<leftarrow> mem_write b p [NUL];
          Some (p, rev_loop b 0 (p - 1)) }"

definition SDS_LLSTR_SIZE :: nat where "SDS_LLSTR_SIZE = 21"

definition sdsfromlonglong :: "string \<Rightarrow> int \<Rightarrow> sdshdr option" where
  "sdsfromlonglong stack value =
     do { (len, buf) \<leftarrow> sdsll2str (take SDS_LLSTR_SIZE stack) value; sdsnewlen (Some buf) len }"

lemma mem_write_one: "p < length b \<Longrightarrow> mem_write b p [c] = Some (b[p := c])"
  by (simp add: sds upd_conv_take_nth_drop)

lemma put_digits_eq:
  assumes "length t + length (show_nat v) \<le> length b" "take (length t) b = t"
  shows "put_digits b (length t) v = Some (t @ rev (show_nat v) @ drop (length t + length (show_nat v)) b,
    length t + length (show_nat v))"
  using assms
proof (induction v arbitrary: t b rule: less_induct)
  case (less v)
  let ?c = "digit_char (v mod 10)"
  have p: "length t < length b" using less.prems(1) by (cases "show_nat v") auto
  let ?b = "b[length t := ?c]"
  have tb: "take (length (t @ [?c])) ?b = t @ [?c]"
    using p less.prems(2) by (simp add: take_Suc_conv_app_nth take_update_cancel)
  show ?case
  proof (cases "v div 10 = 0")
    case True
    then have "show_nat v = [?c]" by (simp add: show_nat.simps [of v])
    with True p show ?thesis using tb
      by (subst put_digits.simps) (simp add: mem_write_one, metis append_take_drop_id append.assoc append_Cons
          append_Nil drop_update_cancel length_append_singleton lessI)
  next
    case False
    then have "\<not> v < 10" by auto
    then have sv: "show_nat v = show_nat (v div 10) @ [?c]" by (simp add: show_nat.simps [of v])
    have "put_digits ?b (length (t @ [?c])) (v div 10) = Some ((t @ [?c]) @ rev (show_nat (v div 10)) @
        drop (length (t @ [?c]) + length (show_nat (v div 10))) ?b, length (t @ [?c]) + length (show_nat (v div 10)))"
      using less.IH [of "v div 10" "t @ [?c]" ?b] False less.prems(1) sv tb by simp
    then show ?thesis using False p sv
      by (subst put_digits.simps) (simp add: mem_write_one)
  qed
qed

lemma rev_loop_eq:
  "rev_loop (a @ xs @ r) (length a) (length a + length xs - 1) = a @ rev xs @ r"
proof (induction "length xs" arbitrary: a xs r rule: less_induct)
  case less
  show ?case
  proof (cases "length xs \<le> 1")
    case True
    then have "rev xs = xs" by (cases xs) auto
    with True show ?thesis by (subst rev_loop.simps) auto
  next
    case False
    then obtain x ys y where xs: "xs = x # ys @ [y]"
      by (cases xs; cases "tl xs" rule: rev_cases) auto
    let ?b = "a @ xs @ r" and ?j = "length a + length xs - 1"
    have "?b ! length a = x" "?b ! ?j = y" by (simp_all add: xs nth_append)
    moreover have "(?b[length a := y])[?j := x] = (a @ [y]) @ ys @ [x] @ r"
      by (simp add: xs list_update_append)
    ultimately have "rev_loop ?b (length a) ?j = rev_loop ((a @ [y]) @ ys @ [x] @ r) (Suc (length a)) (?j - 1)"
      by (subst rev_loop.simps) (simp add: xs)
    also have "\<dots> = (a @ [y]) @ rev ys @ [x] @ r"
      using less [of ys "a @ [y]" "[x] @ r"] xs by simp
    finally show ?thesis by (simp add: xs)
  qed
qed

lemma sdsull2str_eq:
  assumes "length (show_nat v) < length b"
  shows "sdsull2str b v = Some (length (show_nat v), show_nat v @ NUL # drop (Suc (length (show_nat v))) b)"
proof -
  let ?n = "length (show_nat v)"
  have "put_digits b 0 v = Some (rev (show_nat v) @ drop ?n b, ?n)"
    using put_digits_eq [of "[]" v b] assms by simp
  moreover have "mem_write (rev (show_nat v) @ drop ?n b) ?n [NUL] =
      Some (rev (show_nat v) @ NUL # drop (Suc ?n) b)"
    using assms by (simp add: sds)
  moreover have "rev_loop (rev (show_nat v) @ NUL # drop (Suc ?n) b) 0 (?n - 1) =
      show_nat v @ NUL # drop (Suc ?n) b"
    using rev_loop_eq [of "[]" "rev (show_nat v)"] by simp
  ultimately show ?thesis by (simp add: sdsull2str_def)
qed

lemma sdsll2str_eq:
  assumes "is_ll v" "length (show_int v) < length b"
  shows "sdsll2str b v = Some (length (show_int v), show_int v @ NUL # drop (Suc (length (show_int v))) b)"
proof (cases "v < 0")
  case True
  let ?s = "show_nat (nat (- v))"
  have si: "show_int v = CHR ''-'' # ?s" using True by (simp add: show_int_def)
  have u: "ull (ll (- v)) = nat (- v)"
    using True assms(1) by (simp add: ull_nonneg is_ll_def)
  have "put_digits b 0 (nat (- v)) = Some (rev ?s @ drop (length ?s) b, length ?s)"
    using put_digits_eq [of "[]" "nat (- v)" b] assms(2) si by simp
  moreover have "mem_write (rev ?s @ drop (length ?s) b) (length ?s) ''-'' =
      Some (rev (show_int v) @ drop (Suc (length ?s)) b)"
    using assms(2) si by (simp add: sds)
  moreover have "mem_write (rev (show_int v) @ drop (Suc (length ?s)) b) (Suc (length ?s)) [NUL] =
      Some (rev (show_int v) @ NUL # drop (Suc (length (show_int v))) b)"
    using assms(2) si by (simp add: sds)
  moreover have "rev_loop (rev (show_int v) @ NUL # drop (Suc (length (show_int v))) b) 0 (length ?s) =
      show_int v @ NUL # drop (Suc (length (show_int v))) b"
    using rev_loop_eq [of "[]" "rev (show_int v)"] si by simp
  ultimately show ?thesis using True u si by (simp add: sdsll2str_def)
next
  case False
  then have "show_int v = show_nat (nat v)" "ull v = nat v"
    using assms(1) by (auto simp: show_int_def is_ll_def ull_nonneg)
  with sdsull2str_eq [of "nat v" b] assms(2) False show ?thesis
    by (simp add: sdsll2str_def sdsull2str_def split: bind_splits)
qed

lemma sdsfromlonglong_ok:
  assumes "is_ll v" "SDS_LLSTR_SIZE \<le> length stack"
  shows "\<exists>s. sdsfromlonglong stack v = Some s \<and> sds_ok s \<and> sds_str s = show_int v"
proof -
  let ?n = "length (show_int v)"
  have n: "?n < length (take SDS_LLSTR_SIZE stack)"
    using length_show_int_ll20 [OF assms(1)] assms(2) by (simp add: SDS_LLSTR_SIZE_def)
  let ?b = "show_int v @ NUL # drop (Suc ?n) (take SDS_LLSTR_SIZE stack)"
  have "\<exists>s. sdsnewlen (Some ?b) ?n = Some s \<and> sds_ok s \<and> sds_str s = take ?n ?b"
    using length_show_int_ll20 [OF assms(1)] by (intro sdsnewlen_ok) auto
  then show ?thesis using sdsll2str_eq [OF assms(1) n] by (simp add: sdsfromlonglong_def)
qed

section \<open>Formatted output\<close>

text \<open>
  \<open>sdscatvprintf\<close>: the result of the C library's formatting is the parameter \<open>out\<close>.  The
  buffer is doubled until its last but one byte stays null.
\<close>

definition vsnprintf_buf :: "(nat \<Rightarrow> char) \<Rightarrow> nat \<Rightarrow> string \<Rightarrow> string" where
  "vsnprintf_buf g n out =
     (let b = (map g [0..<n])[n - 2 := NUL] in
      if length out < n then out @ NUL # drop (Suc (length out)) b
      else take (n - 1) out @ [NUL])"

partial_function (option) vprintf_loop :: "(nat \<Rightarrow> char) \<Rightarrow> nat \<Rightarrow> string \<Rightarrow> string option" where
  "vprintf_loop g buflen out =
     (let b = vsnprintf_buf g buflen out in
      if b ! (buflen - 2) \<noteq> NUL then vprintf_loop g (buflen * 2) out else Some b)"

definition sdscatvprintf :: "(nat \<Rightarrow> char) \<Rightarrow> sdshdr \<Rightarrow> string \<Rightarrow> string \<Rightarrow> sdshdr option" where
  "sdscatvprintf g s fmt out =
     (let buflen = strlen fmt * 2;
          buflen = (if buflen > 1024 then buflen else 1024)
      in do { b \<leftarrow> vprintf_loop g buflen out; sdscat g s b })"

lemma cstr_append_any: "cstr (t @ NUL # r) = cstr t"
  by (induction t) (auto simp: cstr_def)

lemma cstr_take: "k < length t \<Longrightarrow> t ! k = NUL \<Longrightarrow> cstr (take (Suc k) t @ r) = cstr t"
proof (induction t arbitrary: k)
  case (Cons c t)
  then show ?case by (cases k) (auto simp: cstr_def)
qed simp

lemma vprintf_loop_ok:
  assumes "2 \<le> n"
  shows "\<exists>b. vprintf_loop g n out = Some b \<and> cstr b = cstr out"
  using assms
proof (induction "length out + 2 - n" arbitrary: n rule: less_induct)
  case less
  let ?b = "vsnprintf_buf g n out"
  show ?case
  proof (cases "?b ! (n - 2) = NUL")
    case True
    have "cstr ?b = cstr out"
    proof (cases "length out < n")
      case True
      then show ?thesis by (simp add: vsnprintf_buf_def Let_def cstr_append_any)
    next
      case False
      with \<open>2 \<le> n\<close> have k: "Suc (n - 2) = n - 1" "n - 2 < length out" by auto
      have "out ! (n - 2) = NUL"
        using True False k by (simp add: vsnprintf_buf_def Let_def nth_append)
      with cstr_take [OF k(2) this, of "[NUL]"] False k show ?thesis
        by (simp add: vsnprintf_buf_def Let_def)
    qed
    with True show ?thesis by (subst vprintf_loop.simps) (simp add: Let_def)
  next
    case False
    have "n \<le> Suc (length out)"
    proof (rule ccontr)
      assume "\<not> ?thesis"
      then obtain m where m: "n = Suc (Suc m)" "length out \<le> m"
        by (metis Suc_le_D Suc_le_mono not_less_eq_eq)
      let ?r = "(map g [0..<Suc (Suc m)])[m := NUL]"
      have "length out < m \<Longrightarrow> drop (Suc (length out)) ?r ! (m - Suc (length out)) = NUL" by simp
      then have "?b ! (n - 2) = NUL"
        using m by (cases "length out = m") (auto simp: vsnprintf_buf_def Let_def nth_append nth_Cons')
      with False show False by simp
    qed
    then have "length out + 2 - n * 2 < length out + 2 - n" using \<open>2 \<le> n\<close> by auto
    from less.hyps [OF this] \<open>2 \<le> n\<close> False show ?thesis
      by (subst vprintf_loop.simps) (simp add: Let_def)
  qed
qed

lemma sdscat_ok:
  assumes "sds_ok s" "room_ok s (length (cstr d))"
  shows "\<exists>s'. sdscat g s d = Some s' \<and> sds_ok s' \<and> sds_str s' = sds_str s @ cstr d"
  using sdscatlen_ok [OF assms] by (simp add: sdscat_def)

lemma sdscatvprintf_ok:
  assumes "sds_ok s" "room_ok s (length (cstr out))"
  shows "\<exists>s'. sdscatvprintf g s fmt out = Some s' \<and> sds_ok s' \<and> sds_str s' = sds_str s @ cstr out"
proof -
  let ?n = "if strlen fmt * 2 > 1024 then strlen fmt * 2 else 1024"
  have "2 \<le> ?n" by auto
  then obtain b where b: "vprintf_loop g ?n out = Some b" "cstr b = cstr out"
    using vprintf_loop_ok by blast
  then show ?thesis using sdscat_ok [of s b g] assms by (simp add: sdscatvprintf_def Let_def)
qed

text \<open>
  \<open>sdscatfmt\<close>: its variable arguments as a list, the stack buffer for numbers as \<open>stack\<close>.
  Taking an argument of the wrong type, or a format that ends in a percent sign, which makes the
  loop step over the terminating null byte, is \<open>None\<close>.
\<close>

datatype fmt_arg = FA_str string | FA_sds sdshdr | FA_int int | FA_uint nat

fun catfmt_arg :: "string \<Rightarrow> char \<Rightarrow> fmt_arg list \<Rightarrow> (string \<times> fmt_arg list) option" where
  "catfmt_arg stack next (FA_str t # args) = (if next = CHR ''s'' then Some (cstr t, args) else None)"
| "catfmt_arg stack next (FA_sds t # args) =
     (if next = CHR ''S'' then do { d \<leftarrow> mem_read (sh_buf t) 0 (sdslen t); Some (d, args) } else None)"
| "catfmt_arg stack next (FA_int n # args) =
     (if next = CHR ''i'' \<or> next = CHR ''I''
      then do { (l, b) \<leftarrow> sdsll2str (take SDS_LLSTR_SIZE stack) n; Some (take l b, args) } else None)"
| "catfmt_arg stack next (FA_uint n # args) =
     (if next = CHR ''u'' \<or> next = CHR ''U''
      then do { (l, b) \<leftarrow> sdsull2str (take SDS_LLSTR_SIZE stack) n; Some (take l b, args) } else None)"
| "catfmt_arg stack next [] = None"

definition fmt_put :: "(nat \<Rightarrow> char) \<Rightarrow> sdshdr \<Rightarrow> nat \<Rightarrow> string \<Rightarrow> (sdshdr \<times> nat) option" where
  "fmt_put g s i d =
     (let s = (if sh_free s < int (length d) then sdsMakeRoomFor g s (length d) else s) in
      do { b \<leftarrow> mem_write (sh_buf s) i d;
           Some (\<lparr>sh_len = c_int32 (sh_len s + int (length d)),
                  sh_free = c_int32 (sh_free s - int (length d)), sh_buf = b\<rparr>, i + length d) })"

definition fmt_directive :: "char \<Rightarrow> bool" where
  "fmt_directive c \<longleftrightarrow> c \<in> set ''sSiIuU''"

fun catfmt_loop :: "(nat \<Rightarrow> char) \<Rightarrow> string \<Rightarrow> sdshdr \<Rightarrow> nat \<Rightarrow> string \<Rightarrow> fmt_arg list \<Rightarrow> (sdshdr \<times> nat) option" where
  "catfmt_loop g stack s i [] args = Some (s, i)"
| "catfmt_loop g stack s i [c] args =
     (let s = (if sh_free s = 0 then sdsMakeRoomFor g s 1 else s) in
      if c = CHR ''%'' then None else fmt_put g s i [c])"
| "catfmt_loop g stack s i (c # next # f) args =
     (let s = (if sh_free s = 0 then sdsMakeRoomFor g s 1 else s) in
      if c = CHR ''%'' then
        if fmt_directive next then
          do { (d, args) \<leftarrow> catfmt_arg stack next args; (s, i) \<leftarrow> fmt_put g s i d; catfmt_loop g stack s i f args }
        else do { (s, i) \<leftarrow> fmt_put g s i [next]; catfmt_loop g stack s i f args }
      else do { (s, i) \<leftarrow> fmt_put g s i [c]; catfmt_loop g stack s i (next # f) args })"

definition sdscatfmt :: "(nat \<Rightarrow> char) \<Rightarrow> string \<Rightarrow> sdshdr \<Rightarrow> string \<Rightarrow> fmt_arg list \<Rightarrow> sdshdr option" where
  "sdscatfmt g stack s fmt args =
     do { (s, i) \<leftarrow> catfmt_loop g stack s (sdslen s) (cstr fmt) args;
          b \<leftarrow> mem_write (sh_buf s) i [NUL];
          Some (s\<lparr>sh_buf := b\<rparr>) }"

text \<open>What a format stands for.\<close>

fun arg_bytes :: "char \<Rightarrow> fmt_arg list \<Rightarrow> (string \<times> fmt_arg list) option" where
  "arg_bytes next (FA_str t # args) = (if next = CHR ''s'' then Some (cstr t, args) else None)"
| "arg_bytes next (FA_sds t # args) = (if next = CHR ''S'' then Some (sds_str t, args) else None)"
| "arg_bytes next (FA_int n # args) = (if next = CHR ''i'' \<or> next = CHR ''I'' then Some (show_int n, args) else None)"
| "arg_bytes next (FA_uint n # args) = (if next = CHR ''u'' \<or> next = CHR ''U'' then Some (show_nat n, args) else None)"
| "arg_bytes next [] = None"

fun fmt_bytes :: "string \<Rightarrow> fmt_arg list \<Rightarrow> string option" where
  "fmt_bytes [] args = Some []"
| "fmt_bytes [c] args = (if c = CHR ''%'' then None else Some [c])"
| "fmt_bytes (c # next # f) args =
     (if c = CHR ''%'' then
        if fmt_directive next
        then do { (d, args) \<leftarrow> arg_bytes next args; r \<leftarrow> fmt_bytes f args; Some (d @ r) }
        else do { r \<leftarrow> fmt_bytes f args; Some (next # r) }
      else do { r \<leftarrow> fmt_bytes (next # f) args; Some (c # r) })"

fun arg_ok :: "fmt_arg \<Rightarrow> bool" where
  "arg_ok (FA_str t) = True" | "arg_ok (FA_sds t) = sds_ok t"
| "arg_ok (FA_int n) = is_ll n" | "arg_ok (FA_uint n) = (n \<le> ULLONG_MAX)"

text \<open>The string during the loop: well-formed but for the null byte.\<close>

definition sds_pre :: "sdshdr \<Rightarrow> string \<Rightarrow> bool" where
  "sds_pre s t \<longleftrightarrow> (\<exists>r. sh_buf s = t @ r \<and> int (length r) = sh_free s + 1) \<and>
     sh_len s = int (length t) \<and> 0 \<le> sh_free s \<and> sh_len s + sh_free s < 2147483647"

lemma makeroom_pre:
  assumes pre: "sds_pre s t" and n: "length t + n < 1073741824"
  shows "sds_pre (sdsMakeRoomFor g s n) t \<and> int n \<le> sh_free (sdsMakeRoomFor g s n)"
proof -
  obtain r where r: "sh_buf s = t @ r" "int (length r) = sh_free s + 1" using pre by (auto simp: sds_pre_def)
  have h: "sh_len s = int (length t)" "0 \<le> sh_free s" "sh_len s + sh_free s < 2147483647"
    using pre by (auto simp: sds_pre_def)
  then have u: "sdslen s = length t" "sdsavail s = nat (sh_free s)"
    by (simp_all add: sdslen_def sdsavail_def ull_nonneg)
  define newlen where "newlen = (if length t + n < SDS_MAX_PREALLOC then (length t + n) * 2
    else length t + n + SDS_MAX_PREALLOC)"
  have nl: "length t + n \<le> newlen" "newlen < 2147483647"
    using n by (auto simp: newlen_def SDS_MAX_PREALLOC_def)
  have "zrealloc_bytes g (newlen + 1) (t @ r) = t @ zrealloc_bytes (\<lambda>i. g (i + length t)) (newlen + 1 - length t) r"
    by (rule zrealloc_bytes_append) (use nl(1) in simp)
  then have eq: "sdsMakeRoomFor g s n = (if nat (sh_free s) \<ge> n then s else
      s\<lparr>sh_buf := t @ zrealloc_bytes (\<lambda>i. g (i + length t)) (newlen + 1 - length t) r,
        sh_free := int newlen - int (length t)\<rparr>)"
    using r(1) u nl by (simp add: sdsMakeRoomFor_def Let_def newlen_def c_int32_id)
  show ?thesis
  proof (cases "nat (sh_free s) \<ge> n")
    case True
    then show ?thesis using eq pre h by simp
  next
    case False
    then show ?thesis using eq h nl by (auto simp: sds_pre_def)
  qed
qed

lemma fmt_put_pre:
  assumes pre: "sds_pre s t" and n: "length t + length d < 1073741824"
  shows "\<exists>s'. fmt_put g s (length t) d = Some (s', length (t @ d)) \<and> sds_pre s' (t @ d)"
proof -
  define m where "m = (if sh_free s < int (length d) then sdsMakeRoomFor g s (length d) else s)"
  have m: "sds_pre m t" "int (length d) \<le> sh_free m"
    using makeroom_pre [OF assms, of g] pre by (auto simp: m_def)
  then obtain r where r: "sh_buf m = t @ r" "int (length r) = sh_free m + 1" by (auto simp: sds_pre_def)
  have h: "sh_len m = int (length t)" "sh_len m + sh_free m < 2147483647" using m(1) by (auto simp: sds_pre_def)
  have "mem_write (sh_buf m) (length t) d = Some (t @ d @ drop (length d) r)" using r m(2) by (simp add: sds)
  then have "fmt_put g s (length t) d = Some (\<lparr>sh_len = int (length t + length d),
      sh_free = sh_free m - int (length d), sh_buf = t @ d @ drop (length d) r\<rparr>, length t + length d)"
    using h n m(2) by (simp add: fmt_put_def m_def [symmetric] Let_def c_int32_id)
  then show ?thesis using h r m(2) by (auto simp: sds_pre_def)
qed

lemma mem_read_sds: "sds_ok t \<Longrightarrow> mem_read (sh_buf t) 0 (sdslen t) = Some (sds_str t)"
  by (auto simp: sds sdslen_ok sds_str_def sds_ok_def)

lemma catfmt_arg_eq:
  assumes "arg_bytes next args = Some (d, args')" "list_all arg_ok args" "SDS_LLSTR_SIZE \<le> length stack"
  shows "catfmt_arg stack next args = Some (d, args') \<and> list_all arg_ok args'"
proof (cases args)
  case (Cons a as)
  have u: "length (show_nat n) < 21" if "n \<le> ULLONG_MAX" for n
    using length_show_nat_le [of n 20] that by simp
  have i: "length (show_int n) < 21" if "is_ll n" for n
    using length_show_int_ll20 [OF that] by simp
  show ?thesis
  proof (cases a)
    case (FA_int n)
    then show ?thesis using assms Cons i [of n] sdsll2str_eq [of n "take SDS_LLSTR_SIZE stack"]
      by (auto simp: SDS_LLSTR_SIZE_def split: if_splits)
  next
    case (FA_uint n)
    then show ?thesis using assms Cons u [of n] sdsull2str_eq [of n "take SDS_LLSTR_SIZE stack"]
      by (auto simp: SDS_LLSTR_SIZE_def split: if_splits)
  qed (use assms Cons mem_read_sds in \<open>auto split: if_splits\<close>)
qed (use assms in auto)

lemma fmt_room_pre:
  "sds_pre s t \<Longrightarrow> length t + 1 < 1073741824 \<Longrightarrow> sds_pre (if sh_free s = 0 then sdsMakeRoomFor g s 1 else s) t"
  using makeroom_pre [of s t 1 g] by simp

lemma catfmt_loop_pre:
  assumes "fmt_bytes f args = Some out" "list_all arg_ok args" "SDS_LLSTR_SIZE \<le> length stack"
    "sds_pre s t" "length t + length out + 1 < 1073741824"
  shows "\<exists>s'. catfmt_loop g stack s (length t) f args = Some (s', length (t @ out)) \<and> sds_pre s' (t @ out)"
  using assms
proof (induction f args arbitrary: s t out rule: fmt_bytes.induct)
  case (2 c args)
  define m where "m = (if sh_free s = 0 then sdsMakeRoomFor g s 1 else s)"
  have out: "out = [c]" "c \<noteq> CHR ''%''" using 2 by (auto split: if_splits)
  have "sds_pre m t" using 2 out fmt_room_pre [of s t g] by (simp add: m_def)
  from fmt_put_pre [OF this, of "[c]" g] 2 out show ?case
    unfolding catfmt_loop.simps Let_def m_def [symmetric] by simp
next
  case (3 c nx f args)
  define m where "m = (if sh_free s = 0 then sdsMakeRoomFor g s 1 else s)"
  have m: "sds_pre m t" using "3.prems" fmt_room_pre [of s t g] by (simp add: m_def)
  consider (lit) "c \<noteq> CHR ''%''" | (dir) "c = CHR ''%''" "fmt_directive nx"
    | (other) "c = CHR ''%''" "\<not> fmt_directive nx" by blast
  then show ?case
  proof cases
    case lit
    then obtain r where r: "fmt_bytes (nx # f) args = Some r" "out = c # r"
      using "3.prems"(1) by (auto split: bind_splits)
    obtain s1 where s1: "fmt_put g m (length t) [c] = Some (s1, length (t @ [c]))" "sds_pre s1 (t @ [c])"
      using fmt_put_pre [OF m, of "[c]" g] "3.prems"(5) r by auto
    from "3.IH"(3) [OF lit r(1) "3.prems"(2,3) s1(2)] "3.prems"(5) r(2) lit s1(1) show ?thesis
      unfolding catfmt_loop.simps Let_def m_def [symmetric] by simp
  next
    case dir
    then obtain d args' r where r: "arg_bytes nx args = Some (d, args')" "fmt_bytes f args' = Some r" "out = d @ r"
      using "3.prems"(1) by (auto split: bind_splits)
    note ca = catfmt_arg_eq [OF r(1) "3.prems"(2,3)]
    obtain s1 where s1: "fmt_put g m (length t) d = Some (s1, length (t @ d))" "sds_pre s1 (t @ d)"
      using fmt_put_pre [OF m, of d g] "3.prems"(5) r by auto
    from "3.IH"(1) [OF dir r(1) refl r(2) _ "3.prems"(3) s1(2)] ca "3.prems"(5) r(3) dir s1(1) show ?thesis
      unfolding catfmt_loop.simps Let_def m_def [symmetric] by simp
  next
    case other
    then obtain r where r: "fmt_bytes f args = Some r" "out = nx # r"
      using "3.prems"(1) by (auto split: bind_splits)
    obtain s1 where s1: "fmt_put g m (length t) [nx] = Some (s1, length (t @ [nx]))" "sds_pre s1 (t @ [nx])"
      using fmt_put_pre [OF m, of "[nx]" g] "3.prems"(5) r by auto
    from "3.IH"(2) [OF other r(1) "3.prems"(2,3) s1(2)] "3.prems"(5) r(2) other s1(1) show ?thesis
      unfolding catfmt_loop.simps Let_def m_def [symmetric] by simp
  qed
qed simp

lemma sdscatfmt_ok:
  assumes ok: "sds_ok s" and f: "fmt_bytes (cstr fmt) args = Some out"
    and a: "list_all arg_ok args" "SDS_LLSTR_SIZE \<le> length stack" and room: "room_ok s (length out + 1)"
  shows "\<exists>s'. sdscatfmt g stack s fmt args = Some s' \<and> sds_ok s' \<and> sds_str s' = sds_str s @ out"
proof -
  let ?t = "sds_str s"
  obtain r where "sh_buf s = ?t @ NUL # r" "int (length r) = sh_free s" using sds_buf [OF ok] by blast
  then have pre: "sds_pre s ?t" using ok length_sds_str [OF ok]
    by (auto simp: sds_pre_def sds_ok_def)
  have len: "sdslen s = length ?t" using ok length_sds_str [OF ok] by (simp add: sdslen_ok)
  obtain s1 where s1: "catfmt_loop g stack s (length ?t) (cstr fmt) args = Some (s1, length (?t @ out))"
    "sds_pre s1 (?t @ out)"
    using catfmt_loop_pre [OF f a pre] room by (auto simp: room_ok_def)
  then obtain q where q: "sh_buf s1 = (?t @ out) @ q" "int (length q) = sh_free s1 + 1"
    "sh_len s1 = int (length (?t @ out))" "0 \<le> sh_free s1" "sh_len s1 + sh_free s1 < 2147483647"
    by (auto simp: sds_pre_def)
  then obtain c q' where q': "q = c # q'" by (cases q) auto
  have "mem_write (sh_buf s1) (length (?t @ out)) [NUL] = Some ((?t @ out) @ NUL # q')"
    using q(1) q' by (simp add: sds)
  then have "sdscatfmt g stack s fmt args = Some (s1\<lparr>sh_buf := (?t @ out) @ NUL # q'\<rparr>)"
    using s1(1) len by (simp add: sdscatfmt_def)
  moreover have "sds_ok (s1\<lparr>sh_buf := (?t @ out) @ NUL # q'\<rparr>) \<and>
      sds_str (s1\<lparr>sh_buf := (?t @ out) @ NUL # q'\<rparr>) = ?t @ out"
    by (rule sds_okI [where r = q']) (use q q' in simp_all)
  ultimately show ?thesis by blast
qed

section \<open>Comparison and character maps\<close>

fun memcmp :: "string \<Rightarrow> string \<Rightarrow> int" where
  "memcmp (a # as) (b # bs) = (if a = b then memcmp as bs else int (of_char a) - int (of_char b))"
| "memcmp _ _ = 0"

definition sdscmp :: "sdshdr \<Rightarrow> sdshdr \<Rightarrow> int option" where
  "sdscmp s1 s2 =
     (let l1 = sdslen s1; l2 = sdslen s2; minlen = (if l1 < l2 then l1 else l2) in
      do { a \<leftarrow> mem_read (sh_buf s1) 0 minlen;
           b \<leftarrow> mem_read (sh_buf s2) 0 minlen;
           let cmp = memcmp a b;
           Some (if cmp = 0 then c_int32 (int l1 - int l2) else cmp) })"

definition sdstolower :: "sdshdr \<Rightarrow> sdshdr" where
  "sdstolower s = s\<lparr>sh_buf := map c_tolower (take (sdslen s) (sh_buf s)) @ drop (sdslen s) (sh_buf s)\<rparr>"

definition c_toupper :: "char \<Rightarrow> char" where
  "c_toupper c = (let n = (of_char c :: nat) in if 97 \<le> n \<and> n \<le> 122 then char_of (n - 32) else c)"

definition sdstoupper :: "sdshdr \<Rightarrow> sdshdr" where
  "sdstoupper s = s\<lparr>sh_buf := map c_toupper (take (sdslen s) (sh_buf s)) @ drop (sdslen s) (sh_buf s)\<rparr>"

text \<open>The inner loop of \<open>sdsmapchars\<close> stops at the first character that matches.\<close>

fun mapchar :: "string \<Rightarrow> string \<Rightarrow> char \<Rightarrow> char" where
  "mapchar (f # fs) (t # ts) c = (if c = f then t else mapchar fs ts c)"
| "mapchar _ _ c = c"

definition sdsmapchars :: "sdshdr \<Rightarrow> string \<Rightarrow> string \<Rightarrow> nat \<Rightarrow> sdshdr option" where
  "sdsmapchars s from to setlen =
     do { f \<leftarrow> mem_read from 0 setlen; t \<leftarrow> mem_read to 0 setlen;
          Some (s\<lparr>sh_buf := map (mapchar f t) (take (sdslen s) (sh_buf s)) @ drop (sdslen s) (sh_buf s)\<rparr>) }"

fun join_loop :: "(nat \<Rightarrow> char) \<Rightarrow> sdshdr \<Rightarrow> string list \<Rightarrow> string \<Rightarrow> sdshdr option" where
  "join_loop g s [] sep = Some s"
| "join_loop g s (a # argv) sep =
     do { s \<leftarrow> sdscat g s a;
          s \<leftarrow> (if argv \<noteq> [] then sdscat g s sep else Some s);
          join_loop g s argv sep }"

definition sdsjoin :: "(nat \<Rightarrow> char) \<Rightarrow> string list \<Rightarrow> string \<Rightarrow> sdshdr option" where
  "sdsjoin g argv sep = do { s \<leftarrow> sdsempty; join_loop g s argv sep }"

lemma sds_map_ok:
  assumes "sds_ok s"
  shows "sds_ok (s\<lparr>sh_buf := map f (take (sdslen s) (sh_buf s)) @ drop (sdslen s) (sh_buf s)\<rparr>) \<and>
    sds_str (s\<lparr>sh_buf := map f (take (sdslen s) (sh_buf s)) @ drop (sdslen s) (sh_buf s)\<rparr>) = map f (sds_str s)"
proof -
  obtain r where r: "sh_buf s = sds_str s @ NUL # r" "int (length r) = sh_free s"
    using sds_buf [OF assms] by blast
  have l: "sdslen s = length (sds_str s)" "sh_len s = int (length (sds_str s))" "sh_len s + sh_free s < 2147483647"
    using assms length_sds_str [OF assms] by (auto simp: sdslen_ok sds_ok_def)
  show ?thesis by (rule sds_okI [where r = r]) (use r l in simp_all)
qed

lemma memcmp_zero: "length a = length b \<Longrightarrow> memcmp a b = 0 \<longleftrightarrow> a = b"
  by (induction a b rule: memcmp.induct) (auto simp: of_char_eq_iff)

text \<open>The lexicographic order on bytes.\<close>

fun bytes_less :: "string \<Rightarrow> string \<Rightarrow> bool" where
  "bytes_less (a # as) (b # bs) = ((of_char a :: nat) < of_char b \<or> a = b \<and> bytes_less as bs)"
| "bytes_less [] (b # bs) = True"
| "bytes_less as [] = False"

lemma memcmp_order:
  "(let m = min (length a) (length b); c = memcmp (take m a) (take m b);
        r = (if c = 0 then int (length a) - int (length b) else c)
    in (r = 0 \<longleftrightarrow> a = b) \<and> (r < 0 \<longleftrightarrow> bytes_less a b))"
proof (induction a b rule: bytes_less.induct)
  case (1 a as b bs)
  then show ?case by (auto simp: Let_def of_char_eq_iff)
qed (auto simp: Let_def neq_Nil_conv)

lemma sdscmp_ok:
  assumes "sds_ok s1" "sds_ok s2"
  shows "\<exists>c. sdscmp s1 s2 = Some c \<and> (c = 0 \<longleftrightarrow> sds_str s1 = sds_str s2) \<and>
    (c < 0 \<longleftrightarrow> bytes_less (sds_str s1) (sds_str s2))"
proof -
  let ?a = "sds_str s1" and ?b = "sds_str s2"
  obtain r1 r2 where r: "sh_buf s1 = ?a @ NUL # r1" "sh_buf s2 = ?b @ NUL # r2"
    using sds_buf [OF assms(1)] sds_buf [OF assms(2)] by blast
  have l: "sdslen s1 = length ?a" "sdslen s2 = length ?b" "length ?a < 2147483647" "length ?b < 2147483647"
    using assms length_sds_str [OF assms(1)] length_sds_str [OF assms(2)]
    by (auto simp: sdslen_ok sds_ok_def)
  let ?m = "min (length ?a) (length ?b)"
  have c: "c_int32 (int (length ?a) - int (length ?b)) = int (length ?a) - int (length ?b)"
    using l(3,4) by (simp add: c_int32_id)
  have "sdscmp s1 s2 = Some (if memcmp (take ?m ?a) (take ?m ?b) = 0 then int (length ?a) - int (length ?b)
      else memcmp (take ?m ?a) (take ?m ?b))"
    using l(1,2) r c by (simp add: sdscmp_def Let_def sds min_def)
  with memcmp_order [of ?a ?b] show ?thesis by (simp add: Let_def)
qed

fun intercalate :: "string \<Rightarrow> string list \<Rightarrow> string" where
  "intercalate sep [] = []"
| "intercalate sep [t] = t"
| "intercalate sep (t # u # ts) = t @ sep @ intercalate sep (u # ts)"

lemma intercalate_snoc: "ts \<noteq> [] \<Longrightarrow> intercalate sep (ts @ [u]) = intercalate sep ts @ sep @ u"
  by (induction sep ts rule: intercalate.induct) auto

lemma intercalate_split: "intercalate sep (ts @ [a, b]) = intercalate sep (ts @ [a @ sep @ b])"
proof (induction ts)
  case (Cons t ts)
  then show ?case by (cases ts) auto
qed simp

lemma join_loop_ok:
  assumes "sds_ok s" "room_ok s (length (intercalate (cstr sep) (map cstr argv)))"
  shows "\<exists>s'. join_loop g s argv sep = Some s' \<and> sds_ok s' \<and>
    sds_str s' = sds_str s @ intercalate (cstr sep) (map cstr argv)"
  using assms
proof (induction argv arbitrary: s)
  case (Cons a argv)
  have len: "length (cstr a) + (if argv = [] then 0 else length (cstr sep) + length (intercalate (cstr sep) (map cstr argv)))
      = length (intercalate (cstr sep) (map cstr (a # argv)))" by (cases argv) auto
  obtain s1 where s1: "sdscat g s a = Some s1" "sds_ok s1" "sds_str s1 = sds_str s @ cstr a"
    using sdscat_ok [OF Cons.prems(1), of a g] Cons.prems(2) len by (auto simp: room_ok_def split: if_splits)
  show ?case
  proof (cases "argv = []")
    case True
    then show ?thesis using s1 by simp
  next
    case False
    obtain s2 where s2: "sdscat g s1 sep = Some s2" "sds_ok s2" "sds_str s2 = sds_str s1 @ cstr sep"
      using sdscat_ok [OF s1(2), of sep g] Cons.prems(2) len s1(3) False by (auto simp: room_ok_def)
    have "room_ok s2 (length (intercalate (cstr sep) (map cstr argv)))"
      using Cons.prems(2) len s1(3) s2(3) False by (simp add: room_ok_def)
    from Cons.IH [OF s2(2) this] s1 s2 False show ?thesis by (cases argv) auto
  qed
qed auto

lemma sdsjoin_ok:
  assumes "length (intercalate (cstr sep) (map cstr argv)) < 1073741824"
  shows "\<exists>s. sdsjoin g argv sep = Some s \<and> sds_ok s \<and> sds_str s = intercalate (cstr sep) (map cstr argv)"
proof -
  obtain e where e: "sdsempty = Some e" "sds_ok e" "sds_str e = []" using sdsempty_ok by blast
  show ?thesis using join_loop_ok [OF e(2), of sep argv g] assms
    by (simp add: sdsjoin_def room_ok_def e(1,3))
qed

section \<open>Splitting\<close>

text \<open>
  \<open>sdssplitlen\<close>: the scan from position \<open>j\<close> with the current token starting at \<open>start\<close>.
  A separator shorter than one byte, or a negative length, gives NULL (\<open>None\<close>).
\<close>

function split_loop :: "string \<Rightarrow> string \<Rightarrow> nat \<Rightarrow> nat \<Rightarrow> string list \<Rightarrow> string list" where
  "split_loop s sep j start tokens =
     (if sep \<noteq> [] \<and> int j < int (length s) - (int (length sep) - 1) then
        if take (length sep) (drop j s) = sep
        then split_loop s sep (j + length sep) (j + length sep) (tokens @ [take (j - start) (drop start s)])
        else split_loop s sep (Suc j) start tokens
      else tokens @ [drop start s])"
  by pat_completeness auto
termination
  by (relation "measure (\<lambda>(s, sep, j, start, tokens). Suc (length s) - j)") (auto simp: neq_Nil_conv)

declare split_loop.simps [simp del]

definition sdssplitlen :: "string \<Rightarrow> string \<Rightarrow> string list option" where
  "sdssplitlen s sep =
     (if sep = [] then None
      else if s = [] then Some []
      else Some (split_loop s sep 0 0 []))"

definition occurs_at :: "string \<Rightarrow> string \<Rightarrow> nat \<Rightarrow> bool" where
  "occurs_at sep s p \<longleftrightarrow> p + length sep \<le> length s \<and> take (length sep) (drop p s) = sep"

lemma occurs_at_sub:
  assumes "occurs_at sep (take n (drop k s)) p" "sep \<noteq> []"
  shows "occurs_at sep s (k + p) \<and> p + length sep \<le> n"
proof -
  have l: "p + length sep \<le> n" "p + length sep \<le> length s - k" "take (length sep) (drop p (take n (drop k s))) = sep"
    using assms(1) by (auto simp: occurs_at_def)
  moreover have "take (length sep) (drop (k + p) s) = sep"
    using l by (simp add: drop_take min_absorb1 add.commute)
  moreover have "0 < length sep" using assms(2) by simp
  then have "k + p + length sep \<le> length s" using l(2) by linarith
  ultimately show ?thesis by (simp add: occurs_at_def)
qed

lemma split_cond: "sep \<noteq> [] \<Longrightarrow> int j < int (length s) - (int (length sep) - 1) \<longleftrightarrow> j + length sep \<le> length s"
  by (auto simp: neq_Nil_conv)

lemma split_loop_ok:
  assumes "sep \<noteq> []" "start \<le> j" "j \<le> length s"
    "intercalate sep (tokens @ [drop start s]) = s"
    "\<forall>p. start \<le> p \<and> p < j \<longrightarrow> \<not> occurs_at sep s p"
    "\<forall>t \<in> set tokens. \<forall>p. \<not> occurs_at sep t p"
  shows "intercalate sep (split_loop s sep j start tokens) = s \<and>
    (\<forall>t \<in> set (split_loop s sep j start tokens). \<forall>p. \<not> occurs_at sep t p)"
  using assms
proof (induction s sep j start tokens rule: split_loop.induct)
  case (1 s sep j start tokens)
  consider (stop) "\<not> j + length sep \<le> length s" | (hit) "occurs_at sep s j" 
    | (miss) "j + length sep \<le> length s" "\<not> occurs_at sep s j" by (auto simp: occurs_at_def)
  then show ?case
  proof cases
    case stop
    have "\<not> occurs_at sep (drop start s) p" for p
      using occurs_at_sub [of sep "length s" start s p] "1.prems"(1,2,5) stop
      by (cases "start + p < j") (auto simp: occurs_at_def)
    moreover have "split_loop s sep j start tokens = tokens @ [drop start s]"
      using stop "1.prems"(1) by (subst split_loop.simps) (simp add: split_cond)
    ultimately show ?thesis using "1.prems" by auto
  next
    case hit
    let ?tok = "take (j - start) (drop start s)"
    have h: "j + length sep \<le> length s" "take (length sep) (drop j s) = sep"
      using hit by (auto simp: occurs_at_def)
    have "drop start s = ?tok @ sep @ drop (j + length sep) s"
    proof -
      have "drop start s = ?tok @ drop (j - start) (drop start s)" by (rule append_take_drop_id [symmetric])
      moreover have "drop (j - start) (drop start s) = drop j s" using "1.prems"(2) by simp
      moreover have "drop j s = take (length sep) (drop j s) @ drop (length sep) (drop j s)"
        by (rule append_take_drop_id [symmetric])
      ultimately show ?thesis using h(2) by (simp add: add.commute)
    qed
    then have int: "intercalate sep ((tokens @ [?tok]) @ [drop (j + length sep) s]) = s"
      using "1.prems"(4) intercalate_split [of sep tokens ?tok "drop (j + length sep) s"] by simp
    have "\<not> occurs_at sep ?tok p" for p
      using occurs_at_sub [of sep "j - start" start s p] "1.prems"(1,2,5) by (cases sep) auto
    moreover have "split_loop s sep j start tokens =
        split_loop s sep (j + length sep) (j + length sep) (tokens @ [?tok])"
      using h "1.prems"(1) by (subst split_loop.simps) (simp add: split_cond)
    ultimately show ?thesis
      using "1.IH"(1) h int "1.prems" by (simp add: split_cond)
  next
    case miss
    then have "take (length sep) (drop j s) \<noteq> sep" by (auto simp: occurs_at_def)
    moreover have "\<forall>p. start \<le> p \<and> p < Suc j \<longrightarrow> \<not> occurs_at sep s p"
      using "1.prems"(5) miss(2) by (auto simp: less_Suc_eq)
    moreover have "Suc j \<le> length s" using miss(1) "1.prems"(1) by (cases sep) auto
    moreover have "split_loop s sep j start tokens = split_loop s sep (Suc j) start tokens"
      using calculation(1) miss(1) "1.prems"(1) by (subst split_loop.simps) (simp add: split_cond)
    ultimately show ?thesis
      using "1.IH"(2) miss(1) "1.prems" by (simp add: split_cond)
  qed
qed

lemma sdssplitlen_ok:
  assumes "sep \<noteq> []" "s \<noteq> []"
  shows "\<exists>ts. sdssplitlen s sep = Some ts \<and> intercalate sep ts = s \<and>
    (\<forall>t \<in> set ts. \<forall>p. \<not> occurs_at sep t p)"
  using assms split_loop_ok [of sep 0 0 s "[]"] by (simp add: sdssplitlen_def)

section \<open>Appending as an interface\<close>

text \<open>
  What the users of a string rely on: it holds bytes, and bytes can be appended as long as a size
  limit is kept.  A sequence of appends then amounts to one.
\<close>

locale appendable =
  fixes holds :: "'s \<Rightarrow> string \<Rightarrow> bool"
    and append_to :: "'s \<Rightarrow> string \<Rightarrow> 's option"
    and limit :: nat
  assumes append_law: "holds s t \<Longrightarrow> length t + length d < limit \<Longrightarrow>
      \<exists>s'. append_to s d = Some s' \<and> holds s' (t @ d)"
begin

fun append_all :: "'s \<Rightarrow> string list \<Rightarrow> 's option" where
  "append_all s [] = Some s"
| "append_all s (d # ds) = do { s \<leftarrow> append_to s d; append_all s ds }"

lemma append_all_holds:
  assumes "holds s t" "length t + length (concat ds) < limit"
  shows "\<exists>s'. append_all s ds = Some s' \<and> holds s' (t @ concat ds)"
  using assms
proof (induction ds arbitrary: s t)
  case (Cons d ds)
  obtain s1 where s1: "append_to s d = Some s1" "holds s1 (t @ d)"
    using append_law [OF Cons.prems(1), of d] Cons.prems(2) by auto
  from Cons.IH [OF s1(2)] Cons.prems(2) s1(1) show ?case by auto
qed auto

lemma append_all_append: "append_all s (ds @ es) = do { s \<leftarrow> append_all s ds; append_all s es }"
  by (induction ds arbitrary: s) auto

end

definition sds_holds :: "sdshdr \<Rightarrow> string \<Rightarrow> bool" where
  "sds_holds s t \<longleftrightarrow> sds_ok s \<and> sds_str s = t"

interpretation sdsapp: appendable sds_holds "sdscatlen g" 1073741824
  for g
proof (unfold_locales, goal_cases)
  case (1 s t d)
  then show ?case using sdscatlen_ok [of s d g] by (auto simp: sds_holds_def room_ok_def)
qed

section \<open>Properties\<close>

text \<open>
  C20: Appending.  For strings below 2^30 bytes \<open>sdscatlen\<close> writes only inside the allocation,
  whether it reallocates or not, keeps header, free space and null byte consistent, and the new
  content is the old one followed by the appended bytes.
\<close>

theorem sdscatlen_appends:
  assumes "sds_ok s" "length (sds_str s) + length d < 1073741824"
  shows "\<exists>s'. sdscatlen g s d = Some s' \<and> sds_ok s' \<and> sds_str s' = sds_str s @ d"
  using assms by (intro sdscatlen_ok) (simp_all add: room_ok_def)

definition sds_abc :: sdshdr where
  "sds_abc = \<lparr>sh_len = 3, sh_free = 1, sh_buf = ''abc'' @ [NUL, CHR ''?'']\<rparr>"

lemma sds_abc_ok: "sds_ok sds_abc" "sds_str sds_abc = ''abc''"
  by (simp_all add: sds_abc_def sds_ok_def sds_str_def)

theorem sdscatlen_appends_witness:
  "\<exists>s'. sdscatlen (\<lambda>_. CHR ''?'') sds_abc ''defg'' = Some s' \<and> sds_ok s' \<and> sds_str s' = ''abcdefg''"
  using sdscatlen_appends [OF sds_abc_ok(1), of "''defg''" "\<lambda>_. CHR ''?''"] by (simp add: sds_abc_ok)

text \<open>
  Ranges.  For all \<open>int\<close> bounds, negative and out of range ones included, \<open>sdsrange\<close> stays
  inside the allocation and keeps exactly the bytes between the two inclusive positions.
\<close>

theorem sdsrange_exact:
  assumes "sds_ok s" "i \<in> {-2147483648..2147483647}" "j \<in> {-2147483648..2147483647}"
  shows "\<exists>s'. sdsrange s i j = Some s' \<and> sds_ok s' \<and> sds_str s' = range_bytes (sds_str s) i j"
  using assms by (intro sdsrange_ok) auto

theorem sdsrange_exact_witness:
  "\<exists>s'. sdsrange sds_abc 1 (-1) = Some s' \<and> sds_ok s' \<and> sds_str s' = ''bc''"
  using sdsrange_exact [OF sds_abc_ok(1), of 1 "-1"] by (simp add: sds_abc_ok range_bytes_def)

text \<open>
  Trimming removes the longest prefix and the longest suffix of bytes of the set, keeps all
  that is between, and stays inside the allocation, also on empty strings and strings that
  consist of such bytes only.
\<close>

theorem sdstrim_exact:
  assumes "sds_ok s"
  shows "\<exists>s'. sdstrim s cset = Some s' \<and> sds_ok s' \<and>
    sds_str s' = rev (dropWhile (in_cset cset) (rev (dropWhile (in_cset cset) (sds_str s))))"
  using sdstrim_ok [OF assms] by (simp add: trim_bytes_def)

theorem sdstrim_exact_witness:
  "\<exists>s'. sdstrim sds_abc ''xac'' = Some s' \<and> sds_ok s' \<and> sds_str s' = ''b''"
  using sdstrim_exact [OF sds_abc_ok(1), of "''xac''"] by (simp add: sds_abc_ok in_cset_def cstr_def)



text \<open>
  Comparison.  \<open>sdscmp\<close> is zero exactly on equal byte strings and negative exactly when the
  first is lexicographically smaller, null bytes included.
\<close>

theorem sdscmp_order:
  assumes "sds_ok s1" "sds_ok s2"
  shows "\<exists>c. sdscmp s1 s2 = Some c \<and> (c = 0 \<longleftrightarrow> sds_str s1 = sds_str s2) \<and>
    (c < 0 \<longleftrightarrow> bytes_less (sds_str s1) (sds_str s2))"
  using assms by (rule sdscmp_ok)

theorem sdscmp_order_witness: "sdscmp sds_abc sds_abc = Some 0"
  using sdscmp_order [OF sds_abc_ok(1) sds_abc_ok(1)] by auto

text \<open>
  Splitting at a separator.  Joining the tokens of \<open>sdssplitlen\<close> with the separator gives the
  string back, and no token contains the separator.
\<close>

theorem sdssplitlen_join:
  assumes "sep \<noteq> []" "s \<noteq> []"
  shows "\<exists>ts. sdssplitlen s sep = Some ts \<and> intercalate sep ts = s \<and>
    list_all (\<lambda>t. \<forall>p. \<not> occurs_at sep t p) ts"
  using sdssplitlen_ok [OF assms] by (simp add: list_all_iff)

theorem sdssplitlen_join_witness:
  "\<exists>ts. sdssplitlen ''a,b'' '','' = Some ts \<and> intercalate '','' ts = ''a,b''"
  using sdssplitlen_join [of "'',''" "''a,b''"] by auto

end
