(* ===== verification/Prez_Client.thy ===== *)
theory Prez_Client
  imports Prez_Object Prez_Sds
begin

text \<open>
  A client connection of src/src/networking.c, output side: the fixed reply buffer, the list of
  reply objects behind it, the functions that queue replies and the handler that writes them to
  the socket.  The bytes that wait for a client are the buffer followed by the objects of the list.
  Flags are one boolean each.  The memory that a reply list takes is a figure of the allocator, the
  field \<open>ne_mem\<close> of the environment; so are the event loop's answers (\<open>ne_event\<close>) and the results
  of \<open>write\<close>.  Objects are values: the copies that protect shared objects change no content.
\<close>

section \<open>Data\<close>

definition PREZ_REPLY_CHUNK_BYTES :: nat where "PREZ_REPLY_CHUNK_BYTES = 16384"
definition PREZ_SHARED_BULKHDR_LEN :: int where "PREZ_SHARED_BULKHDR_LEN = 32"
definition PREZ_MAX_WRITE_PER_EVENT :: nat where "PREZ_MAX_WRITE_PER_EVENT = 65536"

text \<open>A node of the reply list: an object, or the placeholder with a NULL pointer that a deferred
  length leaves.\<close>

datatype rnode = RObj robj | RDefer

datatype reqtype = REQ_UNKNOWN | REQ_INLINE | REQ_MULTIBULK

record client =
  c_fd :: int
  c_querybuf :: string
  c_reqtype :: reqtype
  c_argv :: "robj list"
  c_cmd :: "string option"
  c_multibulklen :: int
  c_bulklen :: int
  c_buf :: string
  c_reply :: "rnode list"
  c_sentlen :: nat
  c_close_after_reply :: bool
  c_close_asap :: bool
  c_blocked :: bool
  c_writable :: bool
  c_soft_time :: int

record netenv =
  ne_event :: "int \<Rightarrow> bool"           \<comment> \<open>aeCreateFileEvent succeeds\<close>
  ne_mem :: "rnode list \<Rightarrow> nat"       \<comment> \<open>reply_bytes\<close>
  ne_hard :: nat                      \<comment> \<open>client_obuf_limits\<close>
  ne_soft :: nat
  ne_soft_seconds :: int
  ne_unixtime :: int

definition createClient :: "netenv \<Rightarrow> int \<Rightarrow> bool \<times> bool \<times> bool \<Rightarrow> client option" where
  "createClient env fd junk =
     (if fd \<noteq> -1 \<and> \<not> ne_event env fd then None
      else
        let (after, asap, blocked) = junk in
        Some \<lparr>c_fd = fd, c_querybuf = [], c_reqtype = REQ_UNKNOWN, c_argv = [], c_cmd = None,
              c_multibulklen = 0, c_bulklen = -1, c_buf = [], c_reply = [], c_sentlen = 0,
              c_close_after_reply = after, c_close_asap = asap, c_blocked = blocked,
              c_writable = False, c_soft_time = 0\<rparr>)"

section \<open>Output limits\<close>

text \<open>\<open>sizeof(listNode) + sizeof(robj)\<close> is 24 + 16 bytes.\<close>

definition getClientOutputBufferMemoryUsage :: "netenv \<Rightarrow> client \<Rightarrow> nat" where
  "getClientOutputBufferMemoryUsage env c = ne_mem env (c_reply c) + 40 * length (c_reply c)"

definition checkClientOutputBufferLimits :: "netenv \<Rightarrow> client \<Rightarrow> client \<times> bool" where
  "checkClientOutputBufferLimits env c =
     (let used_mem = getClientOutputBufferMemoryUsage env c;
          hard = (ne_hard env \<noteq> 0 \<and> used_mem \<ge> ne_hard env);
          soft = (ne_soft env \<noteq> 0 \<and> used_mem \<ge> ne_soft env)
      in if soft then
           if c_soft_time c = 0 then (c\<lparr>c_soft_time := ne_unixtime env\<rparr>, hard)
           else if ne_unixtime env - c_soft_time c \<le> ne_soft_seconds env then (c, hard)
           else (c, True)
         else (c\<lparr>c_soft_time := 0\<rparr>, hard))"

definition freeClientAsync :: "client \<Rightarrow> client" where
  "freeClientAsync c = (if c_close_asap c then c else c\<lparr>c_close_asap := True\<rparr>)"

definition asyncCloseClientOnOutputBufferLimitReached :: "netenv \<Rightarrow> client \<Rightarrow> client" where
  "asyncCloseClientOnOutputBufferLimitReached env c =
     (if ne_mem env (c_reply c) = 0 \<or> c_close_asap c then c
      else let (c, reached) = checkClientOutputBufferLimits env c in
           if reached then freeClientAsync c else c)"

section \<open>Queueing replies\<close>

definition prepareClientToWrite :: "netenv \<Rightarrow> client \<Rightarrow> client \<times> int" where
  "prepareClientToWrite env c =
     (if c_fd c \<le> 0 then (c, PREZ_ERR)
      else if c_buf c = [] \<and> c_reply c = [] then
        if ne_event env (c_fd c) then (c\<lparr>c_writable := True\<rparr>, PREZ_OK) else (c, PREZ_ERR)
      else (c, PREZ_OK))"

definition addReplyToBuffer :: "client \<Rightarrow> string \<Rightarrow> client \<times> int" where
  "addReplyToBuffer c s =
     (if c_close_after_reply c then (c, PREZ_OK)
      else if c_reply c \<noteq> [] then (c, PREZ_ERR)
      else if length s > PREZ_REPLY_CHUNK_BYTES - length (c_buf c) then (c, PREZ_ERR)
      else (c\<lparr>c_buf := c_buf c @ s\<rparr>, PREZ_OK))"

text \<open>Append to the last object of the list when it is a raw string with room, else add \<open>ob\<close>.\<close>

definition glue_tail :: "rnode list \<Rightarrow> string \<Rightarrow> robj \<Rightarrow> rnode list" where
  "glue_tail rs s ob =
     (case rev rs of
        RObj t # pre \<Rightarrow>
          (case o_ptr t of
             PSds p \<Rightarrow>
               if o_encoding t = ENC_RAW \<and> length p + length s \<le> PREZ_REPLY_CHUNK_BYTES
               then rev pre @ [RObj (t\<lparr>o_ptr := PSds (p @ s)\<rparr>)]
               else rs @ [RObj ob]
           | PInt _ \<Rightarrow> rs @ [RObj ob])
      | _ \<Rightarrow> rs @ [RObj ob])"

definition addReplyObjectToList :: "netenv \<Rightarrow> client \<Rightarrow> robj \<Rightarrow> client" where
  "addReplyObjectToList env c ob =
     (if c_close_after_reply c then c
      else asyncCloseClientOnOutputBufferLimitReached env (c\<lparr>c_reply := glue_tail (c_reply c) (obj_str ob) ob\<rparr>))"

definition addReplySdsToList :: "netenv \<Rightarrow> client \<Rightarrow> string \<Rightarrow> client" where
  "addReplySdsToList env c s =
     (if c_close_after_reply c then c
      else asyncCloseClientOnOutputBufferLimitReached env (c\<lparr>c_reply := glue_tail (c_reply c) s (createObject (PSds s))\<rparr>))"

definition addReplyStringToList :: "netenv \<Rightarrow> client \<Rightarrow> string \<Rightarrow> client" where
  "addReplyStringToList env c s =
     (if c_close_after_reply c then c
      else asyncCloseClientOnOutputBufferLimitReached env (c\<lparr>c_reply := glue_tail (c_reply c) s (createStringObject s)\<rparr>))"

text \<open>\<open>addReply\<close> on a client that is not NULL.  \<open>None\<close> is the panic on an object whose encoding
  does not match its content.\<close>

definition addReply :: "netenv \<Rightarrow> client \<Rightarrow> robj \<Rightarrow> client option" where
  "addReply env c ob =
     (let (c, rc) = prepareClientToWrite env c in
      if rc \<noteq> PREZ_OK then Some c
      else case (o_encoding ob, o_ptr ob) of
        (ENC_INT, PSds _) \<Rightarrow> None
      | (ENC_INT, PInt v) \<Rightarrow>
          (let (c, done) =
             (if c_reply c = [] \<and> PREZ_REPLY_CHUNK_BYTES - length (c_buf c) \<ge> 32 then
                let (len, buf) = ll2string (replicate 32 NUL) 32 v;
                    (c', rc) = addReplyToBuffer c (take len buf)
                in (c', rc = PREZ_OK)
              else (c, False))
           in if done then Some c
              else do { ob \<leftarrow> getDecodedObject ob;
                        let (c, rc) = addReplyToBuffer c (obj_str ob);
                        Some (if rc \<noteq> PREZ_OK then addReplyObjectToList env c ob else c) })
      | (_, PInt _) \<Rightarrow> None
      | (_, PSds s) \<Rightarrow>
          (let (c, rc) = addReplyToBuffer c s in
           Some (if rc \<noteq> PREZ_OK then addReplyObjectToList env c ob else c)))"

definition addReplySds :: "netenv \<Rightarrow> client \<Rightarrow> string \<Rightarrow> client" where
  "addReplySds env c s =
     (let (c, rc) = prepareClientToWrite env c in
      if rc \<noteq> PREZ_OK then c
      else let (c, rc) = addReplyToBuffer c s in
           if rc = PREZ_OK then c else addReplySdsToList env c s)"

definition addReplyString :: "netenv \<Rightarrow> client \<Rightarrow> string \<Rightarrow> client" where
  "addReplyString env c s =
     (let (c, rc) = prepareClientToWrite env c in
      if rc \<noteq> PREZ_OK then c
      else let (c, rc) = addReplyToBuffer c s in
           if rc \<noteq> PREZ_OK then addReplyStringToList env c s else c)"

definition addReplyErrorLength :: "netenv \<Rightarrow> client \<Rightarrow> string \<Rightarrow> client" where
  "addReplyErrorLength env c s =
     (let c = addReplyString env c ''-ERR '';
          c = addReplyString env c s
      in addReplyString env c CRLF)"

definition addReplyError :: "netenv \<Rightarrow> client \<Rightarrow> string \<Rightarrow> client" where
  "addReplyError env c err = addReplyErrorLength env c (cstr err)"

text \<open>The formatted text is the argument; line ends in it become blanks.\<close>

definition blank_newlines :: "string \<Rightarrow> string" where
  "blank_newlines s = map (\<lambda>ch. if ch = CR \<or> ch = LF then CHR '' '' else ch) s"

definition addReplyErrorFormat :: "netenv \<Rightarrow> client \<Rightarrow> string \<Rightarrow> client" where
  "addReplyErrorFormat env c formatted = addReplyErrorLength env c (blank_newlines formatted)"

definition addReplyStatusLength :: "netenv \<Rightarrow> client \<Rightarrow> string \<Rightarrow> client" where
  "addReplyStatusLength env c s =
     (let c = addReplyString env c ''+'';
          c = addReplyString env c s
      in addReplyString env c CRLF)"

definition addReplyStatus :: "netenv \<Rightarrow> client \<Rightarrow> string \<Rightarrow> client" where
  "addReplyStatus env c status = addReplyStatusLength env c (cstr status)"

definition addReplyStatusFormat :: "netenv \<Rightarrow> client \<Rightarrow> string \<Rightarrow> client" where
  "addReplyStatusFormat env c formatted = addReplyStatusLength env c formatted"

text \<open>A deferred length is referred to by its position in the reply list.\<close>

definition addDeferredMultiBulkLength :: "netenv \<Rightarrow> client \<Rightarrow> client \<times> nat option" where
  "addDeferredMultiBulkLength env c =
     (let (c, rc) = prepareClientToWrite env c in
      if rc \<noteq> PREZ_OK then (c, None)
      else (c\<lparr>c_reply := c_reply c @ [RDefer]\<rparr>, Some (length (c_reply c))))"

definition setDeferredMultiBulkLength :: "netenv \<Rightarrow> client \<Rightarrow> nat option \<Rightarrow> int \<Rightarrow> client option" where
  "setDeferredMultiBulkLength env c node len =
     (case node of
        None \<Rightarrow> Some c
      | Some n \<Rightarrow>
          if n < length (c_reply c) then
            let hdr = ''*'' @ show_int len @ CRLF;
                alone = (c_reply c)[n := RObj (createObject (PSds hdr))]
            in do { rs \<leftarrow> (case drop (Suc n) (c_reply c) of
                        RObj nx # rest \<Rightarrow>
                          (case o_ptr nx of
                             PSds p \<Rightarrow> Some (take n (c_reply c) @ RObj (createObject (PSds (hdr @ p))) # rest)
                           | PInt v \<Rightarrow> if v = 0 then Some alone else None)
                      | _ \<Rightarrow> Some alone);
                    Some (asyncCloseClientOnOutputBufferLimitReached env (c\<lparr>c_reply := rs\<rparr>)) }
          else None)"

text \<open>The shared objects of src/src/prez.c that replies use.\<close>

definition shared_mbulkhdr :: "int \<Rightarrow> robj option" where
  "shared_mbulkhdr j = (if 0 \<le> j \<and> j < PREZ_SHARED_BULKHDR_LEN
     then Some (createObject (PSds (''*'' @ show_int j @ CRLF))) else None)"

definition shared_bulkhdr :: "int \<Rightarrow> robj option" where
  "shared_bulkhdr j = (if 0 \<le> j \<and> j < PREZ_SHARED_BULKHDR_LEN
     then Some (createObject (PSds (''$'' @ show_int j @ CRLF))) else None)"

definition shared_crlf :: robj where "shared_crlf = createObject (PSds CRLF)"
definition shared_ok :: robj where "shared_ok = createObject (PSds (''+OK'' @ CRLF))"
definition shared_nullbulk :: robj where "shared_nullbulk = createObject (PSds (''$-1'' @ CRLF))"
definition shared_czero :: robj where "shared_czero = createObject (PSds ('':0'' @ CRLF))"
definition shared_cone :: robj where "shared_cone = createObject (PSds ('':1'' @ CRLF))"
definition shared_syntaxerr :: robj where "shared_syntaxerr = createObject (PSds (''-ERR syntax error'' @ CRLF))"

text \<open>\<open>None\<close> is an index outside the arrays of shared headers, which a negative number gives.\<close>

definition addReplyLongLongWithPrefix :: "netenv \<Rightarrow> client \<Rightarrow> int \<Rightarrow> char \<Rightarrow> client option" where
  "addReplyLongLongWithPrefix env c n prefix =
     (if prefix = CHR ''*'' \<and> n < PREZ_SHARED_BULKHDR_LEN then
        do { ob \<leftarrow> shared_mbulkhdr n; addReply env c ob }
      else if prefix = CHR ''$'' \<and> n < PREZ_SHARED_BULKHDR_LEN then
        do { ob \<leftarrow> shared_bulkhdr n; addReply env c ob }
      else
        let (len, buf) = ll2string (replicate 127 NUL) 127 n in
        Some (addReplyString env c (prefix # take len buf @ CRLF)))"

definition addReplyLongLong :: "netenv \<Rightarrow> client \<Rightarrow> int \<Rightarrow> client option" where
  "addReplyLongLong env c n =
     (if n = 0 then addReply env c shared_czero
      else if n = 1 then addReply env c shared_cone
      else addReplyLongLongWithPrefix env c n CHR '':'')"

definition addReplyMultiBulkLen :: "netenv \<Rightarrow> client \<Rightarrow> int \<Rightarrow> client option" where
  "addReplyMultiBulkLen env c len =
     (if len < PREZ_SHARED_BULKHDR_LEN then do { ob \<leftarrow> shared_mbulkhdr len; addReply env c ob }
      else addReplyLongLongWithPrefix env c len CHR ''*'')"

text \<open>C division truncates towards zero.\<close>

definition c_div10 :: "int \<Rightarrow> int" where
  "c_div10 n = (if n < 0 then - ((- n) div 10) else n div 10)"

function count_digits :: "int \<Rightarrow> nat \<Rightarrow> nat" where
  "count_digits n len = (if c_div10 n \<noteq> 0 then count_digits (c_div10 n) (Suc len) else len)"
  by pat_completeness auto
termination
  by (relation "measure (\<lambda>(n, _). nat \<bar>n\<bar>)") (auto simp: c_div10_def split: if_splits)

declare count_digits.simps [simp del]

definition addReplyBulkLen :: "netenv \<Rightarrow> client \<Rightarrow> robj \<Rightarrow> client option" where
  "addReplyBulkLen env c ob =
     (let len = (case o_ptr ob of
                   PSds s \<Rightarrow> length s
                 | PInt n \<Rightarrow> if n < 0 then count_digits (ll (- n)) 2 else count_digits n 1)
      in if int len < PREZ_SHARED_BULKHDR_LEN then do { ob \<leftarrow> shared_bulkhdr (int len); addReply env c ob }
         else addReplyLongLongWithPrefix env c (int len) CHR ''$'')"

definition addReplyBulk :: "netenv \<Rightarrow> client \<Rightarrow> robj \<Rightarrow> client option" where
  "addReplyBulk env c ob =
     do { c \<leftarrow> addReplyBulkLen env c ob;
          c \<leftarrow> addReply env c ob;
          addReply env c shared_crlf }"

definition addReplyBulkCBuffer :: "netenv \<Rightarrow> client \<Rightarrow> string \<Rightarrow> client option" where
  "addReplyBulkCBuffer env c p =
     do { c \<leftarrow> addReplyLongLongWithPrefix env c (int (length p)) CHR ''$'';
          addReply env (addReplyString env c p) shared_crlf }"

definition addReplyBulkCString :: "netenv \<Rightarrow> client \<Rightarrow> string option \<Rightarrow> client option" where
  "addReplyBulkCString env c s =
     (case s of None \<Rightarrow> addReply env c shared_nullbulk | Some s \<Rightarrow> addReplyBulkCBuffer env c (cstr s))"

definition addReplyBulkLongLong :: "netenv \<Rightarrow> client \<Rightarrow> int \<Rightarrow> client option" where
  "addReplyBulkLongLong env c n =
     (let (len, buf) = ll2string (replicate 64 NUL) 64 n in addReplyBulkCBuffer env c (take len buf))"

definition copyClientOutputBuffer :: "client \<Rightarrow> client \<Rightarrow> client" where
  "copyClientOutputBuffer dst src = dst\<lparr>c_reply := c_reply src, c_buf := c_buf src\<rparr>"

section \<open>Writing to the socket\<close>

text \<open>
  The results of the successive calls of \<open>write\<close> are the list \<open>ws\<close>: a call never takes more than
  it is offered, and once the list is used up the socket would block.  The loop returns the client,
  the last result, the bytes that went out and the results that are left; \<open>None\<close> is a NULL or
  integer object at the head of the list.  \<open>over\<close> says that the server is over its memory limit.
\<close>

fun sock_write :: "int list \<Rightarrow> string \<Rightarrow> int \<times> int list" where
  "sock_write [] offered = (-1, [])"
| "sock_write (w # ws) offered = (min w (int (length offered)), ws)"

lemma sock_write_shrinks: "sock_write ws s = (n, ws') \<Longrightarrow> 0 < n \<Longrightarrow> length ws' < length ws"
  by (cases ws) auto

function send_loop :: "bool \<Rightarrow> client \<Rightarrow> int list \<Rightarrow> int \<Rightarrow> string \<Rightarrow> (client \<times> int \<times> string \<times> int list) option" where
  "send_loop over c ws nw out =
     (if c_buf c = [] \<and> c_reply c = [] then Some (c, nw, out, ws)
      else if c_buf c \<noteq> [] then
        let offered = drop (c_sentlen c) (c_buf c);
            (n, ws') = sock_write ws offered
        in if n \<le> 0 then Some (c, n, out, ws')
           else
             let sent = c_sentlen c + nat n;
                 out = out @ take (nat n) offered;
                 c = (if sent = length (c_buf c) then c\<lparr>c_buf := [], c_sentlen := 0\<rparr> else c\<lparr>c_sentlen := sent\<rparr>)
             in if length out > PREZ_MAX_WRITE_PER_EVENT \<and> \<not> over then Some (c, n, out, ws')
                else send_loop over c ws' n out
      else
        (case hd (c_reply c) of
           RDefer \<Rightarrow> None
         | RObj ob \<Rightarrow>
             (case o_ptr ob of
                PInt _ \<Rightarrow> None
              | PSds s \<Rightarrow>
                  if s = [] then send_loop over (c\<lparr>c_reply := tl (c_reply c)\<rparr>) ws nw out
                  else
                    let offered = drop (c_sentlen c) s;
                        (n, ws') = sock_write ws offered
                    in if n \<le> 0 then Some (c, n, out, ws')
                       else
                         let sent = c_sentlen c + nat n;
                             out = out @ take (nat n) offered;
                             c = (if sent = length s then c\<lparr>c_reply := tl (c_reply c), c_sentlen := 0\<rparr>
                                  else c\<lparr>c_sentlen := sent\<rparr>)
                         in if length out > PREZ_MAX_WRITE_PER_EVENT \<and> \<not> over then Some (c, n, out, ws')
                            else send_loop over c ws' n out)))"
  by pat_completeness auto
termination
  by (relation "measure (\<lambda>(over, c, ws, nw, out). length ws + length (c_reply c))")
    (auto dest: sock_write_shrinks [OF sym] split: if_splits
      intro: add_less_le_mono simp: Let_def neq_Nil_conv less_Suc_eq_le)

declare send_loop.simps [simp del]

text \<open>\<open>sendReplyToClient\<close>: the client, or \<open>None\<close> when it was freed, and the bytes written.  \<open>again\<close>
  says that a failed write means EAGAIN.\<close>

definition sendReplyToClient :: "bool \<Rightarrow> bool \<Rightarrow> client \<Rightarrow> int list \<Rightarrow> (client option \<times> string) option" where
  "sendReplyToClient over again c ws =
     do { (c, nw, out, _) \<leftarrow> send_loop over c ws 0 [];
          if nw = -1 \<and> \<not> again then Some (None, out)
          else if c_buf c = [] \<and> c_reply c = [] then
            Some (if c_close_after_reply c then None else Some (c\<lparr>c_sentlen := 0, c_writable := False\<rparr>), out)
          else Some (Some c, out) }"

section \<open>The bytes that wait for a client\<close>

fun rn_str :: "rnode \<Rightarrow> string" where
  "rn_str (RObj ob) = obj_str ob"
| "rn_str RDefer = []"

definition client_out :: "client \<Rightarrow> string" where
  "client_out c = c_buf c @ concat (map rn_str (c_reply c))"

definition sds_node :: "rnode \<Rightarrow> bool" where
  "sds_node r = (case r of RObj ob \<Rightarrow> (case o_ptr ob of PSds _ \<Rightarrow> True | PInt _ \<Rightarrow> False) | RDefer \<Rightarrow> False)"

lemma sds_node_simps [simp]: "sds_node (RObj ob) \<longleftrightarrow> (\<exists>s. o_ptr ob = PSds s)" "\<not> sds_node RDefer"
  by (auto simp: sds_node_def split: obj_ptr.split)

definition out_ok :: "client \<Rightarrow> bool" where
  "out_ok c \<longleftrightarrow> length (c_buf c) \<le> PREZ_REPLY_CHUNK_BYTES \<and> (\<forall>r \<in> set (c_reply c). sds_node r)"

text \<open>A connected client that is not being closed.\<close>

definition accepting :: "netenv \<Rightarrow> client \<Rightarrow> bool" where
  "accepting env c \<longleftrightarrow> 0 < c_fd c \<and> ne_event env (c_fd c) \<and> \<not> c_close_after_reply c"

text \<open>The input side of a client, which no reply touches.\<close>

definition input_side :: "client \<Rightarrow> string \<times> reqtype \<times> robj list \<times> string option \<times> int \<times> int \<times> bool \<times> nat" where
  "input_side c = (c_querybuf c, c_reqtype c, c_argv c, c_cmd c, c_multibulklen c, c_bulklen c, c_blocked c, c_sentlen c)"

definition queued :: "netenv \<Rightarrow> client \<Rightarrow> string \<Rightarrow> client \<Rightarrow> bool" where
  "queued env c s c' \<longleftrightarrow> out_ok c' \<and> accepting env c' \<and> client_out c' = client_out c @ s \<and> input_side c' = input_side c"

definition ready :: "netenv \<Rightarrow> client \<Rightarrow> bool" where
  "ready env c \<longleftrightarrow> out_ok c \<and> accepting env c"

lemma queued_ready: "queued env c s c' \<Longrightarrow> ready env c'"
  by (simp add: queued_def ready_def)

lemma queued_trans: "queued env c s c' \<Longrightarrow> queued env c' t c'' \<Longrightarrow> queued env c (s @ t) c''"
  by (simp add: queued_def)

lemma queued_fields:
  assumes "queued env c s c'"
  shows "c_querybuf c' = c_querybuf c" "c_argv c' = c_argv c" "c_cmd c' = c_cmd c" "c_reqtype c' = c_reqtype c"
    "c_multibulklen c' = c_multibulklen c" "c_bulklen c' = c_bulklen c" "c_blocked c' = c_blocked c"
    "client_out c' = client_out c @ s"
  using assms by (simp_all add: queued_def input_side_def)

lemma rev_last_cases: "rs = [] \<or> (\<exists>pre r. rs = pre @ [r])"
  by (cases rs rule: rev_cases) auto

lemma glue_tail_str:
  assumes "obj_str ob = s"
  shows "concat (map rn_str (glue_tail rs s ob)) = concat (map rn_str rs) @ s"
  using rev_last_cases [of rs] assms
  by (auto simp: glue_tail_def obj_str_def split: rnode.splits obj_ptr.splits)

lemma glue_tail_nodes:
  assumes "\<forall>r \<in> set rs. sds_node r" "o_ptr ob = PSds s'"
  shows "\<forall>r \<in> set (glue_tail rs s ob). sds_node r"
  using rev_last_cases [of rs] assms
  by (auto simp: glue_tail_def split: rnode.splits obj_ptr.splits if_splits)

lemma async_close_frame:
  "client_out (asyncCloseClientOnOutputBufferLimitReached env c) = client_out c"
  "out_ok (asyncCloseClientOnOutputBufferLimitReached env c) = out_ok c"
  "accepting env' (asyncCloseClientOnOutputBufferLimitReached env c) = accepting env' c"
  "input_side (asyncCloseClientOnOutputBufferLimitReached env c) = input_side c"
  by (auto simp: asyncCloseClientOnOutputBufferLimitReached_def checkClientOutputBufferLimits_def freeClientAsync_def
      client_out_def out_ok_def accepting_def input_side_def Let_def)

lemma prepare_ready:
  assumes "ready env c"
  shows "\<exists>c'. prepareClientToWrite env c = (c', PREZ_OK) \<and> queued env c [] c' \<and> c_buf c' = c_buf c \<and> c_reply c' = c_reply c"
  using assms
  by (auto simp: prepareClientToWrite_def ready_def queued_def accepting_def out_ok_def client_out_def input_side_def)

lemma to_buffer_ready:
  assumes "ready env c"
  shows "(\<exists>c'. addReplyToBuffer c s = (c', PREZ_OK) \<and> queued env c s c') \<or> addReplyToBuffer c s = (c, PREZ_ERR)"
  using assms
  by (auto simp: addReplyToBuffer_def ready_def queued_def accepting_def out_ok_def client_out_def input_side_def)

text \<open>The three list functions differ in the object they add only.\<close>

lemma list_append_queued:
  assumes "ready env c" "o_ptr ob = PSds s"
  shows "queued env c s (asyncCloseClientOnOutputBufferLimitReached env (c\<lparr>c_reply := glue_tail (c_reply c) s ob\<rparr>))"
proof -
  have "queued env c s (c\<lparr>c_reply := glue_tail (c_reply c) s ob\<rparr>)"
    using assms glue_tail_str [of ob s "c_reply c"] glue_tail_nodes [of "c_reply c" ob s s]
    by (simp add: queued_def ready_def out_ok_def client_out_def accepting_def input_side_def obj_str_def)
  then show ?thesis by (simp add: queued_def async_close_frame)
qed

lemma create_ptr: "o_ptr (createStringObject s) = PSds s" "o_ptr (createObject p) = p"
  by (simp_all add: createStringObject_def createEmbeddedStringObject_def createRawStringObject_def createObject_def)

lemma to_list_queued:
  assumes "ready env c"
  shows "queued env c s (addReplyStringToList env c s)" "queued env c s (addReplySdsToList env c s)"
    "o_ptr ob = PSds s \<Longrightarrow> queued env c s (addReplyObjectToList env c ob)"
  using assms list_append_queued [OF assms] create_ptr
  by (auto simp: addReplyStringToList_def addReplySdsToList_def addReplyObjectToList_def obj_str_def ready_def accepting_def)

lemma addReplyString_queued:
  assumes "ready env c"
  shows "queued env c s (addReplyString env c s)"
proof -
  obtain c1 where c1: "prepareClientToWrite env c = (c1, PREZ_OK)" "queued env c [] c1"
    using prepare_ready [OF assms] by blast
  note r = queued_ready [OF c1(2)]
  from to_buffer_ready [OF r, of s] to_list_queued(1) [OF r, of s] queued_trans [OF c1(2), of s] c1(1)
  show ?thesis by (auto simp: addReplyString_def)
qed

lemma addReplySds_queued:
  assumes "ready env c"
  shows "queued env c s (addReplySds env c s)"
proof -
  obtain c1 where c1: "prepareClientToWrite env c = (c1, PREZ_OK)" "queued env c [] c1"
    using prepare_ready [OF assms] by blast
  note r = queued_ready [OF c1(2)]
  from to_buffer_ready [OF r, of s] to_list_queued(2) [OF r, of s] queued_trans [OF c1(2), of s] c1(1)
  show ?thesis by (auto simp: addReplySds_def)
qed

lemma addReply_queued:
  assumes r0: "ready env c" and wf: "obj_wf ob"
  shows "\<exists>c'. addReply env c ob = Some c' \<and> queued env c (obj_str ob) c'"
proof -
  obtain c1 where c1: "prepareClientToWrite env c = (c1, PREZ_OK)" "queued env c [] c1"
    using prepare_ready [OF r0] by blast
  note r = queued_ready [OF c1(2)]
  have str: "\<exists>c'. queued env c1 s c' \<and>
      (let (c2, rc) = addReplyToBuffer c1 s in if rc \<noteq> PREZ_OK then addReplyObjectToList env c2 d else c2) = c'"
    if "o_ptr d = PSds s" for s d
    using to_buffer_ready [OF r, of s] to_list_queued(3) [OF r that] by auto
  show ?thesis
  proof (cases "o_ptr ob")
    case (PSds s)
    then have "o_encoding ob \<noteq> ENC_INT" "obj_str ob = s" using wf by (auto simp: obj_wf_def obj_str_def)
    with PSds str [OF PSds] c1 queued_trans [OF c1(2), of s] show ?thesis
      by (cases "o_encoding ob") (auto simp: addReply_def Let_def split: prod.splits)
  next
    case (PInt v)
    then have v: "is_ll v" "o_encoding ob = ENC_INT" "obj_str ob = show_int v" using wf by (auto simp: obj_wf_def obj_str_def)
    obtain d where d: "getDecodedObject ob = Some d" "o_ptr d = PSds (show_int v)"
      using getDecodedObject_str [OF wf] v(3) by auto
    have ls: "ll2string (replicate 32 NUL) 32 v =
      (length (show_int v), show_int v @ NUL # replicate (32 - Suc (length (show_int v))) NUL)"
      using ll2string_32 [OF v(1), of 32] by simp
    have "obj_str d = show_int v" using d(2) by (simp add: obj_str_def)
    with str [OF d(2)] to_buffer_ready [OF r, of "show_int v"] d(1) queued_trans [OF c1(2), of "show_int v"] show ?thesis
      by (auto simp: addReply_def Let_def c1(1) v PInt ls split: prod.splits)
  qed
qed

lemma obj_wf_createObject: "obj_wf (createObject (PSds s))" "obj_str (createObject (PSds s)) = s"
  by (simp_all add: obj_wf_def createObject_def obj_str_def)

lemma addReply_shared:
  assumes "ready env c"
  shows "\<exists>c'. addReply env c (createObject (PSds s)) = Some c' \<and> queued env c s c'"
  using addReply_queued [OF assms, of "createObject (PSds s)"] by (simp add: obj_wf_createObject)

lemma addReplyErrorLength_queued:
  assumes "ready env c"
  shows "queued env c (''-ERR '' @ s @ CRLF) (addReplyErrorLength env c s)"
proof -
  have 1: "queued env c ''-ERR '' (addReplyString env c ''-ERR '')" by (rule addReplyString_queued [OF assms])
  note 2 = addReplyString_queued [OF queued_ready [OF 1], of s]
  note 3 = addReplyString_queued [OF queued_ready [OF 2], of CRLF]
  show ?thesis using queued_trans [OF queued_trans [OF 1 2] 3] by (simp add: addReplyErrorLength_def Let_def)
qed

lemma addReplyLongLongWithPrefix_queued:
  assumes r: "ready env c" and n: "is_ll n" and neg: "p = CHR ''*'' \<or> p = CHR ''$'' \<Longrightarrow> 0 \<le> n"
  shows "\<exists>c'. addReplyLongLongWithPrefix env c n p = Some c' \<and> queued env c (p # show_int n @ CRLF) c'"
proof -
  have ls: "ll2string (replicate 127 NUL) 127 n =
    (length (show_int n), show_int n @ NUL # replicate (127 - Suc (length (show_int n))) NUL)"
    using ll2string_32 [OF n, of 127] by simp
  show ?thesis
    using addReply_shared [OF r, of "p # show_int n @ CRLF"] addReplyString_queued [OF r, of "p # show_int n @ CRLF"] neg
    by (auto simp: addReplyLongLongWithPrefix_def ls shared_mbulkhdr_def shared_bulkhdr_def)
qed

lemma addReplyLongLong_queued:
  assumes "ready env c" "is_ll n"
  shows "\<exists>c'. addReplyLongLong env c n = Some c' \<and> queued env c (CHR '':'' # show_int n @ CRLF) c'"
proof -
  have one: "show_int 1 = ''1''" by code_simp
  show ?thesis
    using addReplyLongLongWithPrefix_queued [OF assms, of "CHR '':''"]
      addReply_shared [OF assms(1), of "'':0'' @ CRLF"] addReply_shared [OF assms(1), of "'':1'' @ CRLF"]
    by (auto simp: addReplyLongLong_def shared_czero_def shared_cone_def show_int_0 one)
qed

lemma show_nat_step: "10 \<le> n \<Longrightarrow> length (show_nat n) = Suc (length (show_nat (n div 10)))"
  by (subst show_nat.simps) simp

lemma count_digits_nat: "count_digits (int n) len = len + length (show_nat n) - 1"
proof (induction n arbitrary: len rule: less_induct)
  case (less n)
  show ?case
  proof (cases "n < 10")
    case True
    then have "c_div10 (int n) = 0" "length (show_nat n) = 1" by (auto simp: c_div10_def show_nat.simps)
    then show ?thesis by (subst count_digits.simps) simp
  next
    case False
    then have d: "c_div10 (int n) = int (n div 10)" "n div 10 \<noteq> 0" by (auto simp: c_div10_def zdiv_int)
    then have "count_digits (int n) len = count_digits (int (n div 10)) (Suc len)"
      by (subst count_digits.simps) simp
    with less.IH [of "n div 10" "Suc len"] False show_nat_step [of n] show ?thesis
      by (cases "show_nat (n div 10)") auto
  qed
qed

lemma count_digits_neg: "count_digits (- n) len = count_digits n len"
proof (induction n len rule: count_digits.induct)
  case (1 n len)
  have "c_div10 (- n) = - c_div10 n" by (auto simp: c_div10_def)
  with 1 show ?case by (subst (1 2) count_digits.simps) simp
qed

lemma bulk_len_int:
  assumes "is_ll n"
  shows "(if n < 0 then count_digits (ll (- n)) 2 else count_digits n 1) = length (show_int n)"
proof (cases "n < 0")
  case True
  have "ll (- n) = - n \<or> ll (- n) = n"
  proof (cases "n = LLONG_MIN")
    case False
    then have "is_ll (- n)" using assms True by (simp add: is_ll_def)
    then show ?thesis by simp
  qed (simp add: ll_def)
  then have "count_digits (ll (- n)) 2 = count_digits (int (nat (- n))) 2"
    using True count_digits_neg [of n] by auto
  then show ?thesis using True count_digits_nat [of "nat (- n)" 2]
    by (cases "show_nat (nat (- n))") (auto simp: show_int_def)
next
  case False
  then show ?thesis using count_digits_nat [of "nat n" 1] by (simp add: show_int_def)
qed

definition bulk_str :: "string \<Rightarrow> string" where
  "bulk_str s = ''$'' @ show_int (int (length s)) @ CRLF @ s @ CRLF"

lemma addReplyBulkLen_queued:
  assumes r: "ready env c" and wf: "obj_wf ob" and len: "int (length (obj_str ob)) \<le> LLONG_MAX"
  shows "\<exists>c'. addReplyBulkLen env c ob = Some c' \<and> queued env c (''$'' @ show_int (int (length (obj_str ob))) @ CRLF) c'"
proof -
  have l: "(case o_ptr ob of PSds s \<Rightarrow> length s
      | PInt n \<Rightarrow> if n < 0 then count_digits (ll (- n)) 2 else count_digits n 1) = length (obj_str ob)"
  proof (cases "o_ptr ob")
    case (PInt v)
    then have "is_ll v" using wf by (simp add: obj_wf_def)
    from bulk_len_int [OF this] PInt show ?thesis by (simp add: obj_str_def)
  qed (simp add: obj_str_def)
  have i: "is_ll (int (length (obj_str ob)))" using len by (simp add: is_ll_def)
  show ?thesis
    using addReplyLongLongWithPrefix_queued [OF r i, of "CHR ''$''"] addReply_shared [OF r]
    unfolding addReplyBulkLen_def l Let_def by (auto simp: shared_bulkhdr_def)
qed

lemma addReplyBulk_queued:
  assumes r: "ready env c" and wf: "obj_wf ob" and len: "int (length (obj_str ob)) \<le> LLONG_MAX"
  shows "\<exists>c'. addReplyBulk env c ob = Some c' \<and> queued env c (bulk_str (obj_str ob)) c'"
proof -
  obtain c1 where 1: "addReplyBulkLen env c ob = Some c1" "queued env c (''$'' @ show_int (int (length (obj_str ob))) @ CRLF) c1"
    using addReplyBulkLen_queued [OF assms] by blast
  obtain c2 where 2: "addReply env c1 ob = Some c2" "queued env c1 (obj_str ob) c2"
    using addReply_queued [OF queued_ready [OF 1(2)] wf] by blast
  obtain c3 where 3: "addReply env c2 shared_crlf = Some c3" "queued env c2 CRLF c3"
    using addReply_shared [OF queued_ready [OF 2(2)]] unfolding shared_crlf_def by blast
  show ?thesis
    using 1(1) 2(1) 3(1) queued_trans [OF queued_trans [OF 1(2) 2(2)] 3(2)]
    by (simp add: addReplyBulk_def bulk_str_def)
qed

text \<open>A client is a second place that text is appended to.\<close>

definition client_holds :: "netenv \<Rightarrow> client \<Rightarrow> string \<Rightarrow> bool" where
  "client_holds env c t \<longleftrightarrow> ready env c \<and> client_out c = t"

interpretation netapp: appendable "client_holds env" "\<lambda>c d. Some (addReplyString env c d)" 1073741824
  for env
proof (unfold_locales, goal_cases)
  case (1 c t d)
  then have "queued env c d (addReplyString env c d)" by (simp add: client_holds_def addReplyString_queued)
  with 1 queued_ready [OF this] show ?case by (simp add: client_holds_def queued_def)
qed

section \<open>What the socket receives\<close>

text \<open>The position of the next byte to send lies inside the first nonempty piece of output.\<close>

definition sent_ok :: "client \<Rightarrow> bool" where
  "sent_ok c \<longleftrightarrow> out_ok c \<and>
     (if c_buf c \<noteq> [] then c_sentlen c < length (c_buf c)
      else case c_reply c of [] \<Rightarrow> c_sentlen c = 0 | r # _ \<Rightarrow> c_sentlen c = 0 \<or> c_sentlen c < length (rn_str r))"

definition pending :: "client \<Rightarrow> string" where
  "pending c = drop (c_sentlen c) (client_out c)"

lemma sock_write_bound: "sock_write ws s = (n, ws') \<Longrightarrow> n \<le> int (length s)"
  by (cases ws) auto

lemma pending_buf:
  assumes "sent_ok c" "c_buf c \<noteq> []" "0 < n" "n \<le> length (drop (c_sentlen c) (c_buf c))"
  defines "c' \<equiv> (if c_sentlen c + n = length (c_buf c) then c\<lparr>c_buf := [], c_sentlen := 0\<rparr> else c\<lparr>c_sentlen := c_sentlen c + n\<rparr>)"
  shows "sent_ok c' \<and> pending c = take n (drop (c_sentlen c) (c_buf c)) @ pending c'"
proof -
  have "c_sentlen c < length (c_buf c)" using assms(1,2) by (simp add: sent_ok_def)
  moreover have "take n (drop (c_sentlen c) (c_buf c)) @ drop (c_sentlen c + n) (c_buf c) = drop (c_sentlen c) (c_buf c)"
    using append_take_drop_id [of n "drop (c_sentlen c) (c_buf c)"] by (simp add: add.commute)
  ultimately show ?thesis
    using assms by (auto simp: c'_def sent_ok_def pending_def client_out_def out_ok_def split: list.split)
qed

lemma pending_obj:
  assumes "sent_ok c" "c_buf c = []" "c_reply c = RObj ob # rs" "o_ptr ob = PSds s" "0 < n" "n \<le> length (drop (c_sentlen c) s)"
  defines "c' \<equiv> (if c_sentlen c + n = length s then c\<lparr>c_reply := rs, c_sentlen := 0\<rparr> else c\<lparr>c_sentlen := c_sentlen c + n\<rparr>)"
  shows "sent_ok c' \<and> pending c = take n (drop (c_sentlen c) s) @ pending c'"
proof -
  have s: "rn_str (RObj ob) = s" using assms(4) by (simp add: obj_str_def)
  have "take n (drop (c_sentlen c) s) @ drop (c_sentlen c + n) s = drop (c_sentlen c) s"
    using append_take_drop_id [of n "drop (c_sentlen c) s"] by (simp add: add.commute)
  with s show ?thesis
    using assms by (auto simp: c'_def sent_ok_def pending_def client_out_def out_ok_def split: list.split)
qed

lemma pending_skip:
  assumes "sent_ok c" "c_buf c = []" "c_reply c = RObj ob # rs" "o_ptr ob = PSds []"
  shows "sent_ok (c\<lparr>c_reply := rs\<rparr>) \<and> pending (c\<lparr>c_reply := rs\<rparr>) = pending c"
  using assms by (auto simp: sent_ok_def pending_def client_out_def out_ok_def obj_str_def split: list.split)

text \<open>A run of the loop from \<open>c\<close> that has written \<open>out\<close> before.\<close>

definition send_run :: "client \<Rightarrow> string \<Rightarrow> (client \<times> int \<times> string \<times> int list) option \<Rightarrow> bool" where
  "send_run c out r \<longleftrightarrow> (\<exists>c' nw' sent ws'. r = Some (c', nw', out @ sent, ws') \<and> sent_ok c' \<and>
     pending c = sent @ pending c' \<and> c_close_after_reply c' = c_close_after_reply c)"

lemma send_run_stop: "sent_ok c \<Longrightarrow> send_run c out (Some (c, nw, out, ws))"
  by (simp add: send_run_def)

lemma send_run_step:
  assumes "sent_ok c'" "pending c = w @ pending c'" "c_close_after_reply c' = c_close_after_reply c"
    and "\<not> P \<Longrightarrow> send_run c' (out @ w) r"
  shows "send_run c out (if P then Some (c', n, out @ w, ws') else r)"
proof (cases P)
  case False
  with assms(4) obtain c2 nw2 sent ws2 where "r = Some (c2, nw2, (out @ w) @ sent, ws2)" "sent_ok c2"
    "pending c' = sent @ pending c2" "c_close_after_reply c2 = c_close_after_reply c'" unfolding send_run_def by blast
  with assms(2,3) False show ?thesis by (auto simp: send_run_def)
qed (use assms in \<open>auto simp: send_run_def\<close>)

lemma send_loop_ok: "sent_ok c \<Longrightarrow> send_run c out (send_loop over c ws nw out)"
proof (induction over c ws nw out rule: send_loop.induct)
  case (1 over c ws nw out)
  consider (empty) "c_buf c = []" "c_reply c = []" | (buf) "c_buf c \<noteq> []"
    | (obj) ob rs s where "c_buf c = []" "c_reply c = RObj ob # rs" "o_ptr ob = PSds s"
    using "1.prems" by (cases "c_reply c") (auto simp: sent_ok_def out_ok_def sds_node_def split: rnode.splits obj_ptr.splits)
  then show ?case
  proof cases
    case empty
    with "1.prems" show ?thesis by (subst send_loop.simps) (simp add: send_run_stop)
  next
    case buf
    let ?off = "drop (c_sentlen c) (c_buf c)"
    obtain n ws' where w: "sock_write ws ?off = (n, ws')" by (cases "sock_write ws ?off")
    define c' where "c' = (if c_sentlen c + nat n = length (c_buf c) then c\<lparr>c_buf := [], c_sentlen := 0\<rparr>
        else c\<lparr>c_sentlen := c_sentlen c + nat n\<rparr>)"
    have eq: "send_loop over c ws nw out = (if n \<le> 0 then Some (c, n, out, ws')
        else if length (out @ take (nat n) ?off) > PREZ_MAX_WRITE_PER_EVENT \<and> \<not> over
        then Some (c', n, out @ take (nat n) ?off, ws') else send_loop over c' ws' n (out @ take (nat n) ?off))"
      using buf w by (subst send_loop.simps) (simp add: c'_def Let_def)
    show ?thesis
    proof (cases "n \<le> 0")
      case False
      then have step: "sent_ok c'" "pending c = take (nat n) ?off @ pending c'"
        using pending_buf [OF "1.prems" buf, of "nat n"] sock_write_bound [OF w] by (auto simp: c'_def)
      show ?thesis unfolding eq if_not_P [OF False]
        by (rule send_run_step) (use step "1.IH"(1) [OF _ buf refl w [symmetric] refl False refl refl c'_def _ step(1)] buf in
            \<open>auto simp: c'_def\<close>)
    qed (simp add: eq send_run_stop "1.prems")
  next
    case obj
    show ?thesis
    proof (cases "s = []")
      case True
      then have "send_loop over c ws nw out = send_loop over (c\<lparr>c_reply := rs\<rparr>) ws nw out"
        using obj by (subst send_loop.simps) simp
      with "1.IH"(2) [of ob s] pending_skip [OF "1.prems" obj(1,2)] obj True show ?thesis by (simp add: send_run_def)
    next
      case ne: False
      let ?off = "drop (c_sentlen c) s"
      obtain n ws' where w: "sock_write ws ?off = (n, ws')" by (cases "sock_write ws ?off")
      define c' where "c' = (if c_sentlen c + nat n = length s then c\<lparr>c_reply := rs, c_sentlen := 0\<rparr>
          else c\<lparr>c_sentlen := c_sentlen c + nat n\<rparr>)"
      have eq: "send_loop over c ws nw out = (if n \<le> 0 then Some (c, n, out, ws')
          else if length (out @ take (nat n) ?off) > PREZ_MAX_WRITE_PER_EVENT \<and> \<not> over
          then Some (c', n, out @ take (nat n) ?off, ws') else send_loop over c' ws' n (out @ take (nat n) ?off))"
        using obj ne w by (subst send_loop.simps) (simp add: c'_def Let_def)
      show ?thesis
      proof (cases "n \<le> 0")
        case False
        then have step: "sent_ok c'" "pending c = take (nat n) ?off @ pending c'"
          using pending_obj [OF "1.prems" obj, of "nat n"] sock_write_bound [OF w] by (auto simp: c'_def)
        have c'': "c' = (if c_sentlen c + nat n = length s then c\<lparr>c_reply := tl (c_reply c), c_sentlen := 0\<rparr>
            else c\<lparr>c_sentlen := c_sentlen c + nat n\<rparr>)" using obj(2) by (simp add: c'_def)
        show ?thesis unfolding eq if_not_P [OF False]
          by (rule send_run_step) (use step "1.IH"(3) [OF _ _ _ obj(3) ne refl w [symmetric] refl False refl refl c'' _ step(1)] obj in
              \<open>auto simp: c'_def\<close>)
      qed (simp add: eq send_run_stop "1.prems")
    qed
  qed
qed

section \<open>Properties\<close>

definition net_ideal :: netenv where
  "net_ideal = \<lparr>ne_event = \<lambda>_. True, ne_mem = \<lambda>rs. length (concat (map rn_str rs)), ne_hard = 0, ne_soft = 0,
     ne_soft_seconds = 0, ne_unixtime = 0\<rparr>"

definition new_client :: client where
  "new_client = \<lparr>c_fd = 7, c_querybuf = [], c_reqtype = REQ_UNKNOWN, c_argv = [], c_cmd = None,
     c_multibulklen = 0, c_bulklen = -1, c_buf = [], c_reply = [], c_sentlen = 0,
     c_close_after_reply = False, c_close_asap = False, c_blocked = False, c_writable = False, c_soft_time = 0\<rparr>"

lemma new_client_created: "createClient net_ideal 7 (False, False, False) = Some new_client"
  by (simp add: createClient_def net_ideal_def new_client_def)

lemma new_client_ready: "ready net_ideal new_client"
  by (simp add: ready_def out_ok_def accepting_def new_client_def net_ideal_def)

text \<open>C32: whatever the results of \<open>write\<close> (short writes, a full socket, an error), the handler of a
  writable socket never faults; the bytes it wrote are the next bytes of the client's output, and
  unless the client is freed the rest is still there, in order, with nothing lost or repeated.\<close>

theorem sendReplyToClient_stream:
  assumes "sent_ok c"
  shows "\<exists>r out. sendReplyToClient over again c ws = Some (r, out) \<and>
    (case r of None \<Rightarrow> \<exists>rest. pending c = out @ rest | Some c' \<Rightarrow> sent_ok c' \<and> pending c = out @ pending c')"
proof -
  obtain c' nw' out ws' where r: "send_loop over c ws 0 [] = Some (c', nw', out, ws')" "sent_ok c'"
    "pending c = out @ pending c'" using send_loop_ok [OF assms, of "[]" over ws 0] by (auto simp: send_run_def)
  have "c_buf c' = [] \<Longrightarrow> c_reply c' = [] \<Longrightarrow> sent_ok (c'\<lparr>c_sentlen := 0, c_writable := False\<rparr>) \<and>
      pending (c'\<lparr>c_sentlen := 0, c_writable := False\<rparr>) = pending c'"
    using r(2) by (simp add: sent_ok_def out_ok_def pending_def client_out_def)
  with r show ?thesis by (auto simp: sendReplyToClient_def)
qed

theorem sendReplyToClient_stream_witness:
  "\<exists>r out. sendReplyToClient False True (new_client\<lparr>c_buf := ''+OK'', c_reply := [RObj (createObject (PSds ''abc''))]\<rparr>) [2, 5, 1] =
      Some (r, out) \<and>
    (case r of None \<Rightarrow> \<exists>rest. ''+OKabc'' = out @ rest | Some c' \<Rightarrow> sent_ok c' \<and> ''+OKabc'' = out @ pending c')"
proof -
  let ?c = "new_client\<lparr>c_buf := ''+OK'', c_reply := [RObj (createObject (PSds ''abc''))]\<rparr>"
  have ok: "sent_ok ?c" and pe: "pending ?c = ''+OKabc''"
    by (simp_all add: sent_ok_def out_ok_def new_client_def pending_def client_out_def create_ptr obj_str_def PREZ_REPLY_CHUNK_BYTES_def)
  from sendReplyToClient_stream [OF ok, of False True "[2, 5, 1]"] show ?thesis unfolding pe .
qed

text \<open>a bulk reply queues exactly the length in decimal, the bytes of the object and the line ends,
  behind everything queued before, for string and for integer objects, and keeps the client ready for
  more output.\<close>

theorem addReplyBulk_exact:
  assumes "ready env c" "obj_wf ob" "int (length (obj_str ob)) \<le> LLONG_MAX"
  shows "\<exists>c'. addReplyBulk env c ob = Some c' \<and> ready env c' \<and> client_out c' = client_out c @ bulk_str (obj_str ob)"
  using addReplyBulk_queued [OF assms] queued_ready by (auto simp: queued_def)

theorem addReplyBulk_exact_witness:
  "\<exists>c'. addReplyBulk net_ideal new_client (createStringObjectFromLongLong (-15)) = Some c' \<and> ready net_ideal c' \<and>
    client_out c' = ''$3'' @ CRLF @ ''-15'' @ CRLF"
proof -
  have s: "show_int (-15) = ''-15''" "bulk_str ''-15'' = ''$3'' @ CRLF @ ''-15'' @ CRLF" by code_simp+
  have "client_out new_client = []" by (simp add: client_out_def new_client_def)
  with addReplyBulk_exact [OF new_client_ready, of "createStringObjectFromLongLong (-15)"] s show ?thesis
    by (simp add: is_ll_def)
qed

text \<open>C38: a formatted error queues one line only: the text between the prefix and the final line end
  has no carriage return and no line feed, whatever the client sent that was put into it.\<close>

theorem addReplyErrorFormat_one_line:
  assumes "ready env c"
  shows "\<exists>body. client_out (addReplyErrorFormat env c s) = client_out c @ ''-ERR '' @ body @ CRLF \<and>
    CR \<notin> set body \<and> LF \<notin> set body \<and> length body = length s"
proof -
  have "CR \<notin> set (blank_newlines s) \<and> LF \<notin> set (blank_newlines s)" by (auto simp: blank_newlines_def)
  moreover have "length (blank_newlines s) = length s" by (simp add: blank_newlines_def)
  moreover have "client_out (addReplyErrorFormat env c s) = client_out c @ ''-ERR '' @ blank_newlines s @ CRLF"
    using addReplyErrorLength_queued [OF assms, of "blank_newlines s"]
    by (simp add: addReplyErrorFormat_def queued_def)
  ultimately show ?thesis by blast
qed

theorem addReplyErrorFormat_one_line_witness:
  "\<exists>body. client_out (addReplyErrorFormat net_ideal new_client (''unknown'' @ CRLF @ ''command'')) =
      client_out new_client @ ''-ERR '' @ body @ CRLF \<and> CR \<notin> set body \<and> LF \<notin> set body \<and> length body = 16"
proof -
  have len: "length (''unknown'' @ CRLF @ ''command'') = 16" by simp
  from addReplyErrorFormat_one_line [OF new_client_ready, of "''unknown'' @ CRLF @ ''command''"]
  show ?thesis unfolding len .
qed

end
