(* ===== verification/Prez_Args.thy ===== *)
theory Prez_Args
  imports Prez_Sds
begin

text \<open>
  Argument lines of src/src/sds.c: \<open>sdssplitargs\<close>, which splits a line into arguments with
  double quotes, single quotes and escapes, and \<open>sdscatrepr\<close>, which quotes a string.  Strings
  under construction are byte lists here: they are only appended to, by \<open>sdscatlen\<close>.  Quoting
  then splitting gives the strings back, and lines of plain words are split at their blanks.
\<close>

section \<open>Quoting\<close>

definition c_isprint :: "char \<Rightarrow> bool" where
  "c_isprint c \<longleftrightarrow> (let n = (of_char c :: nat) in 32 \<le> n \<and> n \<le> 126)"

definition hex_char :: "nat \<Rightarrow> char" where
  "hex_char n = (if n < 10 then char_of (48 + n) else char_of (87 + n))"

definition repr_char :: "char \<Rightarrow> string" where
  "repr_char c =
     (if c = CHR 0x5C \<or> c = CHR 0x22 then [CHR 0x5C, c]
      else if c = CHR 0x0A then [CHR 0x5C, CHR ''n'']
      else if c = CHR 0x0D then [CHR 0x5C, CHR ''r'']
      else if c = CHR 0x09 then [CHR 0x5C, CHR ''t'']
      else if c = CHR 0x07 then [CHR 0x5C, CHR ''a'']
      else if c = CHR 0x08 then [CHR 0x5C, CHR ''b'']
      else if c_isprint c then [c]
      else [CHR 0x5C, CHR ''x'', hex_char (of_char c div 16), hex_char (of_char c mod 16)])"

definition sdscatrepr :: "string \<Rightarrow> string \<Rightarrow> string" where
  "sdscatrepr s p = s @ [CHR 0x22] @ concat (map repr_char p) @ [CHR 0x22]"

section \<open>Splitting a line\<close>

definition is_hex_digit :: "char \<Rightarrow> bool" where
  "is_hex_digit c \<longleftrightarrow> (let n = (of_char c :: nat) in
     (48 \<le> n \<and> n \<le> 57) \<or> (97 \<le> n \<and> n \<le> 102) \<or> (65 \<le> n \<and> n \<le> 70))"

definition hex_digit_to_int :: "char \<Rightarrow> nat" where
  "hex_digit_to_int c = (let n = (of_char c :: nat) in
     if 48 \<le> n \<and> n \<le> 57 then n - 48 else if 97 \<le> n \<and> n \<le> 102 then n - 87
     else if 65 \<le> n \<and> n \<le> 70 then n - 55 else 0)"

definition unescape :: "char \<Rightarrow> char" where
  "unescape c =
     (if c = CHR ''n'' then CHR 0x0A else if c = CHR ''r'' then CHR 0x0D else if c = CHR ''t'' then CHR 0x09
      else if c = CHR ''b'' then CHR 0x08 else if c = CHR ''a'' then CHR 0x07 else c)"

text \<open>The byte at \<open>p[k]\<close> of a C string; the null byte ends it.\<close>

definition char_at :: "string \<Rightarrow> nat \<Rightarrow> char" where
  "char_at p k = (if k < length p then p ! k else NUL)"

lemma char_at_simps [simp]: "char_at (c # p) 0 = c" "char_at (c # p) (Suc k) = char_at p k" "char_at [] k = NUL"
  by (simp_all add: char_at_def)

lemma char_at_numeral [simp]: "char_at (c # p) (numeral k) = char_at p (pred_numeral k)"
  by (simp add: numeral_eq_Suc)

datatype quote = Unquoted | Inq | Insq

text \<open>
  The inner loop: the token collected so far and the rest of the line.  \<open>None\<close> is the
  error exit for unbalanced quotes.
\<close>

function split_token :: "quote \<Rightarrow> string \<Rightarrow> string \<Rightarrow> (string \<times> string) option" where
  "split_token Inq cur p =
     (if char_at p 0 = CHR 0x5C \<and> char_at p 1 = CHR ''x'' \<and> is_hex_digit (char_at p 2) \<and> is_hex_digit (char_at p 3)
      then split_token Inq
             (cur @ [char_of (hex_digit_to_int (char_at p 2) * 16 + hex_digit_to_int (char_at p 3))]) (drop 4 p)
      else if char_at p 0 = CHR 0x5C \<and> char_at p 1 \<noteq> NUL
      then split_token Inq (cur @ [unescape (char_at p 1)]) (drop 2 p)
      else if char_at p 0 = CHR 0x22
      then (if char_at p 1 \<noteq> NUL \<and> \<not> c_isspace (char_at p 1) then None else Some (cur, drop 1 p))
      else if char_at p 0 = NUL then None
      else split_token Inq (cur @ [char_at p 0]) (drop 1 p))"
| "split_token Insq cur p =
     (if char_at p 0 = CHR 0x5C \<and> char_at p 1 = CHR 0x27
      then split_token Insq (cur @ [CHR 0x27]) (drop 2 p)
      else if char_at p 0 = CHR 0x27
      then (if char_at p 1 \<noteq> NUL \<and> \<not> c_isspace (char_at p 1) then None else Some (cur, drop 1 p))
      else if char_at p 0 = NUL then None
      else split_token Insq (cur @ [char_at p 0]) (drop 1 p))"
| "split_token Unquoted cur p =
     (if char_at p 0 \<in> {CHR '' '', CHR 0x0A, CHR 0x0D, CHR 0x09, NUL} then Some (cur, drop 1 p)
      else if char_at p 0 = CHR 0x22 then split_token Inq cur (drop 1 p)
      else if char_at p 0 = CHR 0x27 then split_token Insq cur (drop 1 p)
      else split_token Unquoted (cur @ [char_at p 0]) (drop 1 p))"
  by pat_completeness auto
termination
  by (relation "measure (\<lambda>(q, cur, p). length p)") (auto simp: char_at_def split: if_splits)

declare split_token.simps [simp del]

lemma split_token_shrinks: "split_token q cur p = Some (t, r) \<Longrightarrow> length r \<le> length p - 1"
proof (induction "length p" arbitrary: q cur p rule: less_induct)
  case less
  show ?case
  proof (cases "p = []")
    case True
    with less.prems show ?thesis by (cases q) (simp_all add: split_token.simps)
  next
    case False
    have IH: "length r \<le> length p - 1" if "0 < k" "split_token q' cur' (drop k p) = Some (t, r)" for k q' cur'
      using less.hyps [OF _ that(2)] that(1) False by simp
    show ?thesis
    proof (cases q)
      case Unquoted
      with less.prems IH [of 1] show ?thesis
        unfolding Unquoted split_token.simps(3) [of cur p] by (simp only: split: if_split_asm) auto
    next
      case Inq
      with less.prems IH [of 1] IH [of 2] IH [of 4] show ?thesis
        unfolding Inq split_token.simps(1) [of cur p] by (simp only: split: if_split_asm) auto
    next
      case Insq
      with less.prems IH [of 1] IH [of 2] show ?thesis
        unfolding Insq split_token.simps(2) [of cur p] by (simp only: split: if_split_asm) auto
    qed
  qed
qed

text \<open>The outer loop; \<open>vector\<close> is the array of tokens built so far.\<close>

function splitargs_loop :: "string list \<Rightarrow> string \<Rightarrow> string list option" where
  "splitargs_loop vector p =
     (let p = dropWhile c_isspace p in
      if p = [] then Some vector
      else case split_token Unquoted [] p of
             None \<Rightarrow> None
           | Some (current, p) \<Rightarrow> splitargs_loop (vector @ [current]) p)"
  by pat_completeness auto
termination
proof (relation "measure (\<lambda>(vector, p). length p)", goal_cases)
  case (2 vector p p' x2 current r)
  then have "length r \<le> length p' - 1" "length p' \<le> length p"
    using split_token_shrinks [of Unquoted "[]" p' current r] by (auto simp: length_dropWhile_le)
  moreover have "0 < length p'" using 2 by simp
  ultimately have "length r < length p" by linarith
  with 2 show ?case by simp
qed simp

declare splitargs_loop.simps [simp del]

definition sdssplitargs :: "string \<Rightarrow> string list option" where
  "sdssplitargs line = splitargs_loop [] (cstr line)"

section \<open>Round trips\<close>

lemma hex_char_props:
  assumes "n < 16"
  shows "is_hex_digit (hex_char n)" "hex_digit_to_int (hex_char n) = n"
  using assms by (auto simp: is_hex_digit_def hex_char_def hex_digit_to_int_def Let_def)

lemma of_char_lt_256: "(of_char c :: nat) < 256"
  using of_char_mod_256 [of c] by (metis mod_less_divisor zero_less_numeral)

definition at_end :: "string \<Rightarrow> bool" where
  "at_end r \<longleftrightarrow> r = [] \<or> c_isspace (hd r)"

lemma split_token_repr_char:
  "split_token Inq cur (repr_char c @ p) = split_token Inq (cur @ [c]) p"
proof -
  consider (esc) "c \<in> set [CHR 0x5C, CHR 0x22, CHR 0x0A, CHR 0x0D, CHR 0x09, CHR 0x07, CHR 0x08]"
    | (print) "c \<notin> set [CHR 0x5C, CHR 0x22, CHR 0x0A, CHR 0x0D, CHR 0x09, CHR 0x07, CHR 0x08]" "c_isprint c"
    | (hex) "c \<notin> set [CHR 0x5C, CHR 0x22, CHR 0x0A, CHR 0x0D, CHR 0x09, CHR 0x07, CHR 0x08]" "\<not> c_isprint c"
    by blast
  then show ?thesis
  proof cases
    case esc
    then show ?thesis unfolding list.set insert_iff empty_iff
      by (elim disjE FalseE) (subst split_token.simps, simp add: repr_char_def unescape_def)+
  next
    case print
    then have "c \<noteq> NUL" by (auto simp: c_isprint_def)
    with print show ?thesis by (subst split_token.simps) (simp add: repr_char_def)
  next
    case hex
    let ?n = "of_char c :: nat"
    have "?n < 16 * 16" using of_char_lt_256 [of c] by simp
    then have "?n div 16 < 16" "?n mod 16 < 16" by (simp_all add: less_mult_imp_div_less)
    note h = hex_char_props [OF this(1)] hex_char_props [OF this(2)]
    have "?n div 16 * 16 + ?n mod 16 = ?n" by simp
    then have "char_of (?n div 16 * 16 + ?n mod 16) = c" by (simp only: char_of_char)
    with hex h show ?thesis by (subst split_token.simps) (simp add: repr_char_def)
  qed
qed

lemma split_token_quoted:
  assumes "at_end r"
  shows "split_token Inq cur (concat (map repr_char t) @ CHR 0x22 # r) = Some (cur @ t, r)"
proof (induction t arbitrary: cur)
  case Nil
  then show ?case using assms by (subst split_token.simps) (cases r, auto simp: at_end_def)
next
  case (Cons c t)
  then show ?case by (simp add: split_token_repr_char)
qed

lemma split_token_repr:
  assumes "at_end r"
  shows "split_token Unquoted [] (sdscatrepr [] t @ r) = Some (t, r)"
  using split_token_quoted [OF assms, of "[]" t]
  by (subst split_token.simps) (simp add: sdscatrepr_def)

text \<open>A word that needs no quoting.\<close>

definition plain_word :: "string \<Rightarrow> bool" where
  "plain_word w \<longleftrightarrow> w \<noteq> [] \<and> list_all (\<lambda>c. \<not> c_isspace c \<and> c \<noteq> CHR 0x22 \<and> c \<noteq> CHR 0x27 \<and> c \<noteq> NUL) w"

lemma split_token_plain:
  assumes "list_all (\<lambda>c. \<not> c_isspace c \<and> c \<noteq> CHR 0x22 \<and> c \<noteq> CHR 0x27 \<and> c \<noteq> NUL) w"
    "r = [] \<or> hd r = CHR '' '' \<or> hd r = LF"
  shows "split_token Unquoted cur (w @ r) = Some (cur @ w, drop 1 r)"
  using assms(1)
proof (induction w arbitrary: cur)
  case Nil
  then show ?case using assms(2) by (subst split_token.simps) (cases r, auto)
next
  case (Cons c w)
  then have "c \<notin> {CHR '' '', CHR 0x0A, CHR 0x0D, CHR 0x09, NUL}" by (auto simp: c_isspace_def)
  with Cons show ?case by (subst split_token.simps) simp
qed

lemma splitargs_words:
  assumes tok: "\<And>w r. w \<in> set ws \<Longrightarrow> r = [] \<or> hd r = CHR '' '' \<Longrightarrow>
      \<exists>r'. split_token Unquoted [] (enc w @ r) = Some (w, r') \<and> dropWhile c_isspace r' = dropWhile c_isspace r"
    and hd: "\<And>w. w \<in> set ws \<Longrightarrow> enc w \<noteq> [] \<and> \<not> c_isspace (hd (enc w))"
    and p: "dropWhile c_isspace p = dropWhile c_isspace (intercalate '' '' (map enc ws))"
  shows "splitargs_loop vector p = Some (vector @ ws)"
  using assms
proof (induction ws arbitrary: vector p)
  case Nil
  then show ?case by (subst splitargs_loop.simps) simp
next
  case (Cons w ws)
  define r where "r = (if ws = [] then [] else CHR '' '' # intercalate '' '' (map enc ws))"
  have int: "intercalate '' '' (map enc (w # ws)) = enc w @ r" by (cases ws) (auto simp: r_def)
  have hw: "enc w \<noteq> []" "\<not> c_isspace (hd (enc w))" using Cons.prems(2) by auto
  then have dw: "dropWhile c_isspace p = enc w @ r"
    using Cons.prems(3) unfolding int by (cases "enc w") auto
  obtain r' where r': "split_token Unquoted [] (enc w @ r) = Some (w, r')"
    "dropWhile c_isspace r' = dropWhile c_isspace r"
  proof -
    have "r = [] \<or> hd r = CHR '' ''" by (simp add: r_def)
    with Cons.prems(1) [of w r] that show thesis by auto
  qed
  have "dropWhile c_isspace r = dropWhile c_isspace (intercalate '' '' (map enc ws))"
    by (auto simp: r_def c_isspace_def)
  then have "splitargs_loop (vector @ [w]) r' = Some ((vector @ [w]) @ ws)"
    using Cons.prems(1,2) r'(2) by (intro Cons.IH) auto
  with dw r'(1) hw(1) show ?case by (subst splitargs_loop.simps) (simp add: Let_def)
qed

lemma repr_char_no_nul: "NUL \<notin> set (repr_char c)"
proof -
  have "hex_char n \<noteq> NUL" if "n < 16" for n
    using hex_char_props(1) [OF that] by (auto simp: is_hex_digit_def)
  moreover have "(of_char c :: nat) < 16 * 16" using of_char_lt_256 [of c] by simp
  then have "(of_char c :: nat) div 16 < 16" "(of_char c :: nat) mod 16 < 16"
    by (simp_all add: less_mult_imp_div_less)
  ultimately have "hex_char (of_char c div 16) \<noteq> NUL" "hex_char (of_char c mod 16) \<noteq> NUL" by blast+
  then show ?thesis by (auto simp: repr_char_def c_isprint_def)
qed

lemma intercalate_no_nul:
  "NUL \<notin> set sep \<Longrightarrow> \<forall>t \<in> set ts. NUL \<notin> set t \<Longrightarrow> NUL \<notin> set (intercalate sep ts)"
  by (induction sep ts rule: intercalate.induct) auto

lemma sdssplitargs_plain_words:
  assumes "list_all plain_word ws"
  shows "sdssplitargs (intercalate '' '' ws) = Some ws"
proof -
  have "\<forall>t \<in> set ws. NUL \<notin> set t" using assms by (auto simp: list_all_iff plain_word_def)
  then have "cstr (intercalate '' '' ws) = intercalate '' '' ws" by (intro cstr_id intercalate_no_nul) auto
  moreover have "splitargs_loop [] (intercalate '' '' ws) = Some ([] @ ws)"
  proof (rule splitargs_words [where enc = "\<lambda>w. w"])
    fix w r assume "w \<in> set ws" "r = [] \<or> hd r = CHR '' ''"
    then show "\<exists>r'. split_token Unquoted [] (w @ r) = Some (w, r') \<and> dropWhile c_isspace r' = dropWhile c_isspace r"
      using assms split_token_plain [of w r "[]"]
      by (cases r) (auto simp: list_all_iff plain_word_def c_isspace_def)
  next
    fix w assume "w \<in> set ws"
    then show "w \<noteq> [] \<and> \<not> c_isspace (hd w)"
      using assms by (cases w) (auto simp: list_all_iff plain_word_def)
  qed simp
  ultimately show ?thesis by (simp add: sdssplitargs_def)
qed

text \<open>A newline at the end of the line makes no difference.\<close>

lemma splitargs_line:
  "list_all plain_word ws \<Longrightarrow> splitargs_loop vector (intercalate '' '' ws @ [LF]) = Some (vector @ ws)"
proof (induction ws arbitrary: vector)
  case Nil
  then show ?case by (subst splitargs_loop.simps) (simp add: c_isspace_def splitargs_loop.simps)
next
  case (Cons w ws)
  define r where "r = (if ws = [] then [LF] else CHR '' '' # intercalate '' '' ws @ [LF])"
  have line: "intercalate '' '' (w # ws) @ [LF] = w @ r" by (cases ws) (auto simp: r_def)
  have w: "w \<noteq> []" "\<not> c_isspace (hd w)" using Cons.prems by (cases w; auto simp: plain_word_def)+
  then have "dropWhile c_isspace (w @ r) = w @ r" by (cases w) auto
  moreover have "split_token Unquoted [] (w @ r) = Some (w, drop 1 r)"
    using Cons.prems split_token_plain [of w r "[]"] by (auto simp: plain_word_def r_def)
  moreover have "splitargs_loop (vector @ [w]) (drop 1 r) = Some (vector @ w # ws)"
    using Cons by (cases ws) (auto simp: r_def splitargs_loop.simps [of _ "[]"])
  ultimately show ?case using w(1) unfolding line by (subst splitargs_loop.simps) (simp add: Let_def)
qed

lemma sdssplitargs_plain_line:
  assumes "list_all plain_word ws"
  shows "sdssplitargs (intercalate '' '' ws @ [LF]) = Some ws"
proof -
  have "\<forall>t \<in> set ws. NUL \<notin> set t" using assms by (auto simp: list_all_iff plain_word_def)
  then have "NUL \<notin> set (intercalate '' '' ws @ [LF])" using intercalate_no_nul [of "'' ''" ws] by auto
  then show ?thesis using splitargs_line [OF assms, of "[]"] by (simp add: sdssplitargs_def cstr_id)
qed

section \<open>Properties\<close>

text \<open>
  C19: Quoting and splitting are inverse.  A line of strings quoted by \<open>sdscatrepr\<close> and separated
  by blanks is accepted by \<open>sdssplitargs\<close>, which returns exactly those strings, whatever bytes
  they contain.
\<close>

theorem sdssplitargs_sdscatrepr:
  "sdssplitargs (intercalate '' '' (map (sdscatrepr []) args)) = Some args"
proof -
  let ?l = "intercalate '' '' (map (sdscatrepr []) args)"
  have "\<forall>t \<in> set (map (sdscatrepr []) args). NUL \<notin> set t"
    using repr_char_no_nul by (auto simp: sdscatrepr_def)
  then have "cstr ?l = ?l" by (intro cstr_id intercalate_no_nul) auto
  moreover have "splitargs_loop [] ?l = Some ([] @ args)"
  proof (rule splitargs_words [where enc = "sdscatrepr []"])
    fix w r :: string assume "r = [] \<or> hd r = CHR '' ''"
    then have "at_end r" by (cases r) (auto simp: at_end_def c_isspace_def)
    from split_token_repr [OF this, of w]
    show "\<exists>r'. split_token Unquoted [] (sdscatrepr [] w @ r) = Some (w, r') \<and>
        dropWhile c_isspace r' = dropWhile c_isspace r" by auto
  qed (auto simp: sdscatrepr_def c_isspace_def)
  ultimately show ?thesis by (simp add: sdssplitargs_def)
qed

text \<open>
  Plain words.  A line of non-empty words without blanks, quotes and null bytes is split into
  exactly those words.
\<close>

theorem sdssplitargs_plain:
  assumes "list_all plain_word ws"
  shows "sdssplitargs (intercalate '' '' ws) = Some ws"
  using assms by (rule sdssplitargs_plain_words)

theorem sdssplitargs_plain_witness: "sdssplitargs ''set a 1'' = Some [''set'', ''a'', ''1'']"
  using sdssplitargs_plain [of "[''set'', ''a'', ''1'']"]
  by (simp add: plain_word_def c_isspace_def)

end
