(* ===== verification/Prez_Protocol.thy ===== *)
theory Prez_Protocol
  imports Prez_Client Prez_Args
begin

text \<open>
  A client connection of src/src/networking.c, input side: requests in the inline format (a line of
  words) and in the multi bulk format (a count and length-prefixed arguments), which arrive in pieces.
  The query buffer is the byte string its sds holds.  \<open>None\<close> is a failed assertion.
\<close>

definition PREZ_INLINE_MAX_SIZE :: nat where "PREZ_INLINE_MAX_SIZE = 65536"
definition PREZ_MBULK_BIG_ARG :: int where "PREZ_MBULK_BIG_ARG = 32768"

text \<open>\<open>strchr\<close>: the offset of the first occurrence before the first zero byte.\<close>

definition strchr :: "string \<Rightarrow> char \<Rightarrow> nat option" where
  "strchr s ch = (let t = takeWhile (\<lambda>x. x \<noteq> ch) (cstr s) in if length t < length (cstr s) then Some (length t) else None)"

definition freeClientArgv :: "client \<Rightarrow> client" where
  "freeClientArgv c = c\<lparr>c_argv := [], c_cmd := None\<rparr>"

definition resetClient :: "client \<Rightarrow> client" where
  "resetClient c = (freeClientArgv c)\<lparr>c_reqtype := REQ_UNKNOWN, c_multibulklen := 0, c_bulklen := -1\<rparr>"

definition setProtocolError :: "client \<Rightarrow> nat \<Rightarrow> client" where
  "setProtocolError c pos = c\<lparr>c_close_after_reply := True, c_querybuf := drop pos (c_querybuf c)\<rparr>"

section \<open>Inline requests\<close>

definition processInlineBuffer :: "netenv \<Rightarrow> client \<Rightarrow> client \<times> int" where
  "processInlineBuffer env c =
     (case strchr (c_querybuf c) LF of
        None \<Rightarrow>
          (if length (c_querybuf c) > PREZ_INLINE_MAX_SIZE
           then setProtocolError (addReplyError env c ''Protocol error: too big inline request'') 0
           else c, PREZ_ERR)
      | Some newline \<Rightarrow>
          let newline = (if newline \<noteq> 0 \<and> c_querybuf c ! (newline - 1) = CR then newline - 1 else newline);
              querylen = newline
          in (case sdssplitargs (take querylen (c_querybuf c)) of
               None \<Rightarrow>
                 (setProtocolError (addReplyError env c ''Protocol error: unbalanced quotes in request'') 0, PREZ_ERR)
             | Some argv \<Rightarrow>
                 (c\<lparr>c_querybuf := drop (querylen + 2) (c_querybuf c),
                    c_argv := map (\<lambda>a. createObject (PSds a)) (filter (\<lambda>a. a \<noteq> []) argv)\<rparr>, PREZ_OK)))"

section \<open>Multi bulk requests\<close>

text \<open>Reading the length of an argument at \<open>pos\<close>: return an error, leave the loop, or go on.\<close>

datatype mb = MB_Return client int | MB_Break client nat | MB_Go client nat

definition mb_bulklen :: "netenv \<Rightarrow> client \<Rightarrow> nat \<Rightarrow> mb" where
  "mb_bulklen env c pos =
     (case strchr (drop pos (c_querybuf c)) CR of
        None \<Rightarrow>
          if length (c_querybuf c) > PREZ_INLINE_MAX_SIZE
          then MB_Return (setProtocolError (addReplyError env c ''Protocol error: too big bulk count string'') 0) PREZ_ERR
          else MB_Break c pos
      | Some off \<Rightarrow>
          let newline = pos + off in
          if newline + 2 > length (c_querybuf c) then MB_Break c pos
          else if c_querybuf c ! pos \<noteq> CHR ''$'' then
            MB_Return (setProtocolError (addReplyErrorFormat env c
               (''Protocol error: expected '' @ [CHR 0x27] @ ''$'' @ [CHR 0x27] @ '', got '' @ [CHR 0x27, c_querybuf c ! pos, CHR 0x27])) pos) PREZ_ERR
          else
            (case string2ll (take (newline - (pos + 1)) (drop (pos + 1) (c_querybuf c))) of
               None \<Rightarrow> MB_Return (setProtocolError (addReplyError env c ''Protocol error: invalid bulk length'') pos) PREZ_ERR
             | Some n \<Rightarrow>
                 if n < 0 \<or> n > 536870912 then
                   MB_Return (setProtocolError (addReplyError env c ''Protocol error: invalid bulk length'') pos) PREZ_ERR
                 else
                   let pos = newline + 2 in
                   if n \<ge> PREZ_MBULK_BIG_ARG
                   then MB_Go (c\<lparr>c_querybuf := drop pos (c_querybuf c), c_bulklen := n\<rparr>) 0
                   else MB_Go (c\<lparr>c_bulklen := n\<rparr>) pos))"

text \<open>The loop over the arguments; the result is the client and a position, and the value to return
  when the loop was left by \<open>return\<close>.\<close>

definition mb_take :: "client \<Rightarrow> nat \<Rightarrow> client \<times> nat" where
  "mb_take c pos =
     (if pos = 0 \<and> c_bulklen c \<ge> PREZ_MBULK_BIG_ARG \<and> int (length (c_querybuf c)) = c_bulklen c + 2
      then (c\<lparr>c_argv := c_argv c @ [createObject (PSds (take (length (c_querybuf c) - 2) (c_querybuf c)))],
              c_querybuf := [], c_bulklen := -1, c_multibulklen := c_multibulklen c - 1\<rparr>, 0)
      else (c\<lparr>c_argv := c_argv c @ [createStringObject (take (nat (c_bulklen c)) (drop pos (c_querybuf c)))],
              c_bulklen := -1, c_multibulklen := c_multibulklen c - 1\<rparr>, pos + nat (c_bulklen c) + 2))"

lemma mb_bulklen_frame: "mb_bulklen env c pos = MB_Go c' pos' \<Longrightarrow> c_multibulklen c' = c_multibulklen c"
  by (auto simp: mb_bulklen_def Let_def split: option.splits if_splits)

lemma mb_take_less: "mb_take c pos = (c', pos') \<Longrightarrow> c_multibulklen c' = c_multibulklen c - 1"
  by (auto simp: mb_take_def split: if_splits)

function mb_loop :: "netenv \<Rightarrow> client \<Rightarrow> nat \<Rightarrow> client \<times> nat \<times> int option" where
  "mb_loop env c pos =
     (if c_multibulklen c \<le> 0 then (c, pos, None)
      else case (if c_bulklen c = -1 then mb_bulklen env c pos else MB_Go c pos) of
             MB_Return c rc \<Rightarrow> (c, pos, Some rc)
           | MB_Break c pos \<Rightarrow> (c, pos, None)
           | MB_Go c pos \<Rightarrow>
               if int (length (c_querybuf c)) - int pos < c_bulklen c + 2 then (c, pos, None)
               else let (c, pos) = mb_take c pos in mb_loop env c pos)"
  by pat_completeness auto
termination
  by (relation "measure (\<lambda>(env, c, pos). nat (c_multibulklen c))")
    (auto dest!: mb_bulklen_frame split: if_splits prod.splits simp: mb_take_less)

declare mb_loop.simps [simp del]

definition processMultibulkBuffer :: "netenv \<Rightarrow> client \<Rightarrow> (client \<times> int) option" where
  "processMultibulkBuffer env c =
     do { start \<leftarrow>
            (if c_multibulklen c = 0 then
               if c_argv c \<noteq> [] then None
               else case strchr (c_querybuf c) CR of
                 None \<Rightarrow>
                   Some (Inl (if length (c_querybuf c) > PREZ_INLINE_MAX_SIZE
                              then setProtocolError (addReplyError env c ''Protocol error: too big mbulk count string'') 0
                              else c, PREZ_ERR))
               | Some newline \<Rightarrow>
                   if newline + 2 > length (c_querybuf c) then Some (Inl (c, PREZ_ERR))
                   else if c_querybuf c ! 0 \<noteq> CHR ''*'' then None
                   else (case string2ll (take (newline - 1) (drop 1 (c_querybuf c))) of
                           None \<Rightarrow> Some (Inl (setProtocolError (addReplyError env c ''Protocol error: invalid multibulk length'') 0, PREZ_ERR))
                         | Some n \<Rightarrow>
                             if n > 1048576 then
                               Some (Inl (setProtocolError (addReplyError env c ''Protocol error: invalid multibulk length'') 0, PREZ_ERR))
                             else if n \<le> 0 then Some (Inl (c\<lparr>c_querybuf := drop (newline + 2) (c_querybuf c)\<rparr>, PREZ_OK))
                             else Some (Inr (c\<lparr>c_multibulklen := n\<rparr>, newline + 2)))
             else Some (Inr (c, 0)));
          case start of
            Inl r \<Rightarrow> Some r
          | Inr (c, pos) \<Rightarrow>
              if c_multibulklen c \<le> 0 then None
              else
                (case mb_loop env c pos of
                   (c, pos, Some rc) \<Rightarrow> Some (c, rc)
                 | (c, pos, None) \<Rightarrow>
                     let c = (if pos \<noteq> 0 then c\<lparr>c_querybuf := drop pos (c_querybuf c)\<rparr> else c) in
                     Some (c, if c_multibulklen c = 0 then PREZ_OK else PREZ_ERR)) }"

section \<open>The stream of a request\<close>

definition resp_cmd :: "string list \<Rightarrow> string" where
  "resp_cmd args = ''*'' @ show_int (int (length args)) @ CRLF @ concat (map bulk_str args)"

text \<open>What is still to come when the arguments \<open>args\<close> are missing and \<open>bl\<close> is the length that was
  read for the first of them, or -1.\<close>

definition arg_stream :: "int \<Rightarrow> string list \<Rightarrow> string" where
  "arg_stream bl args = (if bl = -1 then concat (map bulk_str args) else hd args @ CRLF @ concat (map bulk_str (tl args)))"

lemma arg_stream_Cons: "arg_stream bl (a # args) = arg_stream bl [a] @ concat (map bulk_str args)"
  by (simp add: arg_stream_def)

definition expects :: "client \<Rightarrow> string list \<Rightarrow> bool" where
  "expects c args \<longleftrightarrow> c_multibulklen c = int (length args) \<and> (\<forall>a \<in> set args. length a \<le> 536870912) \<and>
     (c_bulklen c = -1 \<or> args \<noteq> [] \<and> c_bulklen c = int (length (hd args)))"

definition args_are :: "robj list \<Rightarrow> string list \<Rightarrow> bool" where
  "args_are obs args \<longleftrightarrow> map obj_str obs = args \<and> (\<forall>ob \<in> set obs. obj_wf ob \<and> (\<exists>s. o_ptr ob = PSds s))"

lemma strchr_here: "CR \<notin> set h \<Longrightarrow> NUL \<notin> set h \<Longrightarrow> strchr (h @ CR # t) CR = Some (length h)"
proof -
  assume h: "CR \<notin> set h" "NUL \<notin> set h"
  then have c: "cstr (h @ CR # t) = h @ CR # cstr t" by (induction h) (auto simp: cstr_def)
  have "takeWhile (\<lambda>x. x \<noteq> CR) (h @ CR # cstr t) = h" using h(1) by (induction h) auto
  then show ?thesis by (simp add: strchr_def c)
qed

lemma strchr_None: "ch \<notin> set s \<Longrightarrow> strchr s ch = None"
proof -
  assume "ch \<notin> set s"
  then have t: "takeWhile (\<lambda>x. x \<noteq> ch) (cstr s) = cstr s"
    by (auto simp: takeWhile_eq_all_conv cstr_def dest: set_takeWhileD)
  show ?thesis unfolding strchr_def Let_def t by simp
qed

lemma show_int_no_cr: "CR \<notin> set (show_int i)"
proof -
  have "\<not> is_digit CR" by (simp add: is_digit_def)
  then show ?thesis using show_nat_digits [of CR] by (auto simp: show_int_def)
qed

lemma mb_bulklen_hdr:
  assumes d: "drop pos (c_querybuf c) = CHR ''$'' # show_int (int (length a)) @ CRLF @ rest" and a: "length a \<le> 536870912" and p: "pos \<le> length (c_querybuf c)"
  shows "\<exists>q pos'. mb_bulklen env c pos = MB_Go (c\<lparr>c_querybuf := q, c_bulklen := int (length a)\<rparr>) pos' \<and>
    drop pos' q = rest \<and> pos' \<le> length q \<and> length q \<le> length (c_querybuf c)"
proof -
  let ?n = "show_int (int (length a))" and ?q = "c_querybuf c"
  have b: "drop pos ?q = (CHR ''$'' # ?n) @ CR # (LF # rest)" using d by simp
  have sc: "strchr (drop pos ?q) CR = Some (Suc (length ?n))"
    unfolding b using strchr_here [of "CHR ''$'' # ?n"] show_int_no_cr show_int_no_nul by simp
  have len: "length ?q = pos + (Suc (length ?n) + 2 + length rest)"
    using arg_cong [OF b, of length] p by simp
  have hd: "?q ! pos = CHR ''$''" using b p by (metis append_Cons hd_drop_conv_nth len less_add_same_cancel1 list.sel(1) zero_less_Suc add_Suc)
  have num_txt: "take (pos + Suc (length ?n) - (pos + 1)) (drop (pos + 1) ?q) = ?n"
    using arg_cong [OF b, of "drop 1"] by (simp add: add.commute)
  have num: "string2ll ?n = Some (int (length a))" using string2ll_show_int a by (simp add: is_ll_def)
  have dr: "drop (pos + Suc (length ?n) + 2) ?q = rest"
    using arg_cong [OF b, of "drop (Suc (length ?n) + 2)"] by (simp add: add.commute add.left_commute)
  have c: "c\<lparr>c_bulklen := n\<rparr> = c\<lparr>c_querybuf := ?q, c_bulklen := n\<rparr>" for n by simp
  have "mb_bulklen env c pos = (if int (length a) \<ge> PREZ_MBULK_BIG_ARG
      then MB_Go (c\<lparr>c_querybuf := drop (pos + Suc (length ?n) + 2) ?q, c_bulklen := int (length a)\<rparr>) 0
      else MB_Go (c\<lparr>c_querybuf := ?q, c_bulklen := int (length a)\<rparr>) (pos + Suc (length ?n) + 2))"
    using a len unfolding mb_bulklen_def sc by (simp add: Let_def hd num num_txt [simplified] flip: c)
  moreover have "pos + Suc (length ?n) + 2 \<le> length ?q" "length (drop (pos + Suc (length ?n) + 2) ?q) \<le> length ?q"
    using len by simp_all
  ultimately show ?thesis using dr by (metis drop0 le0 order_refl)
qed

lemma mb_bulklen_full:
  assumes d: "drop pos (c_querybuf c) = bulk_str a @ rest" and a: "length a \<le> 536870912" and p: "pos \<le> length (c_querybuf c)"
  shows "\<exists>q pos'. mb_bulklen env c pos = MB_Go (c\<lparr>c_querybuf := q, c_bulklen := int (length a)\<rparr>) pos' \<and>
    drop pos' q = a @ CRLF @ rest \<and> pos' \<le> length q \<and> length q \<le> length (c_querybuf c)"
  using mb_bulklen_hdr [OF _ a p, of "a @ CRLF @ rest" env] d by (simp add: bulk_str_def)

lemma mb_take_ok:
  assumes d: "drop pos (c_querybuf c) = a @ CRLF @ rest" and bl: "c_bulklen c = int (length a)" and p: "pos \<le> length (c_querybuf c)"
  shows "\<exists>pos' ob q. mb_take c pos =
      (c\<lparr>c_argv := c_argv c @ [ob], c_querybuf := q, c_bulklen := -1, c_multibulklen := c_multibulklen c - 1\<rparr>, pos') \<and>
    drop pos' q = rest \<and> pos' \<le> length q \<and> length q \<le> length (c_querybuf c) \<and> args_are [ob] [a]"
proof (cases "pos = 0 \<and> c_bulklen c \<ge> PREZ_MBULK_BIG_ARG \<and> int (length (c_querybuf c)) = c_bulklen c + 2")
  case True
  then have "rest = []" "take (length (c_querybuf c) - 2) (c_querybuf c) = a" using d bl by auto
  with True have "mb_take c pos = (c\<lparr>c_argv := c_argv c @ [createObject (PSds a)], c_querybuf := [], c_bulklen := -1,
      c_multibulklen := c_multibulklen c - 1\<rparr>, 0)" by (simp add: mb_take_def)
  moreover have "args_are [createObject (PSds a)] [a]" by (simp add: args_are_def obj_wf_createObject create_ptr)
  ultimately show ?thesis using \<open>rest = []\<close> by (metis drop0 le0 list.size(3))
next
  case False
  let ?p = "pos + length a + 2"
  have c: "c\<lparr>c_argv := x, c_bulklen := n, c_multibulklen := m\<rparr> =
    c\<lparr>c_argv := x, c_querybuf := c_querybuf c, c_bulklen := n, c_multibulklen := m\<rparr>" for x n m by simp
  have "mb_take c pos = (c\<lparr>c_argv := c_argv c @ [createStringObject a], c_querybuf := c_querybuf c, c_bulklen := -1,
      c_multibulklen := c_multibulklen c - 1\<rparr>, ?p)"
    using False d bl unfolding mb_take_def by (simp flip: c)
  moreover have "args_are [createStringObject a] [a]" by (simp add: args_are_def create_ptr)
  moreover have "drop ?p (c_querybuf c) = rest"
    using arg_cong [OF d, of "drop (length a + 2)"] by (simp add: add.commute add.left_commute)
  moreover have "?p \<le> length (c_querybuf c)" using arg_cong [OF d, of length] p by simp
  ultimately show ?thesis using order_refl [of "length (c_querybuf c)"] by blast
qed

lemma args_are_append: "args_are obs args \<Longrightarrow> args_are obs' args' \<Longrightarrow> args_are (obs @ obs') (args @ args')"
  by (auto simp: args_are_def)

lemma length_bulk_str: "length (bulk_str a) = length (show_int (int (length a))) + length a + 5"
  by (simp add: bulk_str_def)

text \<open>One argument that is completely in the buffer.\<close>

lemma mb_loop_one:
  assumes d: "drop pos (c_querybuf c) = arg_stream (c_bulklen c) [a] @ rest" and e: "expects c (a # args)"
    and p: "pos \<le> length (c_querybuf c)"
  shows "\<exists>pos' ob q. mb_loop env c pos =
      mb_loop env (c\<lparr>c_argv := c_argv c @ [ob], c_querybuf := q, c_bulklen := -1, c_multibulklen := int (length args)\<rparr>) pos' \<and>
    args_are [ob] [a] \<and> pos' \<le> length q \<and> drop pos' q = rest \<and> length q \<le> length (c_querybuf c)"
proof -
  let ?r = rest
  obtain c1 pos1 q1 where g: "(if c_bulklen c = -1 then mb_bulklen env c pos else MB_Go c pos) = MB_Go c1 pos1"
    "drop pos1 (c_querybuf c1) = a @ CRLF @ ?r" "c_bulklen c1 = int (length a)" "pos1 \<le> length (c_querybuf c1)"
    "c1 = c\<lparr>c_querybuf := q1, c_bulklen := int (length a)\<rparr>" "length q1 \<le> length (c_querybuf c)"
  proof (cases "c_bulklen c = -1")
    case True
    then have "drop pos (c_querybuf c) = bulk_str a @ ?r" using d by (simp add: arg_stream_def)
    from mb_bulklen_full [OF this _ p, of env] e obtain q pos' where
      "mb_bulklen env c pos = MB_Go (c\<lparr>c_querybuf := q, c_bulklen := int (length a)\<rparr>) pos'"
      "drop pos' q = a @ CRLF @ ?r" "pos' \<le> length q" "length q \<le> length (c_querybuf c)" by (auto simp: expects_def)
    with True that show ?thesis by simp
  next
    case False
    then have "c = c\<lparr>c_querybuf := c_querybuf c, c_bulklen := int (length a)\<rparr>" using e by (cases c) (simp add: expects_def)
    with False d e p that [of c pos "c_querybuf c"] show ?thesis by (simp add: expects_def arg_stream_def)
  qed
  have "\<not> int (length (c_querybuf c1)) - int pos1 < c_bulklen c1 + 2"
    using arg_cong [OF g(2), of length] g(3,4) by simp
  moreover have "0 < c_multibulklen c" using e by (simp add: expects_def)
  ultimately have eq: "mb_loop env c pos = (let (c, pos) = mb_take c1 pos1 in mb_loop env c pos)"
    by (subst mb_loop.simps) (simp only: g(1) mb.case if_False if_not_P not_le)
  obtain pos2 ob q2 where t: "mb_take c1 pos1 =
      (c1\<lparr>c_argv := c_argv c1 @ [ob], c_querybuf := q2, c_bulklen := -1, c_multibulklen := c_multibulklen c1 - 1\<rparr>, pos2)"
    "drop pos2 q2 = ?r" "pos2 \<le> length q2" "args_are [ob] [a]" "length q2 \<le> length (c_querybuf c1)"
    using mb_take_ok [OF g(2-4)] by blast
  have "c1\<lparr>c_argv := c_argv c1 @ [ob], c_querybuf := q2, c_bulklen := -1, c_multibulklen := c_multibulklen c1 - 1\<rparr> =
    c\<lparr>c_argv := c_argv c @ [ob], c_querybuf := q2, c_bulklen := -1, c_multibulklen := int (length args)\<rparr>"
    using g(5) e by (simp add: expects_def)
  moreover have "length q2 \<le> length (c_querybuf c)" using t(5) g(5,6) by simp
  ultimately show ?thesis using eq t by auto
qed

text \<open>The client after the arguments \<open>obs\<close> were read and \<open>q\<close> is left in the buffer.\<close>

definition after_args :: "client \<Rightarrow> robj list \<Rightarrow> string \<Rightarrow> client" where
  "after_args c obs q = c\<lparr>c_argv := c_argv c @ obs, c_querybuf := q, c_bulklen := -1, c_multibulklen := 0\<rparr>"

lemma mb_loop_full:
  assumes "drop pos (c_querybuf c) = arg_stream (c_bulklen c) args @ rest" "expects c args" "pos \<le> length (c_querybuf c)"
  shows "\<exists>pos' obs q. mb_loop env c pos = (after_args c obs q, pos', None) \<and> args_are obs args \<and> drop pos' q = rest"
  using assms
proof (induction args arbitrary: c pos)
  case Nil
  then have "c_bulklen c = -1" "c_multibulklen c = 0" by (auto simp: expects_def)
  then have "mb_loop env c pos = (after_args c [] (c_querybuf c), pos, None)"
    by (subst mb_loop.simps) (simp add: after_args_def)
  with Nil \<open>c_bulklen c = -1\<close> show ?case by (auto simp: args_are_def arg_stream_def)
next
  case (Cons a args)
  obtain pos1 ob q1 where 1: "mb_loop env c pos =
      mb_loop env (c\<lparr>c_argv := c_argv c @ [ob], c_querybuf := q1, c_bulklen := -1, c_multibulklen := int (length args)\<rparr>) pos1"
    "args_are [ob] [a]" "pos1 \<le> length q1" "drop pos1 q1 = concat (map bulk_str args) @ rest"
    using mb_loop_one [OF _ Cons.prems(2,3), of "concat (map bulk_str args) @ rest" env] Cons.prems(1)
      arg_stream_Cons [of "c_bulklen c" a args] by auto
  let ?c = "c\<lparr>c_argv := c_argv c @ [ob], c_querybuf := q1, c_bulklen := -1, c_multibulklen := int (length args)\<rparr>"
  have "expects ?c args" using Cons.prems(2) by (auto simp: expects_def)
  with Cons.IH [of pos1 ?c] 1(3,4) obtain pos2 obs q2 where 2: "mb_loop env ?c pos1 = (after_args ?c obs q2, pos2, None)"
    "args_are obs args" "drop pos2 q2 = rest" by (auto simp: arg_stream_def)
  have "after_args ?c obs q2 = after_args c (ob # obs) q2" by (simp add: after_args_def)
  with 1(1) 2 args_are_append [OF 1(2) 2(2)] show ?case by auto
qed

text \<open>The first argument is not complete: the loop stops and remembers how far it got.\<close>

lemma prefix_hdr_no_cr: 
  assumes "p @ r = h @ CR # t" "CR \<in> set p" "CR \<notin> set h"
  shows "\<exists>p'. p = h @ CR # p'"
  using assms
proof (induction h arbitrary: p)
  case (Cons x h)
  then show ?case by (cases p) auto
qed (auto simp: append_eq_Cons_conv)

lemma mb_bulklen_partial:
  assumes d: "bulk_str a @ t = drop pos (c_querybuf c) @ r" and short: "length (drop pos (c_querybuf c)) < length (bulk_str a)"
    and a: "length a \<le> 536870912" and p: "pos \<le> length (c_querybuf c)" and small: "length (c_querybuf c) \<le> PREZ_INLINE_MAX_SIZE"
  shows "mb_bulklen env c pos = MB_Break c pos \<or>
    (\<exists>q pos'. mb_bulklen env c pos = MB_Go (c\<lparr>c_querybuf := q, c_bulklen := int (length a)\<rparr>) pos' \<and>
      a @ CRLF @ t = drop pos' q @ r \<and> pos' \<le> length q \<and> length (drop pos' q) < length a + 2)"
proof -
  let ?n = "show_int (int (length a))" and ?p = "drop pos (c_querybuf c)"
  have n: "CR \<notin> set (CHR ''$'' # ?n)" "NUL \<notin> set (CHR ''$'' # ?n)" using show_int_no_cr show_int_no_nul by auto
  have b: "?p @ r = (CHR ''$'' # ?n) @ CR # LF # a @ CRLF @ t" using d by (simp add: bulk_str_def)
  show ?thesis
  proof (cases "CR \<in> set ?p")
    case False
    then show ?thesis using small strchr_None [of CR ?p] by (simp add: mb_bulklen_def)
  next
    case True
    obtain p' where p': "?p = (CHR ''$'' # ?n) @ CR # p'" using prefix_hdr_no_cr [OF b True n(1)] by blast
    have r: "p' @ r = LF # a @ CRLF @ t" using b p' by simp
    have sc: "strchr ?p CR = Some (Suc (length ?n))" unfolding p' using strchr_here [OF n, of p'] by simp
    show ?thesis
    proof (cases p')
      case Nil
      have "length (c_querybuf c) = pos + length ?p" using p by simp
      then have "pos + Suc (length ?n) + 2 > length (c_querybuf c)" using p' Nil by simp
      then show ?thesis unfolding mb_bulklen_def sc by simp
    next
      case (Cons x rest)
      then have x: "x = LF" "rest @ r = a @ CRLF @ t" using r by auto
      have dd: "drop pos (c_querybuf c) = CHR ''$'' # ?n @ CRLF @ rest" using p' Cons x(1) by simp
      have "\<exists>q pos'. mb_bulklen env c pos = MB_Go (c\<lparr>c_querybuf := q, c_bulklen := int (length a)\<rparr>) pos' \<and>
          drop pos' q = rest \<and> pos' \<le> length q" using mb_bulklen_hdr [OF dd a p] by blast
      with x(2) short p' Cons show ?thesis by (fastforce simp: bulk_str_def)
    qed
  qed
qed

lemma mb_loop_stop:
  assumes e: "expects c (a # args)" and d: "arg_stream (c_bulklen c) (a # args) = drop pos (c_querybuf c) @ r"
    and short: "length (drop pos (c_querybuf c)) < length (arg_stream (c_bulklen c) [a])"
    and p: "pos \<le> length (c_querybuf c)" and small: "length (c_querybuf c) \<le> PREZ_INLINE_MAX_SIZE"
  shows "\<exists>q bl pos'. mb_loop env c pos = (c\<lparr>c_querybuf := q, c_bulklen := bl\<rparr>, pos', None) \<and>
    (bl = -1 \<or> bl = int (length a)) \<and> arg_stream bl (a # args) = drop pos' q @ r \<and> pos' \<le> length q"
proof -
  let ?t = "concat (map bulk_str args)"
  have pos: "0 < c_multibulklen c" using e by (simp add: expects_def)
  have self: "c = c\<lparr>c_querybuf := c_querybuf c, c_bulklen := c_bulklen c\<rparr>" by simp
  show ?thesis
  proof (cases "c_bulklen c = -1")
    case False
    then have bl: "c_bulklen c = int (length a)" using e by (simp add: expects_def)
    then have "int (length (c_querybuf c)) - int pos < c_bulklen c + 2"
      using short p by (simp add: arg_stream_def)
    then have "mb_loop env c pos = (c, pos, None)" using pos False by (subst mb_loop.simps) simp
    with self bl d p show ?thesis by metis
  next
    case True
    then have b: "bulk_str a @ ?t = drop pos (c_querybuf c) @ r" "length (drop pos (c_querybuf c)) < length (bulk_str a)"
      using d short by (simp_all add: arg_stream_def)
    have a: "length a \<le> 536870912" using e by (simp add: expects_def)
    from mb_bulklen_partial [OF b a p small, of env] show ?thesis
    proof (elim disjE exE conjE)
      assume "mb_bulklen env c pos = MB_Break c pos"
      then have "mb_loop env c pos = (c, pos, None)" using pos True by (subst mb_loop.simps) simp
      with self True d p show ?thesis by metis
    next
      fix q pos'
      assume g: "mb_bulklen env c pos = MB_Go (c\<lparr>c_querybuf := q, c_bulklen := int (length a)\<rparr>) pos'"
        "a @ CRLF @ ?t = drop pos' q @ r" "pos' \<le> length q" "length (drop pos' q) < length a + 2"
      have "int (length q) - int pos' < int (length a) + 2" using g(3,4) by simp
      then have "mb_loop env c pos = (c\<lparr>c_querybuf := q, c_bulklen := int (length a)\<rparr>, pos', None)"
        using g(1) pos True by (subst mb_loop.simps) simp
      with g(2,3) show ?thesis by (fastforce simp: arg_stream_def)
    qed
  qed
qed

text \<open>A request of which only a part is in the buffer.\<close>

lemma mb_loop_partial:
  assumes "expects c args" "args \<noteq> []" "arg_stream (c_bulklen c) args = drop pos (c_querybuf c) @ r" "r \<noteq> []"
    "pos \<le> length (c_querybuf c)" "length (c_querybuf c) \<le> PREZ_INLINE_MAX_SIZE"
  shows "\<exists>q bl pos' obs read todo. mb_loop env c pos =
      (c\<lparr>c_argv := c_argv c @ obs, c_querybuf := q, c_bulklen := bl, c_multibulklen := int (length todo)\<rparr>, pos', None) \<and>
    args = read @ todo \<and> todo \<noteq> [] \<and> args_are obs read \<and> (bl = -1 \<or> bl = int (length (hd todo))) \<and>
    arg_stream bl todo = drop pos' q @ r \<and> pos' \<le> length q"
  using assms
proof (induction args arbitrary: c pos)
  case (Cons a args)
  show ?case
  proof (cases "length (drop pos (c_querybuf c)) < length (arg_stream (c_bulklen c) [a])")
    case True
    obtain q bl pos' where s: "mb_loop env c pos = (c\<lparr>c_querybuf := q, c_bulklen := bl\<rparr>, pos', None)"
      "bl = -1 \<or> bl = int (length a)" "arg_stream bl (a # args) = drop pos' q @ r" "pos' \<le> length q"
      using mb_loop_stop [OF Cons.prems(1,3) True Cons.prems(5,6)] by blast
    have eq: "mb_loop env c pos = (c\<lparr>c_argv := c_argv c @ [], c_querybuf := q, c_bulklen := bl,
        c_multibulklen := int (length (a # args))\<rparr>, pos', None)" using s(1) Cons.prems(1) by (simp add: expects_def)
    show ?thesis
      by (rule exI [of _ q], rule exI [of _ bl], rule exI [of _ pos'], rule exI [of _ "[]"], rule exI [of _ "[]"],
          rule exI [of _ "a # args"]) (use eq s(2-4) in \<open>simp add: args_are_def\<close>)
  next
    case False
    then obtain rest where rest: "drop pos (c_querybuf c) = arg_stream (c_bulklen c) [a] @ rest" "rest @ r = concat (map bulk_str args)"
      using Cons.prems(3) arg_stream_Cons [of "c_bulklen c" a args] by (auto simp: append_eq_append_conv2)
    obtain pos1 ob q1 where 1: "mb_loop env c pos =
        mb_loop env (c\<lparr>c_argv := c_argv c @ [ob], c_querybuf := q1, c_bulklen := -1, c_multibulklen := int (length args)\<rparr>) pos1"
      "args_are [ob] [a]" "pos1 \<le> length q1" "drop pos1 q1 = rest" "length q1 \<le> length (c_querybuf c)"
      using mb_loop_one [OF rest(1) Cons.prems(1,5), of env] by blast
    let ?c = "c\<lparr>c_argv := c_argv c @ [ob], c_querybuf := q1, c_bulklen := -1, c_multibulklen := int (length args)\<rparr>"
    have e: "expects ?c args" "args \<noteq> []" using Cons.prems(1,4) rest(2) by (auto simp: expects_def)
    have "arg_stream (c_bulklen ?c) args = drop pos1 (c_querybuf ?c) @ r" using rest(2) 1(4) by (simp add: arg_stream_def)
    from Cons.IH [OF e this Cons.prems(4)] 1(3,5) Cons.prems(6)
    obtain q bl pos' obs read todo where 2: "mb_loop env ?c pos1 = (?c\<lparr>c_argv := c_argv ?c @ obs, c_querybuf := q,
        c_bulklen := bl, c_multibulklen := int (length todo)\<rparr>, pos', None)" "args = read @ todo" "todo \<noteq> []"
      "args_are obs read" "bl = -1 \<or> bl = int (length (hd todo))" "arg_stream bl todo = drop pos' q @ r" "pos' \<le> length q"
      by auto
    have eq: "mb_loop env c pos =
        (c\<lparr>c_argv := c_argv c @ ob # obs, c_querybuf := q, c_bulklen := bl, c_multibulklen := int (length todo)\<rparr>, pos', None)"
      unfolding 1(1) 2(1) by simp
    show ?thesis
      by (rule exI [of _ q], rule exI [of _ bl], rule exI [of _ pos'], rule exI [of _ "ob # obs"], rule exI [of _ "a # read"],
          rule exI [of _ todo]) (use eq 2(2-7) args_are_append [OF 1(2) 2(4)] in simp)
  qed
qed simp

section \<open>Requests that arrive in pieces\<close>

definition idle :: "client \<Rightarrow> bool" where
  "idle c \<longleftrightarrow> c_multibulklen c = 0 \<and> c_bulklen c = -1 \<and> c_argv c = [] \<and> c_querybuf c = []"

definition resp_ok :: "string list \<Rightarrow> bool" where
  "resp_ok args \<longleftrightarrow> args \<noteq> [] \<and> length args \<le> 1048576 \<and> (\<forall>a \<in> set args. length a \<le> 536870912)"

text \<open>The client \<open>c0\<close> in the middle of a request: \<open>s\<close> has still to arrive.\<close>

definition awaiting :: "client \<Rightarrow> client \<Rightarrow> string list \<Rightarrow> string \<Rightarrow> bool" where
  "awaiting c0 c args s \<longleftrightarrow>
     c = c0\<lparr>c_querybuf := c_querybuf c\<rparr> \<and> c_querybuf c @ s = resp_cmd args \<or>
     (\<exists>obs read todo bl. args = read @ todo \<and> todo \<noteq> [] \<and> args_are obs read \<and> (bl = -1 \<or> bl = int (length (hd todo))) \<and>
        c = c0\<lparr>c_argv := obs, c_querybuf := c_querybuf c, c_bulklen := bl, c_multibulklen := int (length todo)\<rparr> \<and>
        c_querybuf c @ s = arg_stream bl todo)"

lemma length_arg_stream:
  assumes "todo \<noteq> []" "bl = -1 \<or> bl = int (length (hd todo))"
  shows "length (arg_stream bl todo) \<le> length (concat (map bulk_str todo))"
  using assms by (cases todo) (auto simp: arg_stream_def bulk_str_def)

lemma awaiting_length:
  assumes "awaiting c0 c args s"
  shows "length (c_querybuf c) + length s \<le> length (resp_cmd args)"
proof -
  consider "c_querybuf c @ s = resp_cmd args"
    | read todo bl where "args = read @ todo" "todo \<noteq> []" "bl = -1 \<or> bl = int (length (hd todo))" "c_querybuf c @ s = arg_stream bl todo"
    using assms unfolding awaiting_def by blast
  then show ?thesis
  proof cases
    case 1
    from arg_cong [OF this, of length] show ?thesis by simp
  next
    case 2
    from arg_cong [OF this(4), of length] length_arg_stream [OF 2(2,3)] 2(1) show ?thesis by (simp add: resp_cmd_def)
  qed
qed

text \<open>The header of a request, with \<open>rest\<close> behind it.\<close>

lemma multibulk_hdr:
  assumes c: "idle c" and args: "resp_ok args" and q: "q = ''*'' @ show_int (int (length args)) @ CRLF @ rest"
  shows "processMultibulkBuffer env (c\<lparr>c_querybuf := q\<rparr>) =
    (let pos = length (show_int (int (length args))) + 3;
         (c', pos', rc) = mb_loop env (c\<lparr>c_querybuf := q, c_multibulklen := int (length args)\<rparr>) pos
     in Some (case rc of Some rc \<Rightarrow> (c', rc)
        | None \<Rightarrow> (let c' = (if pos' \<noteq> 0 then c'\<lparr>c_querybuf := drop pos' (c_querybuf c')\<rparr> else c') in
                   (c', if c_multibulklen c' = 0 then PREZ_OK else PREZ_ERR))))"
proof -
  let ?n = "show_int (int (length args))"
  have "q = (CHR ''*'' # ?n) @ CR # LF # rest" using q by simp
  then have sc: "strchr q CR = Some (Suc (length ?n))"
    using strchr_here [of "CHR ''*'' # ?n" "LF # rest"] show_int_no_cr show_int_no_nul by simp
  have num: "string2ll (take (length ?n) (drop 1 q)) = Some (int (length args))"
    using string2ll_show_int args q by (simp add: is_ll_def resp_ok_def)
  have len: "\<not> Suc (length ?n) + 2 > length q" "q ! 0 = CHR ''*''" using q by auto
  have n: "0 < length args" "\<not> int (length args) > 1048576" using args by (auto simp: resp_ok_def)
  from len n num sc c show ?thesis
    by (simp add: processMultibulkBuffer_def idle_def Let_def numeral_3_eq_3 split: prod.split option.split)
qed

lemma multibulk_resume:
  assumes "0 < c_multibulklen c"
  shows "processMultibulkBuffer env c =
    (let (c', pos', rc) = mb_loop env c 0
     in Some (case rc of Some rc \<Rightarrow> (c', rc)
        | None \<Rightarrow> (let c' = (if pos' \<noteq> 0 then c'\<lparr>c_querybuf := drop pos' (c_querybuf c')\<rparr> else c') in
                   (c', if c_multibulklen c' = 0 then PREZ_OK else PREZ_ERR))))"
  using assms by (simp add: processMultibulkBuffer_def Let_def split: prod.split option.split)

lemma drop_or_all: "(if pos \<noteq> 0 then c\<lparr>c_querybuf := drop pos (c_querybuf c)\<rparr> else c) = c\<lparr>c_querybuf := drop pos (c_querybuf c)\<rparr>"
  by simp

lemma full_result:
  assumes c0: "idle c0" and l: "mb_loop env c1 pos = (after_args c1 obs q, pos', None)"
    and c1: "c1 = c0\<lparr>c_argv := obs0, c_querybuf := q1, c_bulklen := bl1, c_multibulklen := m1\<rparr>"
  shows "(let (c', pos', rc) = mb_loop env c1 pos
     in Some (case rc of Some rc \<Rightarrow> (c', rc)
        | None \<Rightarrow> (let c' = (if pos' \<noteq> 0 then c'\<lparr>c_querybuf := drop pos' (c_querybuf c')\<rparr> else c') in
                   (c', if c_multibulklen c' = 0 then PREZ_OK else PREZ_ERR)))) =
    Some (c0\<lparr>c_argv := obs0 @ obs, c_querybuf := drop pos' q\<rparr>, PREZ_OK)"
  unfolding l drop_or_all using c0 c1 by (cases c0) (simp add: after_args_def idle_def)

lemma awaiting_full:
  assumes c0: "idle c0" and args: "resp_ok args" and w: "awaiting c0 c args t"
  shows "\<exists>obs. processMultibulkBuffer env (c\<lparr>c_querybuf := c_querybuf c @ t @ rest\<rparr>) =
      Some (c0\<lparr>c_argv := obs, c_querybuf := rest\<rparr>, PREZ_OK) \<and> args_are obs args"
proof -
  consider (new) "c = c0\<lparr>c_querybuf := c_querybuf c\<rparr>" "c_querybuf c @ t = resp_cmd args"
    | (old) obs read todo bl where "args = read @ todo" "todo \<noteq> []" "args_are obs read" "bl = -1 \<or> bl = int (length (hd todo))"
        "c = c0\<lparr>c_argv := obs, c_querybuf := c_querybuf c, c_bulklen := bl, c_multibulklen := int (length todo)\<rparr>"
        "c_querybuf c @ t = arg_stream bl todo"
    using w unfolding awaiting_def by blast
  then show ?thesis
  proof cases
    case new
    let ?q = "c_querybuf c @ t @ rest" and ?c = "c0\<lparr>c_querybuf := c_querybuf c @ t @ rest, c_multibulklen := int (length args)\<rparr>"
    let ?pos = "length (show_int (int (length args))) + 3"
    have q: "?q = ''*'' @ show_int (int (length args)) @ CRLF @ concat (map bulk_str args) @ rest"
      using new(2) by (simp add: resp_cmd_def flip: append_assoc)
    have d: "drop ?pos ?q = arg_stream (c_bulklen ?c) args @ rest" "?pos \<le> length ?q"
      using c0 unfolding q by (simp_all add: arg_stream_def idle_def numeral_3_eq_3)
    have e: "expects ?c args" using c0 args by (simp add: expects_def idle_def resp_ok_def)
    obtain pos' obs q' where l: "mb_loop env ?c ?pos = (after_args ?c obs q', pos', None)" "args_are obs args" "drop pos' q' = rest"
      using mb_loop_full [of ?pos ?c args rest env] d e by auto
    have cq: "c\<lparr>c_querybuf := ?q\<rparr> = c0\<lparr>c_querybuf := ?q\<rparr>" by (subst new(1)) simp
    have c1: "?c = c0\<lparr>c_argv := [], c_querybuf := ?q, c_bulklen := -1, c_multibulklen := int (length args)\<rparr>"
      using c0 by (cases c0) (simp add: idle_def)
    show ?thesis
      unfolding cq multibulk_hdr [OF c0 args q] using full_result [OF c0 l(1) c1] l(2,3) by (auto simp: Let_def)
  next
    case old
    let ?q = "c_querybuf c @ t @ rest"
    let ?c = "c0\<lparr>c_argv := obs, c_querybuf := ?q, c_bulklen := bl, c_multibulklen := int (length todo)\<rparr>"
    have cq: "c\<lparr>c_querybuf := ?q\<rparr> = ?c" by (subst old(5)) simp
    have e: "expects ?c todo" using args old by (auto simp: expects_def resp_ok_def)
    have d: "drop 0 (c_querybuf ?c) = arg_stream (c_bulklen ?c) todo @ rest" using old(6) by (simp flip: append_assoc)
    obtain pos' obs' q' where l: "mb_loop env ?c 0 = (after_args ?c obs' q', pos', None)" "args_are obs' todo" "drop pos' q' = rest"
      using mb_loop_full [OF d e, of env] by auto
    have pos: "0 < c_multibulklen ?c" using old(2) by simp
    show ?thesis
      unfolding cq multibulk_resume [OF pos] full_result [OF c0 l(1) refl]
      using l(3) args_are_append [OF old(3) l(2)] old(1) by auto
  qed
qed

lemma awaiting_resumed:
  assumes "todo \<noteq> []" "bl = -1 \<or> bl = int (length (hd todo))" "arg_stream bl todo = q @ s"
    and "args = read @ todo" "args_are obs read"
  shows "awaiting c0 (c0\<lparr>c_argv := obs, c_querybuf := q, c_bulklen := bl, c_multibulklen := int (length todo)\<rparr>) args s"
  using assms unfolding awaiting_def by fastforce

text \<open>What a stop of the loop leaves behind.\<close>

lemma partial_result:
  assumes l: "mb_loop env c1 pos = (c1\<lparr>c_argv := c_argv c1 @ obs, c_querybuf := q, c_bulklen := bl, c_multibulklen := int (length todo)\<rparr>, pos', None)"
    and t: "todo \<noteq> []"
    and c1: "c1 = c0\<lparr>c_argv := obs0, c_querybuf := q1, c_bulklen := bl1, c_multibulklen := m1\<rparr>"
  shows "(let (c', pos', rc) = mb_loop env c1 pos
     in Some (case rc of Some rc \<Rightarrow> (c', rc)
        | None \<Rightarrow> (let c' = (if pos' \<noteq> 0 then c'\<lparr>c_querybuf := drop pos' (c_querybuf c')\<rparr> else c') in
                   (c', if c_multibulklen c' = 0 then PREZ_OK else PREZ_ERR)))) =
    Some (c0\<lparr>c_argv := obs0 @ obs, c_querybuf := drop pos' q, c_bulklen := bl, c_multibulklen := int (length todo)\<rparr>, PREZ_ERR)"
  unfolding l drop_or_all using t c1 by simp

lemma awaiting_partial:
  assumes c0: "idle c0" and args: "resp_ok args" and w: "awaiting c0 c args (t @ s)" and s: "s \<noteq> []"
    and small: "length (c_querybuf c @ t) \<le> PREZ_INLINE_MAX_SIZE"
  shows "\<exists>c'. processMultibulkBuffer env (c\<lparr>c_querybuf := c_querybuf c @ t\<rparr>) = Some (c', PREZ_ERR) \<and> awaiting c0 c' args s"
proof -
  let ?q = "c_querybuf c @ t"
  consider (new) "c = c0\<lparr>c_querybuf := c_querybuf c\<rparr>" "?q @ s = resp_cmd args"
    | (old) obs read todo bl where "args = read @ todo" "todo \<noteq> []" "args_are obs read" "bl = -1 \<or> bl = int (length (hd todo))"
        "c = c0\<lparr>c_argv := obs, c_querybuf := c_querybuf c, c_bulklen := bl, c_multibulklen := int (length todo)\<rparr>"
        "?q @ s = arg_stream bl todo"
    using w unfolding awaiting_def by auto
  then show ?thesis
  proof cases
    case new
    let ?n = "show_int (int (length args))"
    have cq: "c\<lparr>c_querybuf := ?q\<rparr> = c0\<lparr>c_querybuf := ?q\<rparr>" by (subst new(1)) simp
    have b: "?q @ s = (CHR ''*'' # ?n) @ CR # LF # concat (map bulk_str args)" using new(2) by (simp add: resp_cmd_def)
    have keep: "awaiting c0 (c0\<lparr>c_querybuf := ?q\<rparr>) args s" using new(2) by (simp add: awaiting_def)
    have n: "CR \<notin> set (CHR ''*'' # ?n)" "NUL \<notin> set (CHR ''*'' # ?n)" using show_int_no_cr show_int_no_nul by auto
    show ?thesis
    proof (cases "\<exists>rest. ?q = (CHR ''*'' # ?n) @ CR # LF # rest")
      case False
      have "processMultibulkBuffer env (c0\<lparr>c_querybuf := ?q\<rparr>) = Some (c0\<lparr>c_querybuf := ?q\<rparr>, PREZ_ERR)"
      proof (cases "CR \<in> set ?q")
        case True
        obtain p' where p': "?q = (CHR ''*'' # ?n) @ CR # p'" using prefix_hdr_no_cr [OF b True n(1)] by blast
        with b False have "p' = []" by (cases p') auto
        with p' strchr_here [OF n, of p'] c0 show ?thesis by (simp add: processMultibulkBuffer_def idle_def)
      qed (use c0 small in \<open>simp add: processMultibulkBuffer_def idle_def strchr_None\<close>)
      with cq keep show ?thesis by simp
    next
      case True
      then obtain rest where q: "?q = ''*'' @ ?n @ CRLF @ rest" by auto
      with b have rs: "concat (map bulk_str args) = rest @ s" by simp
      let ?c = "c0\<lparr>c_querybuf := ?q, c_multibulklen := int (length args)\<rparr>" and ?pos = "length ?n + 3"
      have e: "expects ?c args" "args \<noteq> []" using c0 args by (auto simp: expects_def idle_def resp_ok_def)
      have d: "arg_stream (c_bulklen ?c) args = drop ?pos (c_querybuf ?c) @ s" "?pos \<le> length (c_querybuf ?c)"
        using c0 rs unfolding q by (simp_all add: arg_stream_def idle_def numeral_3_eq_3)
      obtain q' bl' pos' obs' read' todo' where l: "mb_loop env ?c ?pos =
          (?c\<lparr>c_argv := c_argv ?c @ obs', c_querybuf := q', c_bulklen := bl', c_multibulklen := int (length todo')\<rparr>, pos', None)"
        "args = read' @ todo'" "todo' \<noteq> []" "args_are obs' read'" "bl' = -1 \<or> bl' = int (length (hd todo'))"
        "arg_stream bl' todo' = drop pos' q' @ s"
        using mb_loop_partial [OF e d(1) s d(2), of env] small by auto
      have c1: "?c = c0\<lparr>c_argv := [], c_querybuf := ?q, c_bulklen := -1, c_multibulklen := int (length args)\<rparr>"
        using c0 by (cases c0) (simp add: idle_def)
      show ?thesis
        unfolding cq multibulk_hdr [OF c0 args q]
        using partial_result [OF l(1,3) c1] awaiting_resumed [OF l(3,5,6,2,4), of c0] by (simp add: Let_def)
    qed
  next
    case old
    let ?c = "c0\<lparr>c_argv := obs, c_querybuf := ?q, c_bulklen := bl, c_multibulklen := int (length todo)\<rparr>"
    have cq: "c\<lparr>c_querybuf := ?q\<rparr> = ?c" by (subst old(5)) simp
    have e: "expects ?c todo" using args old by (auto simp: expects_def resp_ok_def)
    have d: "arg_stream (c_bulklen ?c) todo = drop 0 (c_querybuf ?c) @ s" using old(6) by simp
    obtain q' bl' pos' obs' read' todo' where l: "mb_loop env ?c 0 =
        (?c\<lparr>c_argv := c_argv ?c @ obs', c_querybuf := q', c_bulklen := bl', c_multibulklen := int (length todo')\<rparr>, pos', None)"
      "todo = read' @ todo'" "todo' \<noteq> []" "args_are obs' read'" "bl' = -1 \<or> bl' = int (length (hd todo'))"
      "arg_stream bl' todo' = drop pos' q' @ s"
      using mb_loop_partial [OF e old(2) d s, of env] small by auto
    have pos: "0 < c_multibulklen ?c" using old(2) by simp
    show ?thesis
      unfolding cq multibulk_resume [OF pos] partial_result [OF l(1,3) refl]
      using awaiting_resumed [OF l(3,5,6), of args "read @ read'" "obs @ obs'" c0] old(1) l(2) args_are_append [OF old(3) l(4)] by auto
  qed
qed

text \<open>The read handler appends what it read and runs the parser; pieces that leave the request
  incomplete answer PREZ_ERR.\<close>

fun feed :: "netenv \<Rightarrow> client \<Rightarrow> string list \<Rightarrow> (client \<times> int) option" where
  "feed env c [] = Some (c, PREZ_ERR)"
| "feed env c (t # ts) =
     do { (c, rc) \<leftarrow> processMultibulkBuffer env (c\<lparr>c_querybuf := c_querybuf c @ t\<rparr>);
          if ts = [] then Some (c, rc) else if rc = PREZ_OK then None else feed env c ts }"

lemma feed_awaiting:
  assumes c0: "idle c0" and args: "resp_ok args" and w: "awaiting c0 c args s" and eq: "concat ts @ t = s @ rest"
    and short: "length (concat ts) < length s" and small: "length (resp_cmd args) - length s + length (concat ts) \<le> PREZ_INLINE_MAX_SIZE"
  shows "\<exists>obs. feed env c (ts @ [t]) = Some (c0\<lparr>c_argv := obs, c_querybuf := rest\<rparr>, PREZ_OK) \<and> args_are obs args"
  using w eq short small
proof (induction ts arbitrary: c s)
  case Nil
  then show ?case using awaiting_full [OF c0 args Nil.prems(1), of env rest] by auto
next
  case (Cons x ts)
  then obtain s' where s': "s = x @ s'" "concat ts @ t = s' @ rest" "s' \<noteq> []"
    by (auto simp: append_eq_append_conv2)
  note len = awaiting_length [OF Cons.prems(1)]
  have "length (c_querybuf c @ x) \<le> PREZ_INLINE_MAX_SIZE" using Cons.prems(4) len s'(1) by simp
  then obtain c' where c': "processMultibulkBuffer env (c\<lparr>c_querybuf := c_querybuf c @ x\<rparr>) = Some (c', PREZ_ERR)"
    "awaiting c0 c' args s'" using awaiting_partial [OF c0 args _ s'(3)] Cons.prems(1) s'(1) by blast
  from Cons.IH [OF c'(2) s'(2)] Cons.prems(3,4) s'(1) len c'(1) show ?case by auto
qed

section \<open>Properties\<close>

text \<open>C31: a request in the multi bulk format gives exactly its arguments and leaves what follows it in
  the buffer, however the network cuts it into pieces: every incomplete piece answers that more is
  needed and none is rejected, as long as less than the inline limit arrived before the last piece.\<close>

theorem multibulk_pieces:
  assumes "idle c" "resp_ok args" "concat ts @ t = resp_cmd args @ rest"
    "length (concat ts) < length (resp_cmd args)" "length (concat ts) \<le> PREZ_INLINE_MAX_SIZE"
  shows "\<exists>obs. feed env c (ts @ [t]) = Some (c\<lparr>c_argv := obs, c_querybuf := rest\<rparr>, PREZ_OK) \<and> args_are obs args"
proof -
  have "awaiting c c args (resp_cmd args)" using assms(1) by (simp add: awaiting_def idle_def)
  from feed_awaiting [OF assms(1,2) this assms(3,4)] assms(5) show ?thesis by simp
qed

theorem multibulk_pieces_witness:
  "\<exists>obs. feed net_ideal new_client [''*2'' @ [CR], [LF] @ ''$3'' @ CRLF @ ''GE'', ''T'' @ CRLF @ ''$1'' @ CRLF @ ''k'' @ CRLF @ ''*'' ] =
      Some (new_client\<lparr>c_argv := obs, c_querybuf := ''*''\<rparr>, PREZ_OK) \<and> args_are obs [''GET'', ''k'']"
proof -
  have r: "resp_cmd [''GET'', ''k''] = ''*2'' @ CRLF @ ''$3'' @ CRLF @ ''GET'' @ CRLF @ ''$1'' @ CRLF @ ''k'' @ CRLF" by code_simp
  have h: "idle new_client" "resp_ok [''GET'', ''k'']" by (simp_all add: idle_def new_client_def resp_ok_def)
  show ?thesis
    using multibulk_pieces [OF h, of "[''*2'' @ [CR], [LF] @ ''$3'' @ CRLF @ ''GE'']" "''T'' @ CRLF @ ''$1'' @ CRLF @ ''k'' @ CRLF @ ''*''"
        "''*''" net_ideal] unfolding r by (simp add: PREZ_INLINE_MAX_SIZE_def)
qed

lemma strchr_LF:
  assumes "LF \<notin> set line" "NUL \<notin> set line"
  shows "strchr (line @ LF # t) LF = Some (length line)"
proof -
  have c: "cstr (line @ LF # t) = line @ LF # cstr t" using assms(2) by (induction line) (auto simp: cstr_def)
  have "takeWhile (\<lambda>x. x \<noteq> LF) (line @ LF # cstr t) = line" using assms(1) by (induction line) auto
  then show ?thesis by (simp add: strchr_def c)
qed

text \<open>C39: a line of words that ends in CR LF is parsed into its nonempty words and exactly the line is
  taken from the buffer; when it ends in a bare line feed the same words result, but the byte behind
  the line is lost, because the parser always steps two bytes over the words.\<close>

theorem inline_line_ends:
  assumes "LF \<notin> set line" "NUL \<notin> set line" "CR \<notin> set line" "sdssplitargs line = Some argv"
  shows "processInlineBuffer env (c\<lparr>c_querybuf := line @ CRLF @ rest\<rparr>) =
      (c\<lparr>c_querybuf := rest, c_argv := map (\<lambda>a. createObject (PSds a)) (filter (\<lambda>a. a \<noteq> []) argv)\<rparr>, PREZ_OK) \<and>
    processInlineBuffer env (c\<lparr>c_querybuf := line @ LF # x # rest\<rparr>) =
      (c\<lparr>c_querybuf := rest, c_argv := map (\<lambda>a. createObject (PSds a)) (filter (\<lambda>a. a \<noteq> []) argv)\<rparr>, PREZ_OK)"
proof
  have "strchr ((line @ [CR]) @ LF # rest) LF = Some (length (line @ [CR]))"
    using assms by (intro strchr_LF) auto
  then have 1: "strchr (line @ CRLF @ rest) LF = Some (Suc (length line))" by simp
  have 2: "(line @ CRLF @ rest) ! length line = CR" by simp
  show "processInlineBuffer env (c\<lparr>c_querybuf := line @ CRLF @ rest\<rparr>) =
      (c\<lparr>c_querybuf := rest, c_argv := map (\<lambda>a. createObject (PSds a)) (filter (\<lambda>a. a \<noteq> []) argv)\<rparr>, PREZ_OK)"
    using assms(4) 1 2 by (simp add: processInlineBuffer_def Let_def)
  have "line \<noteq> [] \<Longrightarrow> (line @ LF # x # rest) ! (length line - 1) \<noteq> CR"
    using assms(3) by (auto simp: nth_append) (metis last_in_set One_nat_def last_conv_nth')
  then show "processInlineBuffer env (c\<lparr>c_querybuf := line @ LF # x # rest\<rparr>) =
      (c\<lparr>c_querybuf := rest, c_argv := map (\<lambda>a. createObject (PSds a)) (filter (\<lambda>a. a \<noteq> []) argv)\<rparr>, PREZ_OK)"
    using assms(4) strchr_LF [OF assms(1,2), of "x # rest"] by (auto simp: processInlineBuffer_def Let_def)
qed

theorem inline_line_ends_witness:
  "processInlineBuffer net_ideal (new_client\<lparr>c_querybuf := ''GET a'' @ LF # CHR ''G'' # ''ET b''\<rparr>) =
    (new_client\<lparr>c_querybuf := ''ET b'', c_argv := [createObject (PSds ''GET''), createObject (PSds ''a'')]\<rparr>, PREZ_OK)"
proof -
  have s: "sdssplitargs ''GET a'' = Some [''GET'', ''a'']" by code_simp
  show ?thesis using inline_line_ends [OF _ _ _ s, of net_ideal "''ET b''" new_client "CHR ''G''"] by simp
qed

end
