(* ===== verification/Prez_Dict.thy ===== *)
theory Prez_Dict
  imports Prez_Prelude "HOL-Library.Multiset"
begin

text \<open>
  The hash table of src/src/dict.c: chained buckets, two tables while it is being resized, and
  rehashing of one bucket per operation.  A bucket is the list of its entries in chain order; an
  entry is referred to by table, bucket and position in the chain.  \<open>None\<close> is a failed assertion
  or an access to a NULL or out of range bucket.  The type of a dictionary (hash, comparison and
  duplication functions) is the parameter \<open>T\<close>, the global \<open>dict_can_resize\<close> the parameter \<open>can\<close>.
  The destructors of a type only release memory.
\<close>

unbundle bit_operations_syntax

section \<open>Data\<close>

record ('k, 'v) dictType =
  hashFunction :: "'k \<Rightarrow> nat"
  keyDup :: "('k \<Rightarrow> 'k) option"
  valDup :: "('v \<Rightarrow> 'v) option"
  keyCompare :: "('k \<Rightarrow> 'k \<Rightarrow> bool) option"

record ('k, 'v) dictht =
  ht_table :: "('k \<times> 'v) list list option"
  ht_size :: nat
  ht_sizemask :: nat
  ht_used :: nat

record ('k, 'v) dict =
  ht0 :: "('k, 'v) dictht"
  ht1 :: "('k, 'v) dictht"
  rehashidx :: int
  iterators :: int

abbreviation (input) DICT_OK :: int where "DICT_OK \<equiv> 0"
abbreviation (input) DICT_ERR :: int where "DICT_ERR \<equiv> 1"

definition DICT_HT_INITIAL_SIZE :: nat where "DICT_HT_INITIAL_SIZE = 4"
definition dict_force_resize_ratio :: nat where "dict_force_resize_ratio = 5"

definition dictIsRehashing :: "('k, 'v) dict \<Rightarrow> bool" where
  "dictIsRehashing d \<longleftrightarrow> rehashidx d \<noteq> -1"

definition dictSize :: "('k, 'v) dict \<Rightarrow> nat" where
  "dictSize d = ht_used (ht0 d) + ht_used (ht1 d)"

definition dictCompareKeys :: "('k, 'v) dictType \<Rightarrow> 'k \<Rightarrow> 'k \<Rightarrow> bool" where
  "dictCompareKeys T k1 k2 = (case keyCompare T of Some c \<Rightarrow> c k1 k2 | None \<Rightarrow> k1 = k2)"

definition dup_with :: "('a \<Rightarrow> 'a) option \<Rightarrow> 'a \<Rightarrow> 'a" where
  "dup_with f x = (case f of Some g \<Rightarrow> g x | None \<Rightarrow> x)"

section \<open>Creation and resizing\<close>

definition dictReset :: "('k, 'v) dictht" where
  "dictReset = \<lparr>ht_table = None, ht_size = 0, ht_sizemask = 0, ht_used = 0\<rparr>"

definition dictCreate :: "('k, 'v) dict" where
  "dictCreate = \<lparr>ht0 = dictReset, ht1 = dictReset, rehashidx = -1, iterators = 0\<rparr>"

function next_power_loop :: "nat \<Rightarrow> nat \<Rightarrow> nat" where
  "next_power_loop i sz = (if i \<ge> sz \<or> i = 0 then i else next_power_loop (i * 2) sz)"
  by pat_completeness auto
termination
  by (relation "measure (\<lambda>(i, sz). sz - i)") auto

declare next_power_loop.simps [simp del]

definition dictNextPower :: "nat \<Rightarrow> nat" where
  "dictNextPower sz = (if sz \<ge> 9223372036854775807 then 9223372036854775807
                       else next_power_loop DICT_HT_INITIAL_SIZE sz)"

definition dictExpand :: "('k, 'v) dict \<Rightarrow> nat \<Rightarrow> ('k, 'v) dict \<times> int" where
  "dictExpand d sz =
     (let realsize = dictNextPower sz in
      if dictIsRehashing d \<or> ht_used (ht0 d) > sz then (d, DICT_ERR)
      else
        let n = \<lparr>ht_table = Some (replicate realsize []), ht_size = realsize,
                 ht_sizemask = realsize - 1, ht_used = 0\<rparr> in
        if ht_table (ht0 d) = None then (d\<lparr>ht0 := n\<rparr>, DICT_OK)
        else (d\<lparr>ht1 := n, rehashidx := 0\<rparr>, DICT_OK))"

definition dictResize :: "bool \<Rightarrow> ('k, 'v) dict \<Rightarrow> ('k, 'v) dict \<times> int" where
  "dictResize can d =
     (if \<not> can \<or> dictIsRehashing d then (d, DICT_ERR)
      else
        let minimal = c_int32 (int (ht_used (ht0 d)));
            minimal = (if minimal < int DICT_HT_INITIAL_SIZE then int DICT_HT_INITIAL_SIZE else minimal)
        in dictExpand d (ull minimal))"

definition dictExpandIfNeeded :: "bool \<Rightarrow> ('k, 'v) dict \<Rightarrow> ('k, 'v) dict \<times> int" where
  "dictExpandIfNeeded can d =
     (if dictIsRehashing d then (d, DICT_OK)
      else if ht_size (ht0 d) = 0 then dictExpand d DICT_HT_INITIAL_SIZE
      else if ht_used (ht0 d) \<ge> ht_size (ht0 d) \<and>
              (can \<or> ht_used (ht0 d) div ht_size (ht0 d) > dict_force_resize_ratio)
      then dictExpand d (ht_used (ht0 d) * 2)
      else (d, DICT_OK))"

section \<open>Rehashing\<close>

text \<open>The first non-empty bucket from \<open>i\<close> on.\<close>

function skip_empty :: "('k \<times> 'v) list list \<Rightarrow> nat \<Rightarrow> nat option" where
  "skip_empty t i = (if i < length t then if t ! i = [] then skip_empty t (Suc i) else Some i else None)"
  by pat_completeness auto
termination
  by (relation "measure (\<lambda>(t, i). length t - i)") auto

declare skip_empty.simps [simp del]

text \<open>Push an entry on the chain of bucket \<open>h\<close>.\<close>

definition ht_push :: "('k, 'v) dictht \<Rightarrow> nat \<Rightarrow> 'k \<times> 'v \<Rightarrow> ('k, 'v) dictht option" where
  "ht_push ht h e =
     (case ht_table ht of
        None \<Rightarrow> None
      | Some t \<Rightarrow> if h < length t
                 then Some (ht\<lparr>ht_table := Some (t[h := e # t ! h]), ht_used := ht_used ht + 1\<rparr>) else None)"

fun move_chain ::
  "('k, 'v) dictType \<Rightarrow> ('k \<times> 'v) list \<Rightarrow> ('k, 'v) dictht \<Rightarrow> ('k, 'v) dictht \<Rightarrow>
   (('k, 'v) dictht \<times> ('k, 'v) dictht) option" where
  "move_chain T [] h0 h1 = Some (h0, h1)"
| "move_chain T (e # es) h0 h1 =
     do { h1 \<leftarrow> ht_push h1 (hashFunction T (fst e) AND ht_sizemask h1) e;
          move_chain T es (h0\<lparr>ht_used := ht_used h0 - 1\<rparr>) h1 }"

text \<open>One round of the loop of \<open>dictRehash\<close>; the flag tells whether rehashing is complete.\<close>

definition rehash_round :: "('k, 'v) dictType \<Rightarrow> ('k, 'v) dict \<Rightarrow> (('k, 'v) dict \<times> bool) option" where
  "rehash_round T d =
     (if ht_used (ht0 d) = 0
      then Some (d\<lparr>ht0 := ht1 d, ht1 := dictReset, rehashidx := -1\<rparr>, True)
      else if \<not> int (ht_size (ht0 d)) > rehashidx d then None
      else
        do { t \<leftarrow> ht_table (ht0 d);
             i \<leftarrow> skip_empty t (nat (rehashidx d));
             (h0, h1) \<leftarrow> move_chain T (t ! i) (ht0 d) (ht1 d);
             Some (d\<lparr>ht0 := h0\<lparr>ht_table := Some (t[i := []])\<rparr>, ht1 := h1, rehashidx := int i + 1\<rparr>, False) })"

fun rehash_loop :: "('k, 'v) dictType \<Rightarrow> ('k, 'v) dict \<Rightarrow> nat \<Rightarrow> (('k, 'v) dict \<times> int) option" where
  "rehash_loop T d 0 = Some (d, 1)"
| "rehash_loop T d (Suc n) =
     do { (d, stop) \<leftarrow> rehash_round T d; if stop then Some (d, 0) else rehash_loop T d n }"

definition dictRehash :: "('k, 'v) dictType \<Rightarrow> ('k, 'v) dict \<Rightarrow> nat \<Rightarrow> (('k, 'v) dict \<times> int) option" where
  "dictRehash T d n = (if \<not> dictIsRehashing d then Some (d, 0) else rehash_loop T d n)"

definition dictRehashStep :: "('k, 'v) dictType \<Rightarrow> ('k, 'v) dict \<Rightarrow> ('k, 'v) dict option" where
  "dictRehashStep T d = (if iterators d = 0 then map_option fst (dictRehash T d 1) else Some d)"

text \<open>
  \<open>dictRehashMilliseconds\<close>: the clock is a list of the times that successive readings
  return after the first one at \<open>start\<close>.
\<close>

fun rehash_ms :: "('k, 'v) dictType \<Rightarrow> ('k, 'v) dict \<Rightarrow> int \<Rightarrow> int \<Rightarrow> int list \<Rightarrow> int \<Rightarrow> (('k, 'v) dict \<times> int) option" where
  "rehash_ms T d ms start [] rehashes = None"
| "rehash_ms T d ms start (now # clock) rehashes =
     do { (d, more) \<leftarrow> dictRehash T d 100;
          if more = 0 then Some (d, rehashes)
          else if now - start > ms then Some (d, rehashes + 100)
          else rehash_ms T d ms start clock (rehashes + 100) }"

section \<open>Lookup, insertion, deletion\<close>

text \<open>The position of the first matching entry of a chain.\<close>

fun chain_find :: "('k, 'v) dictType \<Rightarrow> 'k \<Rightarrow> ('k \<times> 'v) list \<Rightarrow> nat option" where
  "chain_find T k [] = None"
| "chain_find T k (e # es) =
     (if dictCompareKeys T k (fst e) then Some 0 else map_option Suc (chain_find T k es))"

definition bucket :: "('k, 'v) dictType \<Rightarrow> ('k, 'v) dictht \<Rightarrow> 'k \<Rightarrow> (nat \<times> ('k \<times> 'v) list) option" where
  "bucket T ht k =
     (case ht_table ht of
        None \<Rightarrow> None
      | Some t \<Rightarrow> let idx = hashFunction T k AND ht_sizemask ht in
                 if idx < length t then Some (idx, t ! idx) else None)"

text \<open>An entry is found in table 0 or 1, at a bucket and a position of its chain.\<close>

type_synonym entry_ref = "nat \<times> nat \<times> nat"

definition find_tables :: "('k, 'v) dictType \<Rightarrow> ('k, 'v) dict \<Rightarrow> 'k \<Rightarrow> entry_ref option option" where
  "find_tables T d k =
     do { (idx, c) \<leftarrow> bucket T (ht0 d) k;
          case chain_find T k c of
            Some p \<Rightarrow> Some (Some (0, idx, p))
          | None \<Rightarrow>
              if \<not> dictIsRehashing d then Some None
              else do { (idx, c) \<leftarrow> bucket T (ht1 d) k;
                        Some (map_option (\<lambda>p. (1, idx, p)) (chain_find T k c)) } }"

definition dictFind :: "('k, 'v) dictType \<Rightarrow> ('k, 'v) dict \<Rightarrow> 'k \<Rightarrow> (('k, 'v) dict \<times> entry_ref option) option" where
  "dictFind T d k =
     (if ht_size (ht0 d) = 0 then Some (d, None)
      else
        do { d \<leftarrow> (if dictIsRehashing d then dictRehashStep T d else Some d);
             r \<leftarrow> find_tables T d k;
             Some (d, r) })"

definition get_entry :: "('k, 'v) dict \<Rightarrow> entry_ref \<Rightarrow> ('k \<times> 'v) option" where
  "get_entry d r = (case r of (tb, idx, p) \<Rightarrow>
     do { t \<leftarrow> ht_table (if tb = 0 then ht0 d else ht1 d);
          if idx < length t \<and> p < length (t ! idx) then Some (t ! idx ! p) else None })"

definition upd_table :: "('k, 'v) dict \<Rightarrow> nat \<Rightarrow> (('k, 'v) dictht \<Rightarrow> ('k, 'v) dictht) \<Rightarrow> ('k, 'v) dict" where
  "upd_table d tb f = (if tb = 0 then d\<lparr>ht0 := f (ht0 d)\<rparr> else d\<lparr>ht1 := f (ht1 d)\<rparr>)"

definition set_val :: "('k, 'v) dictType \<Rightarrow> ('k, 'v) dict \<Rightarrow> entry_ref \<Rightarrow> 'v \<Rightarrow> ('k, 'v) dict" where
  "set_val T d r v = (case r of (tb, idx, p) \<Rightarrow>
     upd_table d tb (\<lambda>ht. ht\<lparr>ht_table := map_option
       (\<lambda>t. t[idx := (t ! idx)[p := (fst (t ! idx ! p), dup_with (valDup T) v)]]) (ht_table ht)\<rparr>))"

definition dictFetchValue :: "('k, 'v) dictType \<Rightarrow> ('k, 'v) dict \<Rightarrow> 'k \<Rightarrow> (('k, 'v) dict \<times> 'v option) option" where
  "dictFetchValue T d k =
     do { (d, r) \<leftarrow> dictFind T d k;
          case r of None \<Rightarrow> Some (d, None)
          | Some r \<Rightarrow> do { e \<leftarrow> get_entry d r; Some (d, Some (snd e)) } }"

text \<open>The bucket for a new key, in the second table while rehashing; -1 if the key exists.\<close>

definition dictKeyIndex :: "bool \<Rightarrow> ('k, 'v) dictType \<Rightarrow> ('k, 'v) dict \<Rightarrow> 'k \<Rightarrow> (('k, 'v) dict \<times> int) option" where
  "dictKeyIndex can T d k =
     (let (d, rc) = dictExpandIfNeeded can d in
      if rc = DICT_ERR then Some (d, -1)
      else
        do { (idx, c) \<leftarrow> bucket T (ht0 d) k;
             if chain_find T k c \<noteq> None then Some (d, -1)
             else if \<not> dictIsRehashing d then Some (d, c_int32 (int idx))
             else do { (idx, c) \<leftarrow> bucket T (ht1 d) k;
                       if chain_find T k c \<noteq> None then Some (d, -1) else Some (d, c_int32 (int idx)) } })"

text \<open>
  \<open>dictAddRaw\<close>: the new entry is the head of its chain.  Its value is not set yet; it is the
  uninitialised \<open>junk\<close>.
\<close>

definition dictAddRaw ::
  "bool \<Rightarrow> 'v \<Rightarrow> ('k, 'v) dictType \<Rightarrow> ('k, 'v) dict \<Rightarrow> 'k \<Rightarrow> (('k, 'v) dict \<times> entry_ref option) option" where
  "dictAddRaw can junk T d k =
     do { d \<leftarrow> (if dictIsRehashing d then dictRehashStep T d else Some d);
          (d, index) \<leftarrow> dictKeyIndex can T d k;
          if index = -1 then Some (d, None)
          else if index < 0 then None
          else
            let tb = (if dictIsRehashing d then 1 else 0) in
            do { ht \<leftarrow> ht_push (if tb = 0 then ht0 d else ht1 d) (nat index) (dup_with (keyDup T) k, junk);
                 Some (upd_table d tb (\<lambda>_. ht), Some (tb, nat index, 0)) } }"

definition dictAdd ::
  "bool \<Rightarrow> 'v \<Rightarrow> ('k, 'v) dictType \<Rightarrow> ('k, 'v) dict \<Rightarrow> 'k \<Rightarrow> 'v \<Rightarrow> (('k, 'v) dict \<times> int) option" where
  "dictAdd can junk T d k v =
     do { (d, r) \<leftarrow> dictAddRaw can junk T d k;
          case r of None \<Rightarrow> Some (d, DICT_ERR) | Some r \<Rightarrow> Some (set_val T d r v, DICT_OK) }"

definition dictReplace ::
  "bool \<Rightarrow> 'v \<Rightarrow> ('k, 'v) dictType \<Rightarrow> ('k, 'v) dict \<Rightarrow> 'k \<Rightarrow> 'v \<Rightarrow> (('k, 'v) dict \<times> int) option" where
  "dictReplace can junk T d k v =
     do { (d, rc) \<leftarrow> dictAdd can junk T d k v;
          if rc = DICT_OK then Some (d, 1)
          else
            do { (d, r) \<leftarrow> dictFind T d k;
                 r \<leftarrow> r;
                 Some (set_val T d r v, 0) } }"

definition dictReplaceRaw ::
  "bool \<Rightarrow> 'v \<Rightarrow> ('k, 'v) dictType \<Rightarrow> ('k, 'v) dict \<Rightarrow> 'k \<Rightarrow> (('k, 'v) dict \<times> entry_ref option) option" where
  "dictReplaceRaw can junk T d k =
     do { (d, r) \<leftarrow> dictFind T d k;
          case r of Some _ \<Rightarrow> Some (d, r) | None \<Rightarrow> dictAddRaw can junk T d k }"

definition unlink :: "entry_ref \<Rightarrow> ('k, 'v) dict \<Rightarrow> ('k, 'v) dict" where
  "unlink r d = (case r of (tb, idx, p) \<Rightarrow>
     upd_table d tb (\<lambda>ht. ht\<lparr>ht_table := map_option
       (\<lambda>t. t[idx := take p (t ! idx) @ drop (Suc p) (t ! idx)]) (ht_table ht), ht_used := ht_used ht - 1\<rparr>))"

definition dictGenericDelete :: "('k, 'v) dictType \<Rightarrow> ('k, 'v) dict \<Rightarrow> 'k \<Rightarrow> (('k, 'v) dict \<times> int) option" where
  "dictGenericDelete T d k =
     (if ht_size (ht0 d) = 0 then Some (d, DICT_ERR)
      else
        do { d \<leftarrow> (if dictIsRehashing d then dictRehashStep T d else Some d);
             r \<leftarrow> find_tables T d k;
             case r of None \<Rightarrow> Some (d, DICT_ERR) | Some r \<Rightarrow> Some (unlink r d, DICT_OK) })"

definition dictDelete :: "('k, 'v) dictType \<Rightarrow> ('k, 'v) dict \<Rightarrow> 'k \<Rightarrow> (('k, 'v) dict \<times> int) option" where
  "dictDelete T d k = dictGenericDelete T d k"

section \<open>Invariant and abstraction\<close>

definition ents :: "('k, 'v) dictht \<Rightarrow> ('k \<times> 'v) multiset" where
  "ents ht = (case ht_table ht of None \<Rightarrow> {#} | Some t \<Rightarrow> mset (concat t))"

definition dents :: "('k, 'v) dict \<Rightarrow> ('k \<times> 'v) multiset" where
  "dents d = ents (ht0 d) + ents (ht1 d)"

text \<open>No two entries have equal keys.\<close>

definition uniq :: "('k, 'v) dictType \<Rightarrow> ('k \<times> 'v) multiset \<Rightarrow> bool" where
  "uniq T M \<longleftrightarrow> (\<forall>e f. {#e, f#} \<subseteq># M \<longrightarrow> \<not> dictCompareKeys T (fst e) (fst f))"

definition ht_ok :: "('k, 'v) dictType \<Rightarrow> ('k \<Rightarrow> bool) \<Rightarrow> ('k, 'v) dictht \<Rightarrow> bool" where
  "ht_ok T K ht \<longleftrightarrow>
     (case ht_table ht of
        None \<Rightarrow> ht = dictReset
      | Some t \<Rightarrow> length t = ht_size ht \<and> (\<exists>n. ht_size ht = 2 ^ n) \<and> ht_size ht \<le> 2147483648 \<and>
          ht_sizemask ht = ht_size ht - 1 \<and> ht_used ht = size (mset (concat t)) \<and>
          (\<forall>i < length t. \<forall>e \<in> set (t ! i). K (fst e) \<and> hashFunction T (fst e) AND ht_sizemask ht = i))"

definition dict_ok :: "('k, 'v) dictType \<Rightarrow> ('k \<Rightarrow> bool) \<Rightarrow> ('k, 'v) dict \<Rightarrow> bool" where
  "dict_ok T K d \<longleftrightarrow> ht_ok T K (ht0 d) \<and> ht_ok T K (ht1 d) \<and> uniq T (dents d) \<and> 0 \<le> iterators d \<and>
     (if rehashidx d = -1 then ht1 d = dictReset
      else ht_table (ht0 d) \<noteq> None \<and> ht_table (ht1 d) \<noteq> None \<and> 0 \<le> rehashidx d \<and>
        rehashidx d \<le> int (ht_size (ht0 d)) \<and>
        (\<forall>t i. ht_table (ht0 d) = Some t \<longrightarrow> i < nat (rehashidx d) \<longrightarrow> t ! i = []))"

text \<open>The value a dictionary holds for a key.\<close>

definition table_list :: "('k, 'v) dictht \<Rightarrow> ('k \<times> 'v) list" where
  "table_list ht = (case ht_table ht of None \<Rightarrow> [] | Some t \<Rightarrow> concat t)"

definition dict_map :: "('k, 'v) dictType \<Rightarrow> ('k, 'v) dict \<Rightarrow> 'k \<Rightarrow> 'v option" where
  "dict_map T d k = map_option snd (find (\<lambda>e. dictCompareKeys T k (fst e)) (table_list (ht0 d) @ table_list (ht1 d)))"

section \<open>Buckets\<close>

lemma mset_table_list: "mset (table_list (ht0 d) @ table_list (ht1 d)) = dents d"
  by (simp add: table_list_def dents_def ents_def split: option.split)

lemma mset_concat_update:
  "i < length t \<Longrightarrow> mset (concat (t[i := b])) + mset (t ! i) = mset (concat t) + mset b"
proof (induction t arbitrary: i)
  case (Cons c t)
  then show ?case
  proof (cases i)
    case (Suc j)
    with Cons have "mset (concat (t[j := b])) + mset (t ! j) = mset (concat t) + mset b" by simp
    with Suc show ?thesis by (simp add: ac_simps)
  qed simp
qed simp

lemma mset_bucket_subset: "i < length t \<Longrightarrow> mset (t ! i) \<subseteq># mset (concat t)"
proof (induction t arbitrary: i)
  case (Cons c t)
  then show ?case
  proof (cases i)
    case (Suc j)
    with Cons show ?thesis by (simp add: subset_mset.add_increasing)
  qed simp
qed simp

lemma and_mask_less: "h AND (2 ^ n - 1) < (2 ^ n :: nat)"
proof -
  have "h AND (2 ^ n - 1) = h mod 2 ^ n"
    by (metis mask_eq_exp_minus_1 take_bit_eq_mask take_bit_eq_mod)
  then show ?thesis by simp
qed

lemma chain_find_None: "chain_find T k c = None \<longleftrightarrow> (\<forall>e \<in> set c. \<not> dictCompareKeys T k (fst e))"
  by (induction c) auto

lemma chain_find_Some: "chain_find T k c = Some p \<Longrightarrow> p < length c \<and> dictCompareKeys T k (fst (c ! p))"
  by (induction c arbitrary: p) (auto split: if_splits)

lemma ht_ok_reset [simp]: "ht_ok T K dictReset"
  by (simp add: ht_ok_def dictReset_def)

lemma ents_reset [simp]: "ents dictReset = {#}"
  by (simp add: ents_def dictReset_def)

lemma ht_okD:
  assumes "ht_ok T K ht" "ht_table ht = Some t"
  shows "length t = ht_size ht" "ht_used ht = size (ents ht)" "ht_size ht \<le> 2147483648"
    "hashFunction T k AND ht_sizemask ht < length t" "0 < ht_size ht"
    "i < length t \<Longrightarrow> e \<in> set (t ! i) \<Longrightarrow> K (fst e) \<and> hashFunction T (fst e) AND ht_sizemask ht = i"
  using assms and_mask_less [of "hashFunction T k"] by (auto simp: ht_ok_def ents_def)

lemma ht_ok_used: "ht_ok T K ht \<Longrightarrow> ht_used ht = size (ents ht)"
  by (cases "ht_table ht") (auto simp: ht_ok_def ents_def dictReset_def)

lemma ht_ok_size0: "ht_ok T K ht \<Longrightarrow> ht_size ht = 0 \<longleftrightarrow> ht_table ht = None"
  by (cases "ht_table ht") (auto simp: ht_ok_def dictReset_def)

lemma ht_ok_ents: "ht_ok T K ht \<Longrightarrow> e \<in># ents ht \<Longrightarrow> K (fst e)"
proof (cases "ht_table ht")
  case (Some t)
  assume "ht_ok T K ht" "e \<in># ents ht"
  with Some show ?thesis by (fastforce simp: ents_def in_set_conv_nth dest: ht_okD(6))
qed (simp add: ents_def)

text \<open>Replacing one bucket.\<close>

lemma ht_ok_bucket:
  assumes ok: "ht_ok T K ht" "ht_table ht = Some t" and i: "i < length t"
    and b: "\<And>e. e \<in> set b \<Longrightarrow> K (fst e) \<and> hashFunction T (fst e) AND ht_sizemask ht = i"
    and ht': "ht_table ht' = Some (t[i := b])" "ht_size ht' = ht_size ht" "ht_sizemask ht' = ht_sizemask ht"
      "ht_used ht' = size (mset (concat (t[i := b])))"
  shows "ht_ok T K ht'"
proof -
  have "K (fst e) \<and> hashFunction T (fst e) AND ht_sizemask ht = j"
    if "j < length t" "e \<in> set (t[i := b] ! j)" for e j
    using that b [of e] ht_okD(6) [OF ok that(1), of e] i by (cases "i = j") auto
  then show ?thesis using ok ht' by (simp add: ht_ok_def)
qed

lemma ht_push_ok:
  assumes ok: "ht_ok T K ht" "ht_table ht = Some t" and e: "K (fst e)" "h = hashFunction T (fst e) AND ht_sizemask ht"
  shows "\<exists>ht'. ht_push ht h e = Some ht' \<and> ht_ok T K ht' \<and> ents ht' = add_mset e (ents ht) \<and>
    ht_table ht' = Some (t[h := e # t ! h]) \<and> ht_size ht' = ht_size ht \<and> ht_sizemask ht' = ht_sizemask ht"
proof -
  have h: "h < length t" using ht_okD(4) [OF ok] e(2) by simp
  have m: "mset (concat (t[h := e # t ! h])) = add_mset e (mset (concat t))"
    using mset_concat_update [OF h, of "e # t ! h"] by simp
  let ?ht = "ht\<lparr>ht_table := Some (t[h := e # t ! h]), ht_used := ht_used ht + 1\<rparr>"
  have "ht_ok T K ?ht"
  proof (rule ht_ok_bucket [OF ok h])
    fix f assume "f \<in> set (e # t ! h)"
    then show "K (fst f) \<and> hashFunction T (fst f) AND ht_sizemask ht = h"
      using e ht_okD(6) [OF ok h, of f] by auto
  next
    show "ht_used ?ht = size (mset (concat (t[h := e # t ! h])))"
      using m ht_okD(2) [OF ok] ok(2) by (simp add: ents_def)
  qed simp_all
  then show ?thesis using ok(2) h m by (simp add: ht_push_def ents_def)
qed

lemma ents_update:
  assumes "ht_table ht = Some t" "i < length t" "ht_table ht' = Some (t[i := b])"
  shows "ents ht' + mset (t ! i) = ents ht + mset b"
  using assms mset_concat_update [OF assms(2), of b] by (simp add: ents_def)

lemma pair_subset: "{#a, b#} \<subseteq># M \<longleftrightarrow> a \<in># M \<and> b \<in># M - {#a#}"
  by (simp add: insert_subset_eq_iff)

lemma pair_subset_add:
  "{#a, b#} \<subseteq># add_mset x M \<longleftrightarrow> {#a, b#} \<subseteq># M \<or> a = x \<and> b \<in># M \<or> b = x \<and> a \<in># M"
proof (cases "a = x")
  case True
  then show ?thesis unfolding pair_subset by (auto dest: in_diffD)
next
  case False
  then have "add_mset x M - {#a#} = add_mset x (M - {#a#})" if "a \<in># M"
    using that by (simp add: diff_union_swap2)
  with False show ?thesis unfolding pair_subset by (auto dest: in_diffD)
qed

lemma uniq_add:
  "uniq T (add_mset e M) \<longleftrightarrow> uniq T M \<and> (\<forall>f \<in># M. \<not> dictCompareKeys T (fst e) (fst f) \<and> \<not> dictCompareKeys T (fst f) (fst e))"
  unfolding uniq_def pair_subset_add by blast

lemma uniq_subset: "uniq T (M + N) \<Longrightarrow> uniq T M"
  unfolding uniq_def by (meson mset_subset_eq_add_left subset_mset.order_trans)

lemma skip_empty_ok:
  "i \<le> j \<Longrightarrow> j < length t \<Longrightarrow> t ! j \<noteq> [] \<Longrightarrow>
   \<exists>p. skip_empty t i = Some p \<and> i \<le> p \<and> p < length t \<and> t ! p \<noteq> [] \<and> (\<forall>q < p. i \<le> q \<longrightarrow> t ! q = [])"
proof (induction t i rule: skip_empty.induct)
  case (1 t i)
  show ?case
  proof (cases "t ! i = []")
    case True
    then have "Suc i \<le> j" using "1.prems" by (metis Suc_leI le_neq_implies_less)
    with 1 True obtain p where p: "skip_empty t (Suc i) = Some p" "Suc i \<le> p" "p < length t" "t ! p \<noteq> []"
      "\<forall>q < p. Suc i \<le> q \<longrightarrow> t ! q = []" by auto
    have "\<forall>q < p. i \<le> q \<longrightarrow> t ! q = []" using p(5) True by (metis Suc_leI le_neq_implies_less)
    with True "1.prems" p show ?thesis by (subst skip_empty.simps) auto
  next
    case False
    with "1.prems" show ?thesis by (subst skip_empty.simps) auto
  qed
qed

section \<open>Correctness for every well-behaved key type\<close>

text \<open>
  What dict.c relies on in a dictionary type, for the keys that are used with it: comparison is
  an equivalence, equal keys have equal hashes, and keys and values are stored as they are.
\<close>

locale dict_type =
  fixes T :: "('k, 'v) dictType" and K :: "'k \<Rightarrow> bool"
  assumes cmp_refl: "K a \<Longrightarrow> dictCompareKeys T a a"
    and cmp_sym: "K a \<Longrightarrow> K b \<Longrightarrow> dictCompareKeys T a b \<Longrightarrow> dictCompareKeys T b a"
    and cmp_trans: "K a \<Longrightarrow> K b \<Longrightarrow> K c \<Longrightarrow> dictCompareKeys T a b \<Longrightarrow> dictCompareKeys T b c \<Longrightarrow> dictCompareKeys T a c"
    and cmp_hash: "K a \<Longrightarrow> K b \<Longrightarrow> dictCompareKeys T a b \<Longrightarrow> hashFunction T a = hashFunction T b"
    and no_dup: "keyDup T = None" "valDup T = None"
begin

lemma dents_K: "dict_ok T K d \<Longrightarrow> e \<in># dents d \<Longrightarrow> K (fst e)"
  by (auto simp: dict_ok_def dents_def dest: ht_ok_ents)

lemma uniq_eq:
  assumes "uniq T M" "e \<in># M" "f \<in># M" "dictCompareKeys T (fst e) (fst f)"
  shows "e = f"
proof (rule ccontr)
  assume "e \<noteq> f"
  then have "f \<in># M - {#e#}" using assms(3) by (simp add: in_diff_count)
  then have "{#e, f#} \<subseteq># M" using assms(2) by (simp add: pair_subset)
  then show False using assms(1,4) unfolding uniq_def by blast
qed

lemma dict_map_iff:
  assumes ok: "dict_ok T K d" and k: "K k"
  shows "dict_map T d k = Some v \<longleftrightarrow> (\<exists>k'. (k', v) \<in># dents d \<and> dictCompareKeys T k k')"
proof -
  let ?l = "table_list (ht0 d) @ table_list (ht1 d)" and ?P = "\<lambda>e. dictCompareKeys T k (fst e)"
  have ml: "mset ?l = dents d" by (rule mset_table_list)
  then have set: "set ?l = set_mset (dents d)" by (metis set_mset_mset)
  show ?thesis
  proof (cases "find ?P ?l")
    case None
    then have "\<forall>e \<in># dents d. \<not> ?P e" unfolding find_None_iff set by blast
    then show ?thesis using None by (auto simp: dict_map_def)
  next
    case (Some e)
    then have e: "e \<in># dents d" "?P e" by (metis find_Some_iff nth_mem set)+
    have u: "f = e" if "f \<in># dents d" "?P f" for f
    proof (rule uniq_eq [of "dents d"])
      show "dictCompareKeys T (fst f) (fst e)"
        using cmp_trans [OF dents_K [OF ok that(1)] k dents_K [OF ok e(1)]]
          cmp_sym [OF k dents_K [OF ok that(1)] that(2)] e(2) by blast
    qed (use ok that e in \<open>auto simp: dict_ok_def\<close>)
    have m: "dict_map T d k = Some (snd e)" using Some by (simp add: dict_map_def)
    show ?thesis
    proof
      assume "dict_map T d k = Some v"
      then have "e = (fst e, v)" using m by (cases e) simp
      then show "\<exists>k'. (k', v) \<in># dents d \<and> dictCompareKeys T k k'" using e by metis
    next
      assume "\<exists>k'. (k', v) \<in># dents d \<and> dictCompareKeys T k k'"
      then obtain k' where "(k', v) = e" using u by fastforce
      then show "dict_map T d k = Some v" using m by auto
    qed
  qed
qed

lemma dict_map_None:
  "dict_ok T K d \<Longrightarrow> K k \<Longrightarrow> dict_map T d k = None \<longleftrightarrow> (\<forall>e \<in># dents d. \<not> dictCompareKeys T k (fst e))"
  using dict_map_iff [of d k] by (cases "dict_map T d k") fastforce+

lemma dict_map_cong: "dict_ok T K d \<Longrightarrow> dict_ok T K d' \<Longrightarrow> dents d' = dents d \<Longrightarrow> K k \<Longrightarrow> dict_map T d' k = dict_map T d k"
  using dict_map_iff [of d k] dict_map_iff [of d' k] by (cases "dict_map T d' k"; cases "dict_map T d k") auto

lemma move_chain_ok:
  assumes "ht_ok T K h1" "ht_table h1 \<noteq> None" "\<forall>e \<in> set es. K (fst e)"
  shows "\<exists>h1'. move_chain T es h0 h1 = Some (h0\<lparr>ht_used := ht_used h0 - length es\<rparr>, h1') \<and> ht_ok T K h1' \<and>
    ents h1' = mset es + ents h1 \<and> ht_table h1' \<noteq> None"
  using assms
proof (induction es arbitrary: h0 h1)
  case (Cons e es)
  then obtain t where t: "ht_table h1 = Some t" by auto
  obtain h2 where h2: "ht_push h1 (hashFunction T (fst e) AND ht_sizemask h1) e = Some h2" "ht_ok T K h2"
    "ents h2 = add_mset e (ents h1)" "ht_table h2 \<noteq> None"
    using ht_push_ok [OF Cons.prems(1) t, of e] Cons.prems(3) by auto
  have "\<forall>e \<in> set es. K (fst e)" using Cons.prems(3) by simp
  from Cons.IH [OF h2(2,4) this, of "h0\<lparr>ht_used := ht_used h0 - 1\<rparr>"] h2(1,3) show ?case by auto
qed auto

lemma rehash_round_ok:
  assumes ok: "dict_ok T K d" and re: "dictIsRehashing d"
  shows "\<exists>d' b. rehash_round T d = Some (d', b) \<and> dict_ok T K d' \<and> dents d' = dents d \<and>
    iterators d' = iterators d \<and> ht_table (ht0 d') \<noteq> None \<and> b = (ht_used (ht0 d) = 0) \<and> dictIsRehashing d' = (\<not> b) \<and>
    (\<not> b \<longrightarrow> ht_used (ht0 d') < ht_used (ht0 d))"
proof (cases "ht_used (ht0 d) = 0")
  case True
  then have "ents (ht0 d) = {#}" using ok ht_ok_used [of T K "ht0 d"] by (simp add: dict_ok_def)
  then show ?thesis using True ok re
    by (auto simp: rehash_round_def dict_ok_def dictIsRehashing_def dents_def)
next
  case False
  obtain t where t: "ht_table (ht0 d) = Some t" using ok re by (auto simp: dict_ok_def dictIsRehashing_def)
  have ok0: "ht_ok T K (ht0 d)" "ht_ok T K (ht1 d)" "ht_table (ht1 d) \<noteq> None" "0 \<le> rehashidx d"
    "\<And>i. i < nat (rehashidx d) \<Longrightarrow> t ! i = []"
    using ok re t by (auto simp: dict_ok_def dictIsRehashing_def)
  have "concat t \<noteq> []" using False ht_okD(2) [OF ok0(1) t] t by (auto simp: ents_def)
  then obtain j where j: "j < length t" "t ! j \<noteq> []" by (auto simp: in_set_conv_nth)
  then have rj: "nat (rehashidx d) \<le> j" using ok0(5) by (meson not_le)
  obtain i where i: "skip_empty t (nat (rehashidx d)) = Some i" "nat (rehashidx d) \<le> i" "i < length t" "t ! i \<noteq> []"
    "\<forall>q < i. nat (rehashidx d) \<le> q \<longrightarrow> t ! q = []"
    using skip_empty_ok [OF rj j] by auto
  have K: "\<forall>e \<in> set (t ! i). K (fst e)" using ht_okD(6) [OF ok0(1) t i(3)] by auto
  obtain h1 where h1: "move_chain T (t ! i) (ht0 d) (ht1 d) =
      Some ((ht0 d)\<lparr>ht_used := ht_used (ht0 d) - length (t ! i)\<rparr>, h1)" "ht_ok T K h1"
    "ents h1 = mset (t ! i) + ents (ht1 d)" "ht_table h1 \<noteq> None"
    using move_chain_ok [OF ok0(2,3) K, of "ht0 d"] by auto
  let ?h0 = "(ht0 d)\<lparr>ht_used := ht_used (ht0 d) - length (t ! i), ht_table := Some (t[i := []])\<rparr>"
  let ?d = "d\<lparr>ht0 := ?h0, ht1 := h1, rehashidx := int i + 1\<rparr>"
  have e0: "ents ?h0 + mset (t ! i) = ents (ht0 d)" using ents_update [OF t i(3), of ?h0 "[]"] by simp
  have sz: "ht_size (ht0 d) = length t" using ht_okD(1) [OF ok0(1) t] by simp
  have used: "ht_used (ht0 d) = size (ents ?h0) + length (t ! i)"
    using ht_okD(2) [OF ok0(1) t] e0 by (metis size_mset size_union)
  have "ht_ok T K ?h0"
    by (rule ht_ok_bucket [OF ok0(1) t i(3), of "[]"]) (use used in \<open>simp_all add: ents_def\<close>)
  moreover have "dents ?d = dents d" using e0 h1(3) by (simp add: dents_def ac_simps)
  moreover have "\<forall>q < Suc i. t[i := []] ! q = []"
    using i(3,5) ok0(5) by (auto simp: nth_list_update less_Suc_eq not_le)
  ultimately have "dict_ok T K ?d" using ok h1(2,4) i(3) sz
    by (simp add: dict_ok_def nat_add_distrib)
  moreover have "int (ht_size (ht0 d)) > rehashidx d" using sz rj j(1) ok0(4) by linarith
  then have "rehash_round T d = Some (?d, False)" using False t i(1) h1(1) by (simp add: rehash_round_def)
  moreover have "0 < length (t ! i)" using i(4) by simp
  ultimately show ?thesis using \<open>dents ?d = dents d\<close> False used by (simp add: dictIsRehashing_def)
qed

lemma rehash_step_ok:
  assumes "dict_ok T K d" "dictIsRehashing d"
  shows "\<exists>d'. dictRehashStep T d = Some d' \<and> dict_ok T K d' \<and> dents d' = dents d \<and> iterators d' = iterators d \<and>
    ht_table (ht0 d') \<noteq> None"
proof (cases "iterators d = 0")
  case True
  obtain d' b where "rehash_round T d = Some (d', b)" "dict_ok T K d'" "dents d' = dents d" "iterators d' = iterators d"
    "ht_table (ht0 d') \<noteq> None" using rehash_round_ok [OF assms] by blast
  with True assms(2) show ?thesis by (cases b) (auto simp: dictRehashStep_def dictRehash_def)
next
  case False
  with assms show ?thesis by (auto simp: dictRehashStep_def dict_ok_def dictIsRehashing_def)
qed

text \<open>Enough rounds complete the rehashing, and the map does not change.\<close>

lemma rehash_loop_ok:
  assumes "dict_ok T K d" "dictIsRehashing d"
  shows "\<exists>d' r. rehash_loop T d n = Some (d', r) \<and> dict_ok T K d' \<and> dents d' = dents d \<and>
    (ht_used (ht0 d) < n \<longrightarrow> r = 0 \<and> \<not> dictIsRehashing d')"
  using assms
proof (induction n arbitrary: d)
  case (Suc n)
  obtain d1 b where d1: "rehash_round T d = Some (d1, b)" "dict_ok T K d1" "dents d1 = dents d"
    "dictIsRehashing d1 = (\<not> b)" "\<not> b \<longrightarrow> ht_used (ht0 d1) < ht_used (ht0 d)"
    using rehash_round_ok [OF Suc.prems] by blast
  show ?case
  proof (cases b)
    case True
    with d1 show ?thesis by auto
  next
    case False
    obtain d' r where "rehash_loop T d1 n = Some (d', r)" "dict_ok T K d'" "dents d' = dents d1"
      "ht_used (ht0 d1) < n \<longrightarrow> r = 0 \<and> \<not> dictIsRehashing d'"
      using Suc.IH [OF d1(2)] d1(4) False by blast
    with d1 False show ?thesis by auto
  qed
qed auto

end

context dict_type
begin

lemma bucket_ok:
  assumes ok: "ht_ok T K ht" and t: "ht_table ht = Some t" and k: "K k"
  shows "\<exists>idx c. bucket T ht k = Some (idx, c) \<and> idx = hashFunction T k AND ht_sizemask ht \<and> idx < length t \<and>
    c = t ! idx \<and> (\<forall>e \<in># ents ht. dictCompareKeys T k (fst e) \<longrightarrow> e \<in> set c)"
proof -
  let ?i = "hashFunction T k AND ht_sizemask ht"
  have i: "?i < length t" using ht_okD(4) [OF ok t] by simp
  have "e \<in> set (t ! ?i)" if e: "e \<in># ents ht" "dictCompareKeys T k (fst e)" for e
  proof -
    have "e \<in> set (concat t)" using e(1) t by (simp add: ents_def)
    then obtain c where "c \<in> set t" "e \<in> set c" by auto
    then obtain j where j: "j < length t" "e \<in> set (t ! j)" by (metis in_set_conv_nth)
    then have "K (fst e)" "hashFunction T (fst e) AND ht_sizemask ht = j" using ht_okD(6) [OF ok t] by auto
    then show ?thesis using cmp_hash [OF k _ e(2)] j by simp
  qed
  then show ?thesis using t i by (simp add: bucket_def Let_def)
qed

lemma get_entry_in:
  assumes "get_entry d (tb, idx, p) = Some e"
  shows "e \<in># (if tb = 0 then ents (ht0 d) else ents (ht1 d))"
proof -
  obtain t where t: "ht_table (if tb = 0 then ht0 d else ht1 d) = Some t" "idx < length t" "p < length (t ! idx)"
    "e = t ! idx ! p" using assms by (auto simp: get_entry_def split: bind_splits if_splits)
  then have "e \<in> set (concat t)" by (auto intro: nth_mem)
  with t(1) show ?thesis by (simp add: ents_def split: if_splits)
qed

lemma find_tables_ok:
  assumes ok: "dict_ok T K d" and k: "K k" and tb: "ht_table (ht0 d) \<noteq> None"
  shows "\<exists>r. find_tables T d k = Some r \<and>
    (case r of None \<Rightarrow> dict_map T d k = None
     | Some ref \<Rightarrow> \<exists>e. get_entry d ref = Some e \<and> e \<in># dents d \<and> dictCompareKeys T k (fst e))"
proof -
  obtain t where t: "ht_table (ht0 d) = Some t" using tb by auto
  have ok01: "ht_ok T K (ht0 d)" "ht_ok T K (ht1 d)" using ok by (auto simp: dict_ok_def)
  obtain i c where b0: "bucket T (ht0 d) k = Some (i, c)" "i < length t" "c = t ! i"
    "\<forall>e \<in># ents (ht0 d). dictCompareKeys T k (fst e) \<longrightarrow> e \<in> set c"
    using bucket_ok [OF ok01(1) t k] by blast
  have hit: "\<exists>e. get_entry d (tb, i, p) = Some e \<and> e \<in># dents d \<and> dictCompareKeys T k (fst e)"
    if "chain_find T k (u ! i) = Some p" "ht_table (if tb = 0 then ht0 d else ht1 d) = Some u" "i < length u"
    for tb i p u
  proof -
    have "get_entry d (tb, i, p) = Some (u ! i ! p)"
      using that chain_find_Some [OF that(1)] by (simp add: get_entry_def)
    with get_entry_in [OF this] chain_find_Some [OF that(1)] show ?thesis
      by (auto simp: dents_def split: if_splits)
  qed
  show ?thesis
  proof (cases "chain_find T k c")
    case (Some p)
    then show ?thesis using b0(1-3) hit [of t i p 0] t by (simp add: find_tables_def)
  next
    case None
    then have n0: "\<forall>e \<in># ents (ht0 d). \<not> dictCompareKeys T k (fst e)"
      using b0(4) unfolding chain_find_None by blast
    show ?thesis
    proof (cases "dictIsRehashing d")
      case False
      then have "ents (ht1 d) = {#}" using ok by (simp add: dict_ok_def dictIsRehashing_def)
      with n0 have "dict_map T d k = None" unfolding dict_map_None [OF ok k] dents_def by simp
      with False None b0(1) show ?thesis by (simp add: find_tables_def)
    next
      case True
      then obtain u where u: "ht_table (ht1 d) = Some u" using ok by (auto simp: dict_ok_def dictIsRehashing_def)
      obtain j c' where b1: "bucket T (ht1 d) k = Some (j, c')" "j < length u" "c' = u ! j"
        "\<forall>e \<in># ents (ht1 d). dictCompareKeys T k (fst e) \<longrightarrow> e \<in> set c'"
        using bucket_ok [OF ok01(2) u k] by blast
      show ?thesis
      proof (cases "chain_find T k c'")
        case (Some p)
        then show ?thesis using None True b0(1) b1(1-3) hit [of u j p 1] u by (simp add: find_tables_def)
      next
        case None': None
        then have "\<forall>e \<in># ents (ht1 d). \<not> dictCompareKeys T k (fst e)"
          using b1(4) unfolding chain_find_None by blast
        with n0 have "dict_map T d k = None"
          unfolding dict_map_None [OF ok k] dents_def by (metis union_iff)
        with None None' True b0(1) b1(1) show ?thesis by (simp add: find_tables_def)
      qed
    qed
  qed
qed

lemma dictFind_ok:
  assumes ok: "dict_ok T K d" and k: "K k"
  shows "\<exists>d' r. dictFind T d k = Some (d', r) \<and> dict_ok T K d' \<and> dents d' = dents d \<and> iterators d' = iterators d \<and>
    (case r of None \<Rightarrow> dict_map T d k = None
     | Some ref \<Rightarrow> \<exists>e. get_entry d' ref = Some e \<and> e \<in># dents d \<and> dictCompareKeys T k (fst e))"
proof (cases "ht_size (ht0 d) = 0")
  case True
  then have n: "ht_table (ht0 d) = None" using ok ht_ok_size0 [of T K "ht0 d"] by (simp add: dict_ok_def)
  then have "dents d = {#}" using ok by (auto simp: dict_ok_def dents_def ents_def dictReset_def split: if_splits)
  then have "dict_map T d k = None" using dict_map_None [OF ok k] by simp
  with True ok show ?thesis by (simp add: dictFind_def)
next
  case False
  then have tb: "ht_table (ht0 d) \<noteq> None" using ok ht_ok_size0 [of T K "ht0 d"] by (simp add: dict_ok_def)
  obtain d1 where d1: "(if dictIsRehashing d then dictRehashStep T d else Some d) = Some d1" "dict_ok T K d1"
    "dents d1 = dents d" "iterators d1 = iterators d" "ht_table (ht0 d1) \<noteq> None"
    using rehash_step_ok [OF ok] ok tb by (cases "dictIsRehashing d") auto
  obtain r where r: "find_tables T d1 k = Some r"
    "case r of None \<Rightarrow> dict_map T d1 k = None
     | Some ref \<Rightarrow> \<exists>e. get_entry d1 ref = Some e \<and> e \<in># dents d1 \<and> dictCompareKeys T k (fst e)"
    using find_tables_ok [OF d1(2) k d1(5)] by blast
  have "dict_map T d1 k = dict_map T d k" using dict_map_cong [OF ok d1(2,3) k] .
  with d1 r False show ?thesis by (auto simp: dictFind_def split: option.splits)
qed

lemma dictFetchValue_ok:
  assumes ok: "dict_ok T K d" and k: "K k"
  shows "\<exists>d'. dictFetchValue T d k = Some (d', dict_map T d k) \<and> dict_ok T K d' \<and> dents d' = dents d \<and>
    iterators d' = iterators d"
proof -
  obtain d' r where r: "dictFind T d k = Some (d', r)" "dict_ok T K d'" "dents d' = dents d" "iterators d' = iterators d"
    "case r of None \<Rightarrow> dict_map T d k = None
     | Some ref \<Rightarrow> \<exists>e. get_entry d' ref = Some e \<and> e \<in># dents d \<and> dictCompareKeys T k (fst e)"
    using dictFind_ok [OF ok k] by blast
  show ?thesis
  proof (cases r)
    case None
    then show ?thesis using r by (simp add: dictFetchValue_def)
  next
    case (Some ref)
    then obtain e where e: "get_entry d' ref = Some e" "e \<in># dents d" "dictCompareKeys T k (fst e)" using r by auto
    then have "dict_map T d k = Some (snd e)" using dict_map_iff [OF ok k, of "snd e"] by (metis prod.collapse)
    then show ?thesis using r(1-4) Some e(1) by (simp add: dictFetchValue_def)
  qed
qed

end

section \<open>Insertion and deletion\<close>

lemma mset_swap:
  assumes "a + x = h + b" "b + e = x + (s :: 'a multiset)"
  shows "a + e = h + s"
proof (rule multiset_eqI)
  fix y
  show "count (a + e) y = count (h + s) y"
    using arg_cong [OF assms(1), of "\<lambda>m. count m y"] arg_cong [OF assms(2), of "\<lambda>m. count m y"] by simp
qed

lemma next_power_loop_ok:
  "\<exists>n. next_power_loop (2 ^ m) sz = 2 ^ n \<and> sz \<le> 2 ^ n \<and> 2 ^ n \<le> max (2 ^ m) (2 * sz)"
proof (induction "sz - 2 ^ m" arbitrary: m rule: less_induct)
  case less
  show ?case
  proof (cases "sz \<le> 2 ^ m")
    case True
    then have "next_power_loop (2 ^ m) sz = 2 ^ m" by (subst next_power_loop.simps) simp
    with True show ?thesis by (intro exI [of _ m]) auto
  next
    case False
    have pos: "(0::nat) < 2 ^ m" by simp
    have "sz - 2 ^ Suc m < sz - 2 ^ m" unfolding power_Suc using False pos by linarith
    from less [OF this] obtain n where n: "next_power_loop (2 ^ Suc m) sz = 2 ^ n" "sz \<le> 2 ^ n"
      "2 ^ n \<le> max (2 ^ Suc m) (2 * sz)" by blast
    have "next_power_loop (2 ^ m) sz = next_power_loop (2 ^ Suc m) sz"
      using False by (subst next_power_loop.simps) (simp add: mult.commute)
    with n False show ?thesis by (intro exI [of _ n]) auto
  qed
qed

lemma dictNextPower_ok:
  assumes "sz \<le> 536870912"
  shows "\<exists>n. dictNextPower sz = 2 ^ n \<and> sz \<le> 2 ^ n \<and> (2 ^ n :: nat) \<le> 2147483648"
proof -
  have "DICT_HT_INITIAL_SIZE = 2 ^ 2" by (simp add: DICT_HT_INITIAL_SIZE_def)
  moreover obtain n where "next_power_loop (2 ^ 2) sz = 2 ^ n" "sz \<le> 2 ^ n" "2 ^ n \<le> max (2 ^ 2) (2 * sz)"
    using next_power_loop_ok by blast
  moreover have "max (2 ^ 2) (2 * sz) \<le> 2147483648" using assms by simp
  ultimately show ?thesis using assms by (intro exI [of _ n]) (simp add: dictNextPower_def)
qed

lemma ht_ok_new:
  "r = 2 ^ n \<Longrightarrow> r \<le> 2147483648 \<Longrightarrow>
   ht_ok T K \<lparr>ht_table = Some (replicate r []), ht_size = r, ht_sizemask = r - 1, ht_used = 0\<rparr>"
  by (auto simp: ht_ok_def)

lemma dictExpand_ok:
  assumes ok: "dict_ok T K d" and sz: "\<not> dictIsRehashing d" "ht_used (ht0 d) \<le> sz" "sz \<le> 536870912"
  shows "\<exists>d'. dictExpand d sz = (d', DICT_OK) \<and> dict_ok T K d' \<and> dents d' = dents d \<and> iterators d' = iterators d \<and>
    ht_table (ht0 d') \<noteq> None"
proof -
  let ?r = "dictNextPower sz"
  let ?n = "\<lparr>ht_table = Some (replicate ?r []), ht_size = ?r, ht_sizemask = ?r - 1, ht_used = 0\<rparr> :: ('a, 'b) dictht"
  obtain m where m: "?r = 2 ^ m" "?r \<le> 2147483648" using dictNextPower_ok [OF sz(3)] by auto
  have n: "ht_ok T K ?n" using ht_ok_new [OF m] by simp
  have e: "ents ?n = {#}" by (simp add: ents_def)
  have ok1: "ht1 d = dictReset" using ok sz(1) by (simp add: dict_ok_def dictIsRehashing_def)
  show ?thesis
  proof (cases "ht_table (ht0 d)")
    case None
    then have "ents (ht0 d) = {#}" by (simp add: ents_def)
    with None ok n e ok1 sz show ?thesis
      by (simp add: dictExpand_def Let_def dict_ok_def dents_def dictIsRehashing_def)
  next
    case (Some t)
    with ok n e ok1 sz show ?thesis
      by (simp add: dictExpand_def Let_def dict_ok_def dents_def dictIsRehashing_def)
  qed
qed

lemma dictExpandIfNeeded_ok:
  assumes ok: "dict_ok T K d" and small: "size (dents d) < 268435456"
  shows "\<exists>d'. dictExpandIfNeeded can d = (d', DICT_OK) \<and> dict_ok T K d' \<and> dents d' = dents d \<and>
    iterators d' = iterators d \<and> ht_table (ht0 d') \<noteq> None"
proof -
  have ok0: "ht_ok T K (ht0 d)" using ok by (simp add: dict_ok_def)
  have used: "ht_used (ht0 d) < 268435456"
    using ht_ok_used [OF ok0] small by (simp add: dents_def)
  consider "dictIsRehashing d" | "\<not> dictIsRehashing d" "ht_size (ht0 d) = 0"
    | "\<not> dictIsRehashing d" "ht_size (ht0 d) \<noteq> 0" by blast
  then show ?thesis
  proof cases
    case 1
    then show ?thesis using ok by (simp add: dictExpandIfNeeded_def dict_ok_def dictIsRehashing_def)
  next
    case 2
    then have "ht_used (ht0 d) = 0" using ok0 ht_ok_size0 [OF ok0] by (simp add: ht_ok_def dictReset_def)
    with 2 dictExpand_ok [OF ok, of DICT_HT_INITIAL_SIZE] show ?thesis
      by (simp add: dictExpandIfNeeded_def DICT_HT_INITIAL_SIZE_def)
  next
    case 3
    then have "ht_table (ht0 d) \<noteq> None" using ht_ok_size0 [OF ok0] by simp
    with 3 ok used dictExpand_ok [OF ok 3(1), of "ht_used (ht0 d) * 2"] show ?thesis
      by (auto simp: dictExpandIfNeeded_def)
  qed
qed

context dict_type
begin

text \<open>Replacing the value of an entry, and removing an entry.\<close>

lemma upd_entry:
  assumes ok: "dict_ok T K d" and e: "get_entry d (tb, idx, p) = Some e"
    and bs: "\<And>f. f \<in> set bs \<Longrightarrow> fst f = fst e"
    and t: "ht_table (if tb = 0 then ht0 d else ht1 d) = Some t"
    and u: "uniq T (dents d - {#e#} + mset bs)"
    and cnt: "length bs \<le> 1"
  defines "b \<equiv> take p (t ! idx) @ bs @ drop (Suc p) (t ! idx)"
  defines "d' \<equiv> upd_table d tb (\<lambda>ht. ht\<lparr>ht_table := Some (t[idx := b]), ht_used := ht_used ht + length bs - 1\<rparr>)"
  shows "dict_ok T K d' \<and> dents d' = dents d - {#e#} + mset bs \<and> iterators d' = iterators d"
proof -
  define ht where "ht = (if tb = 0 then ht0 d else ht1 d)"
  let ?ht' = "ht\<lparr>ht_table := Some (t[idx := b]), ht_used := ht_used ht + length bs - 1\<rparr>"
  have okt: "ht_ok T K ht" using ok by (simp add: dict_ok_def ht_def)
  have t': "ht_table ht = Some t" using t by (simp add: ht_def)
  have i: "idx < length t" "p < length (t ! idx)" "e = t ! idx ! p"
    using e t by (auto simp: get_entry_def split: if_splits)
  have split: "t ! idx = take p (t ! idx) @ e # drop (Suc p) (t ! idx)"
    using id_take_nth_drop [OF i(2)] i(3) by simp
  have mb: "mset b + {#e#} = mset (t ! idx) + mset bs"
    unfolding b_def by (subst (3) split) simp
  have ein: "e \<in> set (t ! idx)" using i by simp
  have "ents ?ht' + mset (t ! idx) = ents ht + mset b" using ents_update [OF t' i(1), of ?ht' b] by simp
  then have en: "ents ?ht' + {#e#} = ents ht + mset bs" using mb by (rule mset_swap)
  have inn: "e \<in># ents ht" using get_entry_in [OF e] unfolding ht_def by (cases "tb = 0") simp_all
  have en': "ents ?ht' = ents ht - {#e#} + mset bs"
  proof -
    obtain R where R: "ents ht = add_mset e R" using inn by (meson multi_member_split)
    then show ?thesis using en by simp
  qed
  have used: "ht_used ?ht' = size (mset (concat (t[idx := b])))"
  proof -
    have "size (ents ?ht') + 1 = size (ents ht) + length bs" using arg_cong [OF en, of size] by simp
    then show ?thesis using ht_okD(2) [OF okt t'] by (simp add: ents_def)
  qed
  have "ht_ok T K ?ht'"
  proof (rule ht_ok_bucket [OF okt t' i(1), of b])
    fix f assume "f \<in> set b"
    then have "f \<in> set (t ! idx) \<or> fst f = fst e" using bs [of f] by (auto simp: b_def dest: in_set_takeD in_set_dropD)
    then show "K (fst f) \<and> hashFunction T (fst f) AND ht_sizemask ht = idx"
      using ht_okD(6) [OF okt t' i(1)] ein by metis
  qed (use used in simp_all)
  moreover have de: "dents d' = dents d - {#e#} + mset bs"
    using en' inn by (cases "tb = 0") (simp_all add: d'_def upd_table_def dents_def ht_def ac_simps)
  moreover have "t[idx := b] ! j = []" if "tb = 0" "t ! j = []" for j
    using that ein i(1) by (cases "j = idx") auto
  moreover have "rehashidx d = -1 \<Longrightarrow> tb = 0" using ok t by (auto simp: dict_ok_def dictReset_def split: if_splits)
  moreover have un: "uniq T (dents d')" using u de by simp
  moreover have "tb = 0 \<Longrightarrow> ht0 d' = ?ht' \<and> ht1 d' = ht1 d" "tb \<noteq> 0 \<Longrightarrow> ht0 d' = ht0 d \<and> ht1 d' = ?ht'"
    "rehashidx d' = rehashidx d" "iterators d' = iterators d"
    by (simp_all add: d'_def upd_table_def ht_def)
  ultimately show ?thesis using ok t by (cases "tb = 0") (auto simp: dict_ok_def ht_def)
qed

end

context dict_type
begin

lemma map_after_add:
  assumes ok: "dict_ok T K d" "dict_ok T K d'" and k: "K k" "K x"
    and de: "dents d' = add_mset (k', v) R" "dents d = R + S" "\<forall>f \<in># S. dictCompareKeys T k (fst f)"
      "dictCompareKeys T k k'"
  shows "dict_map T d' x = (if dictCompareKeys T x k then Some v else dict_map T d x)"
proof (cases "dictCompareKeys T x k")
  case True
  have "K k'" using dents_K [OF ok(2), of "(k', v)"] de(1) by simp
  then have "dictCompareKeys T x k'" using cmp_trans [OF k(2,1) _ True de(4)] by blast
  moreover have "(k', v) \<in># dents d'" using de(1) by simp
  ultimately have "dict_map T d' x = Some v" using dict_map_iff [OF ok(2) k(2)] by blast
  with True show ?thesis by simp
next
  case False
  have k': "K k'" using dents_K [OF ok(2), of "(k', v)"] de(1) by simp
  have "\<not> dictCompareKeys T x k'" using False cmp_trans [OF k(2) k' k(1)] cmp_sym [OF k(1) k' de(4)] by blast
  moreover have "\<not> dictCompareKeys T x (fst f)" if "f \<in># S" for f
  proof
    assume c: "dictCompareKeys T x (fst f)"
    have "K (fst f)" using dents_K [OF ok(1), of f] de(2) that by simp
    then show False using False cmp_trans [OF k(2) _ k(1) c] cmp_sym [OF k(1)] de(3) that by blast
  qed
  then have "(\<exists>k''. (k'', w) \<in># R + S \<and> dictCompareKeys T x k'') \<longleftrightarrow> (\<exists>k''. (k'', w) \<in># R \<and> dictCompareKeys T x k'')" for w
    by fastforce
  ultimately have "dict_map T d' x = Some w \<longleftrightarrow> dict_map T d x = Some w" for w
    unfolding dict_map_iff [OF ok(2) k(2)] dict_map_iff [OF ok(1) k(2)] de(1,2) by fastforce
  with False show ?thesis by (metis not_Some_eq)
qed

lemma map_after_del:
  assumes ok: "dict_ok T K d" "dict_ok T K d'" and k: "K k" "K x"
    and de: "dents d = add_mset e (dents d')" "dictCompareKeys T k (fst e)"
  shows "dict_map T d' x = (if dictCompareKeys T x k then None else dict_map T d x)"
proof -
  have ke: "K (fst e)" using dents_K [OF ok(1), of e] de(1) by simp
  have u: "uniq T (add_mset e (dents d'))" using ok(1) de(1) by (simp add: dict_ok_def)
  show ?thesis
  proof (cases "dictCompareKeys T x k")
    case True
    have "\<not> dictCompareKeys T x (fst f)" if f: "f \<in># dents d'" for f
    proof
      assume c: "dictCompareKeys T x (fst f)"
      have "K (fst f)" using dents_K [OF ok(2) f] .
      then have "dictCompareKeys T (fst e) (fst f)"
        using cmp_trans [OF ke k(2), of "fst f"] cmp_sym [OF k(2) ke cmp_trans [OF k(2,1) ke True de(2)]] c by blast
      then show False using u f unfolding uniq_add by blast
    qed
    with True show ?thesis using dict_map_None [OF ok(2) k(2)] by simp
  next
    case False
    have "\<not> dictCompareKeys T x (fst e)"
      using False cmp_trans [OF k(2) ke k(1)] cmp_sym [OF k(1) ke de(2)] by blast
    then have "dict_map T d' x = Some w \<longleftrightarrow> dict_map T d x = Some w" for w
      unfolding dict_map_iff [OF ok(2) k(2)] dict_map_iff [OF ok(1) k(2)] de(1) by fastforce
    with False show ?thesis by (metis not_Some_eq)
  qed
qed

lemma set_val_ok:
  assumes ok: "dict_ok T K d" and e: "get_entry d r = Some e"
  shows "dict_ok T K (set_val T d r v) \<and> dents (set_val T d r v) = add_mset (fst e, v) (dents d - {#e#}) \<and>
    iterators (set_val T d r v) = iterators d"
proof -
  obtain tb idx p where r: "r = (tb, idx, p)" by (cases r)
  obtain t where t: "ht_table (if tb = 0 then ht0 d else ht1 d) = Some t" "idx < length t" "p < length (t ! idx)"
    "e = t ! idx ! p" using e r by (auto simp: get_entry_def split: bind_splits if_splits)
  have "e \<in># dents d" using get_entry_in [of d tb idx p e] e r by (auto simp: dents_def split: if_splits)
  then obtain R where R: "dents d = add_mset e R" by (meson multi_member_split)
  have "uniq T (add_mset e R)" using ok R by (simp add: dict_ok_def)
  then have "uniq T (add_mset (fst e, v) R)" unfolding uniq_add by simp
  then have u: "uniq T (dents d - {#e#} + mset [(fst e, v)])" using R by simp
  have "set_val T d r v = upd_table d tb (\<lambda>ht. ht\<lparr>ht_table := Some (t[idx := take p (t ! idx) @ [(fst e, v)] @
      drop (Suc p) (t ! idx)]), ht_used := ht_used ht + length [(fst e, v)] - 1\<rparr>)"
    using t r no_dup by (cases "tb = 0") (simp_all add: set_val_def upd_table_def dup_with_def upd_conv_take_nth_drop)
  moreover have "get_entry d (tb, idx, p) = Some e" using e r by simp
  ultimately show ?thesis using upd_entry [OF ok _ _ t(1) u] by simp
qed

lemma unlink_ok:
  assumes ok: "dict_ok T K d" and e: "get_entry d r = Some e"
  shows "dict_ok T K (unlink r d) \<and> dents d = add_mset e (dents (unlink r d))"
proof -
  obtain tb idx p where r: "r = (tb, idx, p)" by (cases r)
  obtain t where t: "ht_table (if tb = 0 then ht0 d else ht1 d) = Some t"
    using e r by (auto simp: get_entry_def split: bind_splits)
  have "e \<in># dents d" using get_entry_in [of d tb idx p e] e r by (auto simp: dents_def split: if_splits)
  then obtain R where R: "dents d = add_mset e R" by (meson multi_member_split)
  have "uniq T (add_mset e R)" using ok R by (simp add: dict_ok_def)
  then have u: "uniq T (dents d - {#e#} + mset [])" using R unfolding uniq_add by simp
  have "unlink r d = upd_table d tb (\<lambda>ht. ht\<lparr>ht_table := Some (t[idx := take p (t ! idx) @ [] @
      drop (Suc p) (t ! idx)]), ht_used := ht_used ht + length ([] :: ('a \<times> 'b) list) - 1\<rparr>)"
    using t r by (cases "tb = 0") (simp_all add: unlink_def upd_table_def)
  moreover have "get_entry d (tb, idx, p) = Some e" using e r by simp
  ultimately have "dict_ok T K (unlink r d) \<and> dents (unlink r d) = dents d - {#e#}"
    using upd_entry [OF ok _ _ t u] by simp
  then show ?thesis using R by simp
qed


end

context dict_type
begin

lemma dictSize_ok: "dict_ok T K d \<Longrightarrow> dictSize d = size (dents d)"
  using ht_ok_used [of T K "ht0 d"] ht_ok_used [of T K "ht1 d"] by (simp add: dictSize_def dents_def dict_ok_def)

lemma step_ok:
  assumes "dict_ok T K d" "ht_table (ht0 d) \<noteq> None \<or> dictIsRehashing d"
  shows "\<exists>d1. (if dictIsRehashing d then dictRehashStep T d else Some d) = Some d1 \<and> dict_ok T K d1 \<and>
    dents d1 = dents d \<and> iterators d1 = iterators d \<and> ht_table (ht0 d1) \<noteq> None"
  using rehash_step_ok [OF assms(1)] assms by (cases "dictIsRehashing d") auto

lemma entry_map:
  "dict_ok T K d \<Longrightarrow> K k \<Longrightarrow> e \<in># dents d \<Longrightarrow> dictCompareKeys T k (fst e) \<Longrightarrow> dict_map T d k = Some (snd e)"
  using dict_map_iff [of d k "snd e"] by (metis prod.collapse)

lemma dictDelete_ok:
  assumes ok: "dict_ok T K d" and k: "K k"
  shows "\<exists>d' rc. dictDelete T d k = Some (d', rc) \<and> dict_ok T K d' \<and>
    rc = (if dict_map T d k = None then DICT_ERR else DICT_OK) \<and>
    (\<forall>x. K x \<longrightarrow> dict_map T d' x = (if dictCompareKeys T x k then None else dict_map T d x)) \<and>
    dictSize d' + (if dict_map T d k = None then 0 else 1) = dictSize d"
proof (cases "ht_size (ht0 d) = 0")
  case True
  then have "ht_table (ht0 d) = None" using ok ht_ok_size0 [of T K "ht0 d"] by (simp add: dict_ok_def)
  then have de: "dents d = {#}" using ok by (auto simp: dict_ok_def dents_def ents_def dictReset_def split: if_splits)
  have "dict_map T d x = None" if "K x" for x using dict_map_None [OF ok that] de by simp
  with True ok k show ?thesis by (simp add: dictDelete_def dictGenericDelete_def)
next
  case False
  then have "ht_table (ht0 d) \<noteq> None" using ok ht_ok_size0 [of T K "ht0 d"] by (simp add: dict_ok_def)
  then obtain d1 where d1: "(if dictIsRehashing d then dictRehashStep T d else Some d) = Some d1" "dict_ok T K d1"
    "dents d1 = dents d" "ht_table (ht0 d1) \<noteq> None" using step_ok [OF ok] by blast
  have m1: "K x \<Longrightarrow> dict_map T d1 x = dict_map T d x" for x using dict_map_cong [OF ok d1(2,3)] .
  obtain r where r: "find_tables T d1 k = Some r"
    "case r of None \<Rightarrow> dict_map T d1 k = None
     | Some ref \<Rightarrow> \<exists>e. get_entry d1 ref = Some e \<and> e \<in># dents d1 \<and> dictCompareKeys T k (fst e)"
    using find_tables_ok [OF d1(2) k d1(4)] by blast
  have sz: "dictSize d1 = dictSize d" using dictSize_ok ok d1(2,3) by simp
  show ?thesis
  proof (cases r)
    case None
    then have n: "dict_map T d k = None" using r(2) m1 k by simp
    have "dict_map T d1 x = None" if "K x" "dictCompareKeys T x k" for x
    proof -
      have "\<not> dictCompareKeys T x (fst e)" if e: "e \<in># dents d" for e
        using n dict_map_None [OF ok k] e cmp_trans [OF k \<open>K x\<close> dents_K [OF ok e]]
          cmp_sym [OF \<open>K x\<close> k \<open>dictCompareKeys T x k\<close>] by blast
      then show ?thesis using dict_map_None [OF d1(2) \<open>K x\<close>] d1(3) by simp
    qed
    with n None False d1(1,2) r(1) m1 sz show ?thesis
      by (simp add: dictDelete_def dictGenericDelete_def)
  next
    case (Some ref)
    then obtain e where e: "get_entry d1 ref = Some e" "e \<in># dents d1" "dictCompareKeys T k (fst e)" using r(2) by auto
    have s: "dict_map T d k = Some (snd e)" using entry_map [OF ok k] e d1(3) by simp
    note u = unlink_ok [OF d1(2) e(1)]
    have "dictSize (unlink ref d1) + 1 = dictSize d"
      using u dictSize_ok [of "unlink ref d1"] dictSize_ok [OF d1(2)] sz by simp
    moreover have "dict_map T (unlink ref d1) x = (if dictCompareKeys T x k then None else dict_map T d x)" if "K x" for x
      using map_after_del [OF d1(2) _ k that _ e(3)] u m1 that by simp
    moreover have "dictDelete T d k = Some (unlink ref d1, DICT_OK)"
      using Some False d1(1) r(1) by (simp add: dictDelete_def dictGenericDelete_def)
    ultimately show ?thesis using s u by auto
  qed
qed

lemma dictKeyIndex_ok:
  assumes ok: "dict_ok T K d" and k: "K k" and small: "size (dents d) < 268435456"
  shows "\<exists>d' i. dictKeyIndex can T d k = Some (d', i) \<and> dict_ok T K d' \<and> dents d' = dents d \<and> iterators d' = iterators d \<and>
    (if dict_map T d k \<noteq> None then i = -1
     else \<exists>t. ht_table (if dictIsRehashing d' then ht1 d' else ht0 d') = Some t \<and> 0 \<le> i \<and>
       nat i = hashFunction T k AND ht_sizemask (if dictIsRehashing d' then ht1 d' else ht0 d'))"
proof -
  obtain d' where d': "dictExpandIfNeeded can d = (d', DICT_OK)" "dict_ok T K d'" "dents d' = dents d"
    "iterators d' = iterators d" "ht_table (ht0 d') \<noteq> None" using dictExpandIfNeeded_ok [OF ok small] by blast
  have m: "dict_map T d' k = dict_map T d k" using dict_map_cong [OF ok d'(2,3) k] .
  obtain t where t: "ht_table (ht0 d') = Some t" using d'(5) by auto
  have ok01: "ht_ok T K (ht0 d')" "ht_ok T K (ht1 d')" using d'(2) by (auto simp: dict_ok_def)
  have i32: "c_int32 (int i) = int i" if "ht_ok T K ht" "ht_table ht = Some u" "i < length u" for ht u i
    using ht_okD(1,3) [OF that(1,2)] that(3) by (intro c_int32_id) auto
  obtain r where r: "find_tables T d' k = Some r"
    "case r of None \<Rightarrow> dict_map T d' k = None
     | Some ref \<Rightarrow> \<exists>e. get_entry d' ref = Some e \<and> e \<in># dents d' \<and> dictCompareKeys T k (fst e)"
    using find_tables_ok [OF d'(2) k d'(5)] by blast
  then have rN: "r = None \<longleftrightarrow> dict_map T d k = None" using entry_map [OF d'(2) k] m by (cases r) auto
  obtain i c where b0: "bucket T (ht0 d') k = Some (i, c)" "i = hashFunction T k AND ht_sizemask (ht0 d')" "i < length t"
    using bucket_ok [OF ok01(1) t k] by blast
  show ?thesis
  proof (cases "dictIsRehashing d'")
    case False
    then have "dictKeyIndex can T d k = Some (d', if r = None then int i else -1)"
      using d'(1) b0(1) r(1) i32 [OF ok01(1) t b0(3)]
      by (cases "chain_find T k c") (auto simp: dictKeyIndex_def find_tables_def)
    with False d'(2-4) rN b0(2) t show ?thesis by auto
  next
    case True
    then obtain u where u: "ht_table (ht1 d') = Some u" using d'(2) by (auto simp: dict_ok_def dictIsRehashing_def)
    obtain j c' where b1: "bucket T (ht1 d') k = Some (j, c')" "j = hashFunction T k AND ht_sizemask (ht1 d')" "j < length u"
      using bucket_ok [OF ok01(2) u k] by blast
    have "dictKeyIndex can T d k = Some (d', if r = None then int j else -1)"
      using True d'(1) b0(1) b1(1) r(1) i32 [OF ok01(2) u b1(3)]
      by (cases "chain_find T k c"; cases "chain_find T k c'") (auto simp: dictKeyIndex_def find_tables_def)
    with True d'(2-4) rN b1(2) u show ?thesis by auto
  qed
qed

end

context dict_type
begin

lemma push_entry_ok:
  assumes ok: "dict_ok T K d" and k: "K k" and none: "dict_map T d k = None"
    and t: "ht_table (if dictIsRehashing d then ht1 d else ht0 d) = Some t"
    and i: "i = hashFunction T k AND ht_sizemask (if dictIsRehashing d then ht1 d else ht0 d)"
  defines "tb \<equiv> (if dictIsRehashing d then 1 else 0 :: nat)"
  shows "\<exists>ht. ht_push (if tb = 0 then ht0 d else ht1 d) i (k, v) = Some ht \<and> dict_ok T K (upd_table d tb (\<lambda>_. ht)) \<and>
    dents (upd_table d tb (\<lambda>_. ht)) = add_mset (k, v) (dents d) \<and> iterators (upd_table d tb (\<lambda>_. ht)) = iterators d \<and>
    get_entry (upd_table d tb (\<lambda>_. ht)) (tb, i, 0) = Some (k, v)"
proof -
  define h where "h = (if dictIsRehashing d then ht1 d else ht0 d)"
  have okh: "ht_ok T K h" using ok by (simp add: dict_ok_def h_def)
  have th: "ht_table h = Some t" "i = hashFunction T (fst (k, v)) AND ht_sizemask h" using t i by (simp_all add: h_def)
  have il: "i < length t" using ht_okD(4) [OF okh th(1)] th(2) by simp
  obtain ht where ht: "ht_push h i (k, v) = Some ht" "ht_ok T K ht" "ents ht = add_mset (k, v) (ents h)"
    "ht_table ht = Some (t[i := (k, v) # t ! i])" "ht_size ht = ht_size h"
    using ht_push_ok [OF okh th(1) _ th(2)] k by auto
  have sel: "(if tb = 0 then ht0 d else ht1 d) = h" by (simp add: tb_def h_def)
  let ?d = "upd_table d tb (\<lambda>_. ht)"
  have f: "dictIsRehashing d \<Longrightarrow> ht0 ?d = ht0 d \<and> ht1 ?d = ht" "\<not> dictIsRehashing d \<Longrightarrow> ht0 ?d = ht \<and> ht1 ?d = ht1 d"
    "rehashidx ?d = rehashidx d" "iterators ?d = iterators d"
    by (simp_all add: upd_table_def tb_def)
  have de: "dents ?d = add_mset (k, v) (dents d)"
    using f ht(3) by (cases "dictIsRehashing d") (simp_all add: dents_def h_def)
  have "\<not> dictCompareKeys T k (fst f) \<and> \<not> dictCompareKeys T (fst f) k" if "f \<in># dents d" for f
    using none dict_map_None [OF ok k] that cmp_sym [OF dents_K [OF ok that] k] by blast
  then have un: "uniq T (dents ?d)" using ok unfolding de uniq_add by (simp add: dict_ok_def)
  have "dict_ok T K ?d"
    using ok un f ht(2,4) by (cases "dictIsRehashing d") (auto simp: dict_ok_def dictIsRehashing_def)
  moreover have "get_entry ?d (tb, i, 0) = Some (k, v)"
    using f ht(4) il by (cases "dictIsRehashing d") (simp_all add: get_entry_def tb_def)
  ultimately show ?thesis unfolding sel by (intro exI [of _ ht] conjI ht(1) de f(4))
qed

lemma dictAdd_ok:
  assumes ok: "dict_ok T K d" and k: "K k" and small: "size (dents d) < 268435456"
  shows "\<exists>d'. dictAdd can junk T d k v = Some (d', if dict_map T d k = None then DICT_OK else DICT_ERR) \<and> dict_ok T K d' \<and>
    iterators d' = iterators d \<and> dents d' = (if dict_map T d k = None then add_mset (k, v) (dents d) else dents d)"
proof -
  obtain d1 where d1: "(if dictIsRehashing d then dictRehashStep T d else Some d) = Some d1" "dict_ok T K d1"
    "dents d1 = dents d" "iterators d1 = iterators d"
    using rehash_step_ok [OF ok] ok by (cases "dictIsRehashing d") auto
  obtain d2 i where d2: "dictKeyIndex can T d1 k = Some (d2, i)" "dict_ok T K d2" "dents d2 = dents d1" "iterators d2 = iterators d1"
    and idx: "if dict_map T d1 k \<noteq> None then i = -1
     else \<exists>t. ht_table (if dictIsRehashing d2 then ht1 d2 else ht0 d2) = Some t \<and> 0 \<le> i \<and>
       nat i = hashFunction T k AND ht_sizemask (if dictIsRehashing d2 then ht1 d2 else ht0 d2)"
    using dictKeyIndex_ok [OF d1(2) k, of can] small d1(3) by auto
  have m: "dict_map T d1 k = dict_map T d k" "dict_map T d2 k = dict_map T d k"
    using dict_map_cong [OF ok d1(2,3) k] dict_map_cong [OF ok d2(2) _ k] d2(3) d1(3) by auto
  show ?thesis
  proof (cases "dict_map T d k = None")
    case False
    then have "i = -1" using idx m by simp
    then have "dictAddRaw can junk T d k = Some (d2, None)" using d1(1) d2(1) by (simp add: dictAddRaw_def)
    with False d1 d2 show ?thesis by (auto simp: dictAdd_def)
  next
    case True
    then obtain t where t: "ht_table (if dictIsRehashing d2 then ht1 d2 else ht0 d2) = Some t" "0 \<le> i"
      "nat i = hashFunction T k AND ht_sizemask (if dictIsRehashing d2 then ht1 d2 else ht0 d2)" using idx m by auto
    define tb where "tb = (if dictIsRehashing d2 then 1 else 0 :: nat)"
    obtain ht where ht: "ht_push (if tb = 0 then ht0 d2 else ht1 d2) (nat i) (k, junk) = Some ht"
      "dict_ok T K (upd_table d2 tb (\<lambda>_. ht))" "dents (upd_table d2 tb (\<lambda>_. ht)) = add_mset (k, junk) (dents d2)"
      "iterators (upd_table d2 tb (\<lambda>_. ht)) = iterators d2" "get_entry (upd_table d2 tb (\<lambda>_. ht)) (tb, nat i, 0) = Some (k, junk)"
      using push_entry_ok [OF d2(2) k _ t(1,3), of junk] m(2) True by (auto simp: tb_def)
    have "dictAddRaw can junk T d k = Some (upd_table d2 tb (\<lambda>_. ht), Some (tb, nat i, 0))"
      using d1(1) d2(1) t(2) ht(1) no_dup by (auto simp: dictAddRaw_def tb_def dup_with_def Let_def)
    with True d1 d2 ht set_val_ok [OF ht(2,5), of v] show ?thesis by (simp add: dictAdd_def)
  qed
qed

lemma dictReplace_ok:
  assumes ok: "dict_ok T K d" and k: "K k" and small: "size (dents d) < 268435456"
  shows "\<exists>d'. dictReplace can junk T d k v = Some (d', if dict_map T d k = None then 1 else 0) \<and> dict_ok T K d' \<and>
    iterators d' = iterators d \<and>
    (\<forall>x. K x \<longrightarrow> dict_map T d' x = (if dictCompareKeys T x k then Some v else dict_map T d x)) \<and>
    dictSize d' = dictSize d + (if dict_map T d k = None then 1 else 0)"
proof -
  obtain d1 where d1: "dictAdd can junk T d k v = Some (d1, if dict_map T d k = None then DICT_OK else DICT_ERR)"
    "dict_ok T K d1" "iterators d1 = iterators d"
    "dents d1 = (if dict_map T d k = None then add_mset (k, v) (dents d) else dents d)"
    using dictAdd_ok [OF assms] by blast
  show ?thesis
  proof (cases "dict_map T d k = None")
    case True
    have "dict_map T d1 x = (if dictCompareKeys T x k then Some v else dict_map T d x)" if "K x" for x
      using map_after_add [OF ok d1(2) k that, of k v "dents d" "{#}"] d1(4) True cmp_refl [OF k] by simp
    with True d1 dictSize_ok [OF ok] dictSize_ok [OF d1(2)] show ?thesis by (simp add: dictReplace_def)
  next
    case False
    then have m: "dents d1 = dents d" "dict_map T d1 k = dict_map T d k"
      using d1(4) dict_map_cong [OF ok d1(2) _ k] by auto
    obtain d2 r where d2: "dictFind T d1 k = Some (d2, r)" "dict_ok T K d2" "dents d2 = dents d1" "iterators d2 = iterators d1"
      "case r of None \<Rightarrow> dict_map T d1 k = None
       | Some ref \<Rightarrow> \<exists>e. get_entry d2 ref = Some e \<and> e \<in># dents d1 \<and> dictCompareKeys T k (fst e)"
      using dictFind_ok [OF d1(2) k] by blast
    then obtain ref e where e: "r = Some ref" "get_entry d2 ref = Some e" "e \<in># dents d" "dictCompareKeys T k (fst e)"
      using False m by (cases r) auto
    obtain R where R: "dents d = add_mset e R" using e(3) by (meson multi_member_split)
    note sv = set_val_ok [OF d2(2) e(2), of v]
    have de: "dents (set_val T d2 ref v) = add_mset (fst e, v) R" using sv d2(3) m(1) R by simp
    have "dict_map T (set_val T d2 ref v) x = (if dictCompareKeys T x k then Some v else dict_map T d x)" if "K x" for x
      using map_after_add [OF ok _ k that de, of "{#e#}"] sv R e(4) by simp
    moreover have "dictSize (set_val T d2 ref v) = dictSize d"
      using dictSize_ok [OF ok] dictSize_ok [of "set_val T d2 ref v"] sv de R by simp
    moreover have "dictReplace can junk T d k v = Some (set_val T d2 ref v, 0)"
      using False d1(1) d2(1) e(1) by (simp add: dictReplace_def)
    ultimately show ?thesis using False sv d1(3) d2(4) by auto
  qed
qed

end

end
