(* ===== verification/Prez_DictTypes.thy ===== *)
theory Prez_DictTypes
  imports Prez_Dict Prez_Sds "HOL-Library.Word"
begin

text \<open>
  The hash functions of src/src/dict.c on 32 bit words, the dictionary types of src/src/prez.c that
  use them (database, command table, cluster nodes, waiting clients), iterators and clearing.  A key
  is the byte string an sds holds.  The seed of the hash functions is the parameter \<open>seed\<close>.
  The interpretations show that these types meet the contract the operations of the table need:
  equal keys hash alike.  For the command table this holds for keys with no zero byte only, because
  \<open>strcasecmp\<close> stops at a zero byte and the hash does not.
\<close>

unbundle bit_operations_syntax

section \<open>Hash functions\<close>

definition dictIntHashFunction :: "32 word \<Rightarrow> 32 word" where
  "dictIntHashFunction key =
     (let key = key + NOT (push_bit 15 key);
          key = key XOR drop_bit 10 key;
          key = key + push_bit 3 key;
          key = key XOR drop_bit 6 key;
          key = key + NOT (push_bit 11 key);
          key = key XOR drop_bit 16 key
      in key)"

definition byte_word :: "char \<Rightarrow> 32 word" where
  "byte_word c = of_nat (of_char c)"

text \<open>The loop over four bytes at a time, which a little-endian machine loads with the first byte
  lowest, and the last one to three bytes.\<close>

fun murmur_loop :: "32 word \<Rightarrow> string \<Rightarrow> 32 word \<times> string" where
  "murmur_loop h (a # b # c # d # data) =
     (let k = byte_word a OR push_bit 8 (byte_word b) OR push_bit 16 (byte_word c) OR push_bit 24 (byte_word d);
          k = k * 0x5bd1e995;
          k = k XOR drop_bit 24 k;
          k = k * 0x5bd1e995;
          h = h * 0x5bd1e995;
          h = h XOR k
      in murmur_loop h data)"
| "murmur_loop h data = (h, data)"

fun murmur_tail :: "32 word \<Rightarrow> string \<Rightarrow> 32 word" where
  "murmur_tail h [a, b, c] =
     ((h XOR push_bit 16 (byte_word c)) XOR push_bit 8 (byte_word b) XOR byte_word a) * 0x5bd1e995"
| "murmur_tail h [a, b] = ((h XOR push_bit 8 (byte_word b)) XOR byte_word a) * 0x5bd1e995"
| "murmur_tail h [a] = (h XOR byte_word a) * 0x5bd1e995"
| "murmur_tail h _ = h"

definition dictGenHashFunction :: "32 word \<Rightarrow> string \<Rightarrow> 32 word" where
  "dictGenHashFunction seed key =
     (let h = seed XOR of_nat (length key);
          (h, data) = murmur_loop h key;
          h = murmur_tail h data;
          h = h XOR drop_bit 13 h;
          h = h * 0x5bd1e995;
          h = h XOR drop_bit 15 h
      in h)"

definition dictGenCaseHashFunction :: "32 word \<Rightarrow> string \<Rightarrow> 32 word" where
  "dictGenCaseHashFunction seed buf =
     fold (\<lambda>c hash. (push_bit 5 hash + hash) + byte_word (c_tolower c)) buf seed"

section \<open>Dictionary types\<close>

definition dictSdsHash :: "32 word \<Rightarrow> string \<Rightarrow> nat" where
  "dictSdsHash seed key = unat (dictGenHashFunction seed key)"

definition dictSdsCaseHash :: "32 word \<Rightarrow> string \<Rightarrow> nat" where
  "dictSdsCaseHash seed key = unat (dictGenCaseHashFunction seed key)"

definition dictSdsKeyCompare :: "string \<Rightarrow> string \<Rightarrow> bool" where
  "dictSdsKeyCompare key1 key2 = (if length key1 \<noteq> length key2 then False else memcmp key1 key2 = 0)"

definition dictSdsKeyCaseCompare :: "string \<Rightarrow> string \<Rightarrow> bool" where
  "dictSdsKeyCaseCompare key1 key2 = strcaseeq (cstr key1) (cstr key2)"

definition dbDictType :: "32 word \<Rightarrow> (string, 'v) dictType" where
  "dbDictType seed = \<lparr>hashFunction = dictSdsHash seed, keyDup = None, valDup = None, keyCompare = Some dictSdsKeyCompare\<rparr>"

definition clusterNodesDictType :: "32 word \<Rightarrow> (string, 'v) dictType" where
  "clusterNodesDictType seed =
     \<lparr>hashFunction = dictSdsHash seed, keyDup = None, valDup = None, keyCompare = Some dictSdsKeyCompare\<rparr>"

definition clusterProcClientsDictType :: "32 word \<Rightarrow> (string, 'v) dictType" where
  "clusterProcClientsDictType seed =
     \<lparr>hashFunction = dictSdsHash seed, keyDup = None, valDup = None, keyCompare = Some dictSdsKeyCompare\<rparr>"

definition commandTableDictType :: "32 word \<Rightarrow> (string, 'v) dictType" where
  "commandTableDictType seed =
     \<lparr>hashFunction = dictSdsCaseHash seed, keyDup = None, valDup = None, keyCompare = Some dictSdsKeyCaseCompare\<rparr>"

lemma dictSdsKeyCompare_eq [simp]: "dictSdsKeyCompare a b \<longleftrightarrow> a = b"
  by (auto simp: dictSdsKeyCompare_def memcmp_zero)

lemma compare_db [simp]: "dictCompareKeys (dbDictType seed) a b \<longleftrightarrow> a = b"
  by (simp add: dictCompareKeys_def dbDictType_def)

lemma compare_commands [simp]: "dictCompareKeys (commandTableDictType seed) a b = dictSdsKeyCaseCompare a b"
  by (simp add: dictCompareKeys_def commandTableDictType_def)

lemma db_type_fields: "keyDup (dbDictType seed) = None" "valDup (dbDictType seed) = None"
  by (simp_all add: dbDictType_def)

lemma command_type_fields: "keyDup (commandTableDictType seed) = None" "valDup (commandTableDictType seed) = None"
  "hashFunction (commandTableDictType seed) = dictSdsCaseHash seed"
  by (simp_all add: commandTableDictType_def)

lemma nodes_type_eq: "clusterNodesDictType seed = dbDictType seed" "clusterProcClientsDictType seed = dbDictType seed"
  by (simp_all add: clusterNodesDictType_def clusterProcClientsDictType_def dbDictType_def)

definition no_NUL :: "string \<Rightarrow> bool" where
  "no_NUL s \<longleftrightarrow> NUL \<notin> set s"

lemma cstr_no_NUL: "no_NUL s \<Longrightarrow> cstr s = s"
  by (auto simp: no_NUL_def cstr_def takeWhile_eq_all_conv)

lemma case_hash_cong:
  assumes "map c_tolower a = map c_tolower b"
  shows "dictGenCaseHashFunction seed a = dictGenCaseHashFunction seed b"
proof -
  have "dictGenCaseHashFunction seed s = fold (\<lambda>c hash. (push_bit 5 hash + hash) + byte_word c) (map c_tolower s) seed" for s
    by (simp add: dictGenCaseHashFunction_def fold_map o_def)
  with assms show ?thesis by simp
qed

interpretation dbt: dict_type "dbDictType seed" "\<lambda>_. True" for seed
  by unfold_locales (auto simp: db_type_fields)

interpretation cmdt: dict_type "commandTableDictType seed" no_NUL for seed
proof (unfold_locales, goal_cases)
  case (4 a b)
  then show ?case
    using case_hash_cong [of a b seed]
    by (simp add: dictSdsKeyCaseCompare_def strcaseeq_def cstr_no_NUL command_type_fields dictSdsCaseHash_def)
qed (auto simp: dictSdsKeyCaseCompare_def strcaseeq_def command_type_fields)

section \<open>Clearing\<close>

text \<open>\<open>_dictClear\<close> walks the buckets while entries are left, releases each chain and resets the
  table.  \<open>None\<close> is the walk meeting a missing bucket.\<close>

function clear_loop :: "('k, 'v) dictht \<Rightarrow> nat \<Rightarrow> ('k, 'v) dictht option" where
  "clear_loop ht i =
     (if i < ht_size ht \<and> ht_used ht > 0 then
        (case ht_table ht of
           None \<Rightarrow> None
         | Some t \<Rightarrow> if i < length t then clear_loop (ht\<lparr>ht_used := ht_used ht - length (t ! i)\<rparr>) (Suc i) else None)
      else Some ht)"
  by pat_completeness auto
termination
  by (relation "measure (\<lambda>(ht, i). ht_size ht - i)") auto

declare clear_loop.simps [simp del]

definition dictClear :: "('k, 'v) dictht \<Rightarrow> (('k, 'v) dictht \<times> int) option" where
  "dictClear ht = do { clear_loop ht 0; Some (dictReset, DICT_OK) }"

definition dictEmpty :: "('k, 'v) dict \<Rightarrow> ('k, 'v) dict option" where
  "dictEmpty d =
     do { (h0, _) \<leftarrow> dictClear (ht0 d);
          (h1, _) \<leftarrow> dictClear (ht1 d);
          Some (d\<lparr>ht0 := h0, ht1 := h1, rehashidx := -1, iterators := 0\<rparr>) }"

section \<open>Iterators\<close>

text \<open>The fingerprint of an unsafe iterator mixes the addresses of the tables, the arguments \<open>a0\<close>
  and \<open>a1\<close>, with their sizes.  Signed shifts keep the sign.\<close>

definition fp_mix :: "64 word \<Rightarrow> 64 word \<Rightarrow> 64 word" where
  "fp_mix hash n =
     (let hash = hash + n;
          hash = NOT hash + push_bit 21 hash;
          hash = hash XOR signed_drop_bit 24 hash;
          hash = (hash + push_bit 3 hash) + push_bit 8 hash;
          hash = hash XOR signed_drop_bit 14 hash;
          hash = (hash + push_bit 2 hash) + push_bit 4 hash;
          hash = hash XOR signed_drop_bit 28 hash;
          hash = hash + push_bit 31 hash
      in hash)"

definition dictFingerprint :: "64 word \<Rightarrow> 64 word \<Rightarrow> ('k, 'v) dict \<Rightarrow> 64 word" where
  "dictFingerprint a0 a1 d =
     foldl fp_mix 0 [a0, of_nat (ht_size (ht0 d)), of_nat (ht_used (ht0 d)),
                     a1, of_nat (ht_size (ht1 d)), of_nat (ht_used (ht1 d))]"

text \<open>The entry an iterator stands on is the head of \<open>it_entry\<close>; \<open>it_next\<close> is the rest of the chain
  that was saved when it was returned.\<close>

record ('k, 'v) dictIterator =
  it_table :: nat
  it_index :: int
  it_safe :: bool
  it_entry :: "('k \<times> 'v) list"
  it_next :: "('k \<times> 'v) list"
  it_fingerprint :: "64 word"

definition dictGetIterator :: "64 word \<Rightarrow> ('k, 'v) dictIterator" where
  "dictGetIterator junk =
     \<lparr>it_table = 0, it_index = -1, it_safe = False, it_entry = [], it_next = [], it_fingerprint = junk\<rparr>"

definition dictGetSafeIterator :: "64 word \<Rightarrow> ('k, 'v) dictIterator" where
  "dictGetSafeIterator junk = (dictGetIterator junk)\<lparr>it_safe := True\<rparr>"

text \<open>One pass of the loop of \<open>dictNext\<close>: \<open>Some False\<close> is \<open>break\<close>, \<open>Some True\<close> an entry to test.\<close>

definition next_start :: "64 word \<Rightarrow> 64 word \<Rightarrow> ('k, 'v) dict \<Rightarrow> ('k, 'v) dictIterator \<Rightarrow>
    ('k, 'v) dict \<times> ('k, 'v) dictIterator" where
  "next_start a0 a1 d it =
     (if it_index it = -1 \<and> it_table it = 0 then
        if it_safe it then (d\<lparr>iterators := iterators d + 1\<rparr>, it)
        else (d, it\<lparr>it_fingerprint := dictFingerprint a0 a1 d\<rparr>)
      else (d, it))"

definition next_bucket :: "('k, 'v) dict \<Rightarrow> ('k, 'v) dictIterator \<Rightarrow> (('k, 'v) dictIterator \<times> bool) option" where
  "next_bucket d it =
     (let ht = (if it_table it = 0 then ht0 d else ht1 d);
          i = it_index it + 1;
          enter = (\<lambda>ht tb i. case ht_table ht of
             None \<Rightarrow> None
           | Some t \<Rightarrow> if 0 \<le> i \<and> nat i < length t
                       then Some (it\<lparr>it_table := tb, it_index := i, it_entry := t ! nat i\<rparr>, True) else None)
      in if i \<ge> int (ht_size ht) then
           if dictIsRehashing d \<and> it_table it = 0 then enter (ht1 d) 1 0
           else Some (it\<lparr>it_index := i\<rparr>, False)
         else enter ht (it_table it) i)"

definition ht_len :: "('k, 'v) dictht \<Rightarrow> nat" where
  "ht_len ht = (case ht_table ht of None \<Rightarrow> 0 | Some t \<Rightarrow> length t)"

definition it_left :: "('k, 'v) dict \<Rightarrow> ('k, 'v) dictIterator \<Rightarrow> nat" where
  "it_left d it = nat (int (ht_len (if it_table it = 0 then ht0 d else ht1 d)) - it_index it)"

lemma next_start_keeps:
  assumes "next_start a0 a1 d it = (d', it')"
  shows "ht0 d' = ht0 d" "ht1 d' = ht1 d" "rehashidx d' = rehashidx d" "it_table it' = it_table it"
    "it_index it' = it_index it" "it_entry it' = it_entry it" "it_next it' = it_next it" "it_safe it' = it_safe it"
  using assms by (auto simp: next_start_def split: if_splits)

lemma next_bucket_progress:
  assumes "next_bucket d it = Some (it', True)"
  shows "it_table it = 0 \<and> it_table it' = 1 \<or> it_table it' = it_table it \<and> it_left d it' < it_left d it"
  using assms by (auto simp: next_bucket_def Let_def it_left_def ht_len_def split: if_splits option.splits)

function dictNext :: "64 word \<Rightarrow> 64 word \<Rightarrow> ('k, 'v) dict \<Rightarrow> ('k, 'v) dictIterator \<Rightarrow>
    (('k, 'v) dict \<times> ('k, 'v) dictIterator \<times> ('k \<times> 'v) option) option" where
  "dictNext a0 a1 d it =
     (let (d', it1, r) =
        (case it_entry it of
           [] \<Rightarrow> (let (d', it1) = next_start a0 a1 d it in (d', it1, next_bucket d' it1))
         | _ # _ \<Rightarrow> (d, it, Some (it\<lparr>it_entry := it_next it\<rparr>, True)))
      in case r of
           None \<Rightarrow> None
         | Some (it2, False) \<Rightarrow> Some (d', it2, None)
         | Some (it2, True) \<Rightarrow>
             (case it_entry it2 of
                e # rest \<Rightarrow> Some (d', it2\<lparr>it_next := rest\<rparr>, Some e)
              | [] \<Rightarrow> dictNext a0 a1 d' it2))"
  by pat_completeness auto
termination
proof (relation "measures [\<lambda>(_, _, d, it). 1 - it_table it, \<lambda>(_, _, d, it). it_left d it, \<lambda>(_, _, d, it). length (it_entry it)]",
    goal_cases)
  case 1
  then show ?case by simp
next
  case (2 a0 a1 d it x d' y it1 r z it2 b)
  show ?case
  proof (cases "it_entry it")
    case (Cons e es)
    with 2 show ?thesis by (auto simp: it_left_def)
  next
    case Nil
    obtain d1 i1 where s: "next_start a0 a1 d it = (d1, i1)" by (cases "next_start a0 a1 d it")
    have "d' = d1" "next_bucket d1 i1 = Some (it2, True)" using 2 Nil s by (auto simp: Let_def)
    with next_bucket_progress [of d1 i1 it2] next_start_keeps [OF s] show ?thesis by (auto simp: it_left_def)
  qed
qed

declare dictNext.simps [simp del]

definition dictReleaseIterator :: "64 word \<Rightarrow> 64 word \<Rightarrow> ('k, 'v) dict \<Rightarrow> ('k, 'v) dictIterator \<Rightarrow> ('k, 'v) dict option" where
  "dictReleaseIterator a0 a1 d it =
     (if \<not> (it_index it = -1 \<and> it_table it = 0) then
        if it_safe it then Some (d\<lparr>iterators := iterators d - 1\<rparr>)
        else if it_fingerprint it = dictFingerprint a0 a1 d then Some d else None
      else Some d)"

text \<open>The loop \<open>while ((de = dictNext(di)) != NULL)\<close> of the callers, which collects the entries; the
  fuel bounds the number of entries.\<close>

fun iterate_all :: "nat \<Rightarrow> 64 word \<Rightarrow> 64 word \<Rightarrow> ('k, 'v) dict \<Rightarrow> ('k, 'v) dictIterator \<Rightarrow>
    (('k \<times> 'v) list \<times> ('k, 'v) dict \<times> ('k, 'v) dictIterator) option" where
  "iterate_all 0 a0 a1 d it = None"
| "iterate_all (Suc n) a0 a1 d it =
     (case dictNext a0 a1 d it of
        None \<Rightarrow> None
      | Some (d, it, None) \<Rightarrow> Some ([], d, it)
      | Some (d, it, Some e) \<Rightarrow>
          (case iterate_all n a0 a1 d it of None \<Rightarrow> None | Some (es, d, it) \<Rightarrow> Some (e # es, d, it)))"

definition rest_from :: "('k, 'v) dict \<Rightarrow> nat \<Rightarrow> int \<Rightarrow> ('k \<times> 'v) list" where
  "rest_from d tb i =
     (case ht_table (if tb = 0 then ht0 d else ht1 d) of None \<Rightarrow> [] | Some t \<Rightarrow> concat (drop (nat i) t)) @
     (if tb = 0 \<and> dictIsRehashing d then table_list (ht1 d) else [])"

definition remaining :: "('k, 'v) dict \<Rightarrow> ('k, 'v) dictIterator \<Rightarrow> ('k \<times> 'v) list" where
  "remaining d it = (if it_entry it = [] then [] else it_next it) @ rest_from d (it_table it) (it_index it + 1)"

definition iter_ok :: "('k, 'v) dict \<Rightarrow> ('k, 'v) dictIterator \<Rightarrow> bool" where
  "iter_ok d it \<longleftrightarrow> -1 \<le> it_index it \<and> (it_table it = 0 \<or> it_table it = 1 \<and> dictIsRehashing d) \<and>
     ht_len (ht0 d) = ht_size (ht0 d) \<and> ht_len (ht1 d) = ht_size (ht1 d) \<and>
     (dictIsRehashing d \<longrightarrow> ht_len (ht1 d) > 0)"

definition it_fresh :: "('k, 'v) dictIterator \<Rightarrow> bool" where
  "it_fresh it \<longleftrightarrow> it_index it = -1 \<and> it_table it = 0"

lemma rest_from_step:
  assumes "ht_table (if tb = 0 then ht0 d else ht1 d) = Some t" "0 \<le> i" "nat i < length t"
  shows "rest_from d tb i = t ! nat i @ rest_from d tb (i + 1)"
proof -
  have "drop (nat i) t = t ! nat i # drop (nat (i + 1)) t"
    using assms(2,3) by (simp add: Cons_nth_drop_Suc nat_add_distrib)
  then show ?thesis unfolding rest_from_def assms(1) by simp
qed

lemma rest_from_end:
  assumes "int (ht_len (if tb = 0 then ht0 d else ht1 d)) \<le> i"
  shows "rest_from d tb i = (if tb = 0 \<and> dictIsRehashing d then rest_from d 1 0 else [])"
proof -
  have "(case ht_table (if tb = 0 then ht0 d else ht1 d) of None \<Rightarrow> [] | Some t \<Rightarrow> concat (drop (nat i) t)) = []"
    using assms unfolding ht_len_def by (cases "ht_table (if tb = 0 then ht0 d else ht1 d)") simp_all
  then show ?thesis by (simp add: rest_from_def table_list_def split: option.split)
qed

lemma next_bucket_ok:
  assumes ok: "iter_ok d it" and e: "it_entry it = []"
  shows "\<exists>tb i es b. next_bucket d it = Some (it\<lparr>it_table := tb, it_index := i, it_entry := es\<rparr>, b) \<and>
    (tb = 0 \<or> tb = 1 \<and> dictIsRehashing d) \<and> 0 \<le> i \<and>
    rest_from d (it_table it) (it_index it + 1) = es @ rest_from d tb (i + 1) \<and>
    (\<not> b \<longrightarrow> es = [] \<and> rest_from d tb (i + 1) = [])"
proof -
  define ht where "ht = (if it_table it = 0 then ht0 d else ht1 d)"
  define i where "i = it_index it + 1"
  have len: "ht_len ht = ht_size ht" and i0: "0 \<le> i" and tb: "it_table it = 0 \<or> it_table it = 1 \<and> dictIsRehashing d"
    using ok by (auto simp: iter_ok_def ht_def i_def)
  have same: "it\<lparr>it_index := i\<rparr> = it\<lparr>it_table := it_table it, it_index := i, it_entry := []\<rparr>"
    using e by (cases it) simp
  consider (in_table) "i < int (ht_size ht)" | (switch) "i \<ge> int (ht_size ht)" "dictIsRehashing d \<and> it_table it = 0"
    | (stop) "i \<ge> int (ht_size ht)" "\<not> (dictIsRehashing d \<and> it_table it = 0)" by linarith
  then show ?thesis
  proof cases
    case in_table
    then obtain t where t: "ht_table ht = Some t" "nat i < length t"
      using len i0 by (cases "ht_table ht") (auto simp: ht_len_def)
    then have "next_bucket d it = Some (it\<lparr>it_table := it_table it, it_index := i, it_entry := t ! nat i\<rparr>, True)"
      using in_table i0 by (simp add: next_bucket_def Let_def ht_def i_def)
    with rest_from_step [of "it_table it" d t i] t i0 tb show ?thesis unfolding ht_def i_def by blast
  next
    case switch
    then obtain t where t: "ht_table (ht1 d) = Some t" "0 < length t"
      using ok by (cases "ht_table (ht1 d)") (auto simp: iter_ok_def ht_len_def)
    then have "next_bucket d it = Some (it\<lparr>it_table := 1, it_index := 0, it_entry := t ! nat 0\<rparr>, True)"
      using switch by (simp add: next_bucket_def Let_def ht_def i_def)
    moreover have "rest_from d (it_table it) i = t ! nat 0 @ rest_from d 1 (0 + 1)"
      using rest_from_end [of "it_table it" d i] rest_from_step [of 1 d t 0] switch len t by (simp add: ht_def)
    ultimately show ?thesis using switch unfolding i_def by blast
  next
    case stop
    then have "next_bucket d it = Some (it\<lparr>it_table := it_table it, it_index := i, it_entry := []\<rparr>, False)"
      using same by (auto simp: next_bucket_def Let_def ht_def i_def)
    moreover have "rest_from d (it_table it) i = []" "rest_from d (it_table it) (i + 1) = []"
      using rest_from_end [of "it_table it" d] stop len by (auto simp: ht_def)
    ultimately show ?thesis using i0 tb unfolding i_def by (metis append_Nil)
  qed
qed

definition same_tables :: "('k, 'v) dict \<Rightarrow> ('k, 'v) dict \<Rightarrow> bool" where
  "same_tables d d' \<longleftrightarrow> ht0 d' = ht0 d \<and> ht1 d' = ht1 d \<and> rehashidx d' = rehashidx d"

text \<open>What an iterator keeps: the tables, the count of safe iterators (one more from the first call
  on), and the fingerprint of an unsafe one.\<close>

definition iter_frame :: "64 word \<Rightarrow> 64 word \<Rightarrow> ('k, 'v) dict \<Rightarrow> ('k, 'v) dictIterator \<Rightarrow>
    ('k, 'v) dict \<Rightarrow> ('k, 'v) dictIterator \<Rightarrow> bool" where
  "iter_frame a0 a1 d it d' it' \<longleftrightarrow>
     same_tables d d' \<and> it_safe it' = it_safe it \<and> \<not> it_fresh it' \<and> iter_ok d' it' \<and>
     iterators d' = iterators d + (if it_fresh it \<and> it_safe it then 1 else 0) \<and>
     it_fingerprint it' = (if it_fresh it \<and> \<not> it_safe it then dictFingerprint a0 a1 d else it_fingerprint it)"

lemma same_tables_simps:
  assumes "same_tables d d'"
  shows "rest_from d' tb i = rest_from d tb i" "iter_ok d' it = iter_ok d it" "remaining d' it = remaining d it"
    "dictFingerprint a0 a1 d' = dictFingerprint a0 a1 d" "dictIsRehashing d' = dictIsRehashing d"
  using assms
  by (simp_all add: same_tables_def rest_from_def iter_ok_def remaining_def dictFingerprint_def dictIsRehashing_def)

lemma next_start_frame:
  assumes "next_start a0 a1 d it = (d1, it1)"
  shows "same_tables d d1" "it_fresh it1 = it_fresh it"
    "iterators d1 = iterators d + (if it_fresh it \<and> it_safe it then 1 else 0)"
    "it_fingerprint it1 = (if it_fresh it \<and> \<not> it_safe it then dictFingerprint a0 a1 d else it_fingerprint it)"
  using assms by (auto simp: next_start_def same_tables_def it_fresh_def split: if_splits)

lemma iter_frame_trans:
  assumes "iter_frame a0 a1 d it d' it'" "iter_frame a0 a1 d' it' d'' it''"
  shows "iter_frame a0 a1 d it d'' it''"
  using assms by (auto simp: iter_frame_def same_tables_def)

text \<open>\<open>next_test\<close> is the second half of a pass: return the entry that was found or go round again.\<close>

definition next_test where
  "next_test a0 a1 d it =
     (case it_entry it of
        e # rest \<Rightarrow> Some (d, it\<lparr>it_next := rest\<rparr>, Some e)
      | [] \<Rightarrow> dictNext a0 a1 d it)"

lemma dictNext_advance:
  "it_entry it \<noteq> [] \<Longrightarrow> dictNext a0 a1 d it = next_test a0 a1 d (it\<lparr>it_entry := it_next it\<rparr>)"
  by (subst dictNext.simps) (auto simp: next_test_def split: list.splits)

lemma dictNext_bucket:
  assumes "it_entry it = []" "next_start a0 a1 d it = (d1, it1)" "next_bucket d1 it1 = Some (it2, b)"
  shows "dictNext a0 a1 d it = (if b then next_test a0 a1 d1 it2 else Some (d1, it2, None))"
  using assms by (subst dictNext.simps) (auto simp: next_test_def split: bool.split list.splits)

lemma bucket_frame:
  assumes ok: "iter_ok d it" and e: "it_entry it = []" and s: "next_start a0 a1 d it = (d1, it1)"
  shows "\<exists>it2 b. next_bucket d1 it1 = Some (it2, b) \<and> iter_frame a0 a1 d it d1 it2 \<and>
    remaining d it = it_entry it2 @ rest_from d (it_table it2) (it_index it2 + 1) \<and>
    (\<not> b \<longrightarrow> it_entry it2 = [] \<and> remaining d it = [])"
proof -
  note st = next_start_keeps [OF s] next_start_frame [OF s]
  note sm = same_tables_simps [OF st(9)]
  have ok1: "iter_ok d1 it1" using ok unfolding iter_ok_def st(1,2,4,5) sm(5) .
  obtain tb i es b where nb: "next_bucket d1 it1 = Some (it1\<lparr>it_table := tb, it_index := i, it_entry := es\<rparr>, b)"
    "tb = 0 \<or> tb = 1 \<and> dictIsRehashing d1" "0 \<le> i"
    "rest_from d1 (it_table it1) (it_index it1 + 1) = es @ rest_from d1 tb (i + 1)"
    "\<not> b \<longrightarrow> es = [] \<and> rest_from d1 tb (i + 1) = []"
    using next_bucket_ok [OF ok1] e st(6) by auto
  have rem: "remaining d it = es @ rest_from d tb (i + 1)"
    using nb(4) e st(4,5) sm(1) by (simp add: remaining_def)
  have "iter_frame a0 a1 d it d1 (it1\<lparr>it_table := tb, it_index := i, it_entry := es\<rparr>)"
    using ok1 nb(2,3) st(8-12) by (auto simp: iter_frame_def iter_ok_def it_fresh_def)
  with nb(1,5) rem sm(1) show ?thesis by fastforce
qed

definition next_spec where
  "next_spec a0 a1 d it r \<longleftrightarrow>
     (\<exists>d' it'. r = Some (d', it', case remaining d it of [] \<Rightarrow> None | e # _ \<Rightarrow> Some e) \<and>
        iter_frame a0 a1 d it d' it' \<and> remaining d' it' = tl (remaining d it))"

definition it_measure :: "('k, 'v) dict \<Rightarrow> ('k, 'v) dictIterator \<Rightarrow> nat" where
  "it_measure d it = (if it_table it = 0 then ht_len (ht1 d) + 2 else 0) + it_left d it"

lemma next_bucket_measure:
  assumes "next_bucket d it = Some (it', True)" "iter_ok d it'"
  shows "it_measure d it' < it_measure d it"
  using next_bucket_progress [OF assms(1)] assms(2)
  by (auto simp: it_measure_def it_left_def iter_ok_def nat_less_iff)

lemma measure_start: "next_start a0 a1 d it = (d1, it1) \<Longrightarrow> it_measure d1 it1 = it_measure d it"
  using next_start_keeps [of a0 a1 d it d1 it1] by (simp add: it_measure_def it_left_def)

lemma next_test_spec:
  assumes "iter_ok d it" "\<not> it_fresh it" "it_entry it = [] \<Longrightarrow> next_spec a0 a1 d it (dictNext a0 a1 d it)"
    and rem: "R = it_entry it @ rest_from d (it_table it) (it_index it + 1)"
  shows "\<exists>d' it'. next_test a0 a1 d it = Some (d', it', case R of [] \<Rightarrow> None | e # _ \<Rightarrow> Some e) \<and>
    iter_frame a0 a1 d it d' it' \<and> remaining d' it' = tl R"
proof (cases "it_entry it")
  case Nil
  with assms show ?thesis by (simp add: next_test_def next_spec_def remaining_def)
next
  case (Cons e es)
  with assms show ?thesis
    by (auto simp: next_test_def remaining_def iter_frame_def same_tables_def iter_ok_def it_fresh_def)
qed

lemma dictNext_empty:
  "iter_ok d it \<Longrightarrow> it_entry it = [] \<Longrightarrow> next_spec a0 a1 d it (dictNext a0 a1 d it)"
proof (induction "it_measure d it" arbitrary: d it rule: less_induct)
  case less
  obtain d1 it1 where s: "next_start a0 a1 d it = (d1, it1)" by (cases "next_start a0 a1 d it")
  obtain it2 b where b: "next_bucket d1 it1 = Some (it2, b)" "iter_frame a0 a1 d it d1 it2"
    "remaining d it = it_entry it2 @ rest_from d (it_table it2) (it_index it2 + 1)"
    "\<not> b \<longrightarrow> it_entry it2 = [] \<and> remaining d it = []" using bucket_frame [OF less.prems s] by blast
  have sm: "same_tables d d1" and ok2: "iter_ok d1 it2" and nf: "\<not> it_fresh it2" using b(2) by (auto simp: iter_frame_def)
  show ?case
  proof (cases b)
    case False
    then have "dictNext a0 a1 d it = Some (d1, it2, None)" using dictNext_bucket [OF less.prems(2) s b(1)] by simp
    moreover have "remaining d1 it2 = []" using b(3,4) False same_tables_simps(1) [OF sm] by (simp add: remaining_def)
    ultimately show ?thesis using b(2,4) False by (simp add: next_spec_def)
  next
    case True
    have "it_measure d1 it2 < it_measure d it"
      using next_bucket_measure [of d1 it1 it2] b(1) True ok2 measure_start [OF s] by simp
    then have "it_entry it2 = [] \<Longrightarrow> next_spec a0 a1 d1 it2 (dictNext a0 a1 d1 it2)" using less.hyps ok2 by blast
    from next_test_spec [OF ok2 nf this, of "remaining d it"] b(3) same_tables_simps(1) [OF sm]
    obtain d' it' where "next_test a0 a1 d1 it2 = Some (d', it', case remaining d it of [] \<Rightarrow> None | e # _ \<Rightarrow> Some e)"
      "iter_frame a0 a1 d1 it2 d' it'" "remaining d' it' = tl (remaining d it)" by auto
    with True dictNext_bucket [OF less.prems(2) s b(1)] iter_frame_trans [OF b(2)] show ?thesis
      unfolding next_spec_def by auto
  qed
qed

lemma dictNext_ok:
  assumes ok: "iter_ok d it" and nf: "it_entry it \<noteq> [] \<Longrightarrow> \<not> it_fresh it"
  shows "next_spec a0 a1 d it (dictNext a0 a1 d it)"
proof (cases "it_entry it = []")
  case False
  let ?it = "it\<lparr>it_entry := it_next it\<rparr>"
  have ok': "iter_ok d ?it" and nf': "\<not> it_fresh ?it" using ok nf False by (auto simp: iter_ok_def it_fresh_def)
  have rem: "remaining d it = it_entry ?it @ rest_from d (it_table ?it) (it_index ?it + 1)"
    using False by (simp add: remaining_def)
  from next_test_spec [OF ok' nf' dictNext_empty [OF ok'] rem]
  obtain d' it' where "next_test a0 a1 d ?it = Some (d', it', case remaining d it of [] \<Rightarrow> None | e # _ \<Rightarrow> Some e)"
    "iter_frame a0 a1 d ?it d' it'" "remaining d' it' = tl (remaining d it)"
    by blast
  then show ?thesis using dictNext_advance [OF False, of a0 a1 d] nf False
    by (auto simp: next_spec_def iter_frame_def it_fresh_def)
qed (simp add: dictNext_empty ok)

lemma iterate_all_ok:
  assumes "iter_ok d it" "it_entry it \<noteq> [] \<Longrightarrow> \<not> it_fresh it" "length (remaining d it) < n"
  shows "\<exists>d' it'. iterate_all n a0 a1 d it = Some (remaining d it, d', it') \<and> iter_frame a0 a1 d it d' it'"
  using assms
proof (induction n arbitrary: d it)
  case (Suc n)
  obtain d1 it1 where n: "dictNext a0 a1 d it = Some (d1, it1, case remaining d it of [] \<Rightarrow> None | e # _ \<Rightarrow> Some e)"
    "iter_frame a0 a1 d it d1 it1" "remaining d1 it1 = tl (remaining d it)"
    using dictNext_ok [of d it a0 a1] Suc.prems unfolding next_spec_def by blast
  show ?case
  proof (cases "remaining d it")
    case Nil
    with n show ?thesis by simp
  next
    case (Cons e es)
    have "iter_ok d1 it1" "\<not> it_fresh it1" using n(2) by (auto simp: iter_frame_def)
    with Suc.IH [of d1 it1] n(3) Cons Suc.prems(3)
    obtain d2 it2 where "iterate_all n a0 a1 d1 it1 = Some (es, d2, it2)" "iter_frame a0 a1 d1 it1 d2 it2" by auto
    with n Cons iter_frame_trans [OF n(2)] show ?thesis by auto
  qed
qed simp

lemma iterate_release:
  assumes ok: "dict_ok T K d"
  shows "\<exists>es d' it'. iterate_all (Suc (dictSize d)) a0 a1 d (if safe then dictGetSafeIterator junk else dictGetIterator junk) =
      Some (es, d', it') \<and> mset es = dents d \<and> dictReleaseIterator a0 a1 d' it' = Some d \<and>
      (safe \<longrightarrow> d' = d\<lparr>iterators := iterators d + 1\<rparr>)"
proof -
  let ?it = "if safe then dictGetSafeIterator junk else dictGetIterator junk :: ('a, 'b) dictIterator"
  have it: "it_entry ?it = []" "it_fresh ?it" "it_safe ?it = safe" "it_table ?it = 0" "it_index ?it = -1"
    by (simp_all add: dictGetSafeIterator_def dictGetIterator_def it_fresh_def)
  have len: "ht_ok T K h \<Longrightarrow> ht_len h = ht_size h" for h :: "('a, 'b) dictht"
    by (auto simp: ht_ok_def ht_len_def dictReset_def split: option.splits)
  have pos: "ht_ok T K h \<Longrightarrow> ht_table h \<noteq> None \<Longrightarrow> 0 < ht_len h" for h :: "('a, 'b) dictht"
    by (auto simp: ht_ok_def ht_len_def split: option.splits)
  have io: "iter_ok d ?it" using ok it(4,5) len [of "ht0 d"] len [of "ht1 d"] pos [of "ht1 d"]
    by (simp add: iter_ok_def dict_ok_def dictIsRehashing_def split: if_splits)
  have rem: "mset (remaining d ?it) = dents d"
    using it ok by (auto simp: remaining_def rest_from_def dents_def ents_def table_list_def dict_ok_def
        dictIsRehashing_def dictReset_def split: option.splits if_splits)
  then have "length (remaining d ?it) < Suc (dictSize d)"
    using ht_ok_used [of T K "ht0 d"] ht_ok_used [of T K "ht1 d"] ok
    by (metis dictSize_def dents_def dict_ok_def lessI size_mset size_union)
  from iterate_all_ok [OF io _ this, of a0 a1] it
  obtain d' it' where r: "iterate_all (Suc (dictSize d)) a0 a1 d ?it = Some (remaining d ?it, d', it')"
    "iter_frame a0 a1 d ?it d' it'" by blast
  have "dictReleaseIterator a0 a1 d' it' = Some d"
    using r(2) it same_tables_simps(4) [of d d' a0 a1]
    by (cases d; cases d') (auto simp: iter_frame_def dictReleaseIterator_def same_tables_def it_fresh_def)
  moreover have "safe \<longrightarrow> d' = d\<lparr>iterators := iterators d + 1\<rparr>"
    using r(2) it by (cases d; cases d') (auto simp: iter_frame_def same_tables_def)
  ultimately show ?thesis using r rem by blast
qed

section \<open>The table as a map\<close>

text \<open>
  The operations a client of a table issues, in the order it issues them; \<open>Work\<close> is a slice of
  rehashing and \<open>Resize\<close> a request to shrink the table, which the server may do at any time.
\<close>

datatype ('k, 'v) kop = Find 'k | Put 'k 'v | Remove 'k | Work nat | Resize bool

fun kop_run :: "('s \<Rightarrow> 'k \<Rightarrow> ('s \<times> 'v option) option) \<Rightarrow> ('s \<Rightarrow> 'k \<Rightarrow> 'v \<Rightarrow> 's option) \<Rightarrow> ('s \<Rightarrow> 'k \<Rightarrow> 's option) \<Rightarrow>
    ('s \<Rightarrow> nat \<Rightarrow> 's option) \<Rightarrow> ('s \<Rightarrow> bool \<Rightarrow> 's option) \<Rightarrow> 's \<Rightarrow> ('k, 'v) kop list \<Rightarrow> ('s \<times> 'v option list) option" where
  "kop_run get put del work resize s [] = Some (s, [])"
| "kop_run get put del work resize s (op # ops) =
     do { (s, out) \<leftarrow> (case op of
            Find k \<Rightarrow> get s k
          | Put k v \<Rightarrow> do { s \<leftarrow> put s k v; Some (s, Some v) }
          | Remove k \<Rightarrow> do { s \<leftarrow> del s k; Some (s, None) }
          | Work n \<Rightarrow> do { s \<leftarrow> work s n; Some (s, None) }
          | Resize c \<Rightarrow> do { s \<leftarrow> resize s c; Some (s, None) });
          (s, outs) \<leftarrow> kop_run get put del work resize s ops;
          Some (s, out # outs) }"

fun kop_spec :: "('k \<Rightarrow> 'v option) \<Rightarrow> ('k, 'v) kop list \<Rightarrow> ('k \<Rightarrow> 'v option) \<times> 'v option list" where
  "kop_spec m [] = (m, [])"
| "kop_spec m (Find k # ops) = (let (m', outs) = kop_spec m ops in (m', m k # outs))"
| "kop_spec m (Put k v # ops) = (let (m', outs) = kop_spec (m(k \<mapsto> v)) ops in (m', Some v # outs))"
| "kop_spec m (Remove k # ops) = (let (m', outs) = kop_spec (m(k := None)) ops in (m', None # outs))"
| "kop_spec m (Work _ # ops) = (let (m', outs) = kop_spec m ops in (m', None # outs))"
| "kop_spec m (Resize _ # ops) = (let (m', outs) = kop_spec m ops in (m', None # outs))"

locale keyspace =
  fixes inv :: "'s \<Rightarrow> bool" and lookup :: "'s \<Rightarrow> 'k \<Rightarrow> 'v option" and count :: "'s \<Rightarrow> nat" and limit :: nat
    and get :: "'s \<Rightarrow> 'k \<Rightarrow> ('s \<times> 'v option) option" and put :: "'s \<Rightarrow> 'k \<Rightarrow> 'v \<Rightarrow> 's option"
    and del :: "'s \<Rightarrow> 'k \<Rightarrow> 's option" and work :: "'s \<Rightarrow> nat \<Rightarrow> 's option" and resize :: "'s \<Rightarrow> bool \<Rightarrow> 's option"
  assumes find_law: "inv s \<Longrightarrow> \<exists>s'. get s k = Some (s', lookup s k) \<and> inv s' \<and> lookup s' = lookup s \<and> count s' = count s"
    and put_law: "inv s \<Longrightarrow> count s < limit \<Longrightarrow>
      \<exists>s'. put s k v = Some s' \<and> inv s' \<and> lookup s' = (lookup s)(k \<mapsto> v) \<and> count s' \<le> Suc (count s)"
    and remove_law: "inv s \<Longrightarrow> \<exists>s'. del s k = Some s' \<and> inv s' \<and> lookup s' = (lookup s)(k := None) \<and> count s' \<le> count s"
    and work_law: "inv s \<Longrightarrow> \<exists>s'. work s n = Some s' \<and> inv s' \<and> lookup s' = lookup s \<and> count s' = count s"
    and resize_law: "inv s \<Longrightarrow> count s \<le> limit \<Longrightarrow>
      \<exists>s'. resize s c = Some s' \<and> inv s' \<and> lookup s' = lookup s \<and> count s' = count s"
begin

lemma run_refines:
  assumes "inv s" "count s + length ops \<le> limit"
  shows "\<exists>s'. kop_run get put del work resize s ops = Some (s', snd (kop_spec (lookup s) ops)) \<and> inv s' \<and>
    lookup s' = fst (kop_spec (lookup s) ops) \<and> count s' \<le> count s + length ops"
  using assms
proof (induction ops arbitrary: s)
  case (Cons op ops)
  note IH = Cons.IH
  have c: "count s < limit" using Cons.prems by simp
  show ?case
  proof (cases op)
    case (Find k)
    obtain t where t: "get s k = Some (t, lookup s k)" "inv t" "lookup t = lookup s" "count t = count s"
      using find_law [OF Cons.prems(1)] by blast
    with IH [of t] Cons.prems Find show ?thesis by (auto split: prod.split)
  next
    case (Put k v)
    obtain t where t: "put s k v = Some t" "inv t" "lookup t = (lookup s)(k \<mapsto> v)" "count t \<le> Suc (count s)"
      using put_law [OF Cons.prems(1) c] by blast
    with IH [of t, unfolded t(3)] Cons.prems Put show ?thesis by (auto simp: case_prod_beta simp del: fun_upd_apply)
  next
    case (Remove k)
    obtain t where t: "del s k = Some t" "inv t" "lookup t = (lookup s)(k := None)" "count t \<le> count s"
      using remove_law [OF Cons.prems(1)] by blast
    with IH [of t, unfolded t(3)] Cons.prems Remove show ?thesis by (auto simp: case_prod_beta simp del: fun_upd_apply)
  next
    case (Work n)
    obtain t where t: "work s n = Some t" "inv t" "lookup t = lookup s" "count t = count s"
      using work_law [OF Cons.prems(1)] by blast
    with IH [of t] Cons.prems Work show ?thesis by (auto split: prod.split)
  next
    case (Resize r)
    obtain t where t: "resize s r = Some t" "inv t" "lookup t = lookup s" "count t = count s"
      using resize_law [OF Cons.prems(1)] c by (meson less_imp_le)
    with IH [of t] Cons.prems Resize show ?thesis by (auto split: prod.split)
  qed
qed simp

end

lemma dict_ok_create: "dict_ok T K dictCreate"
  by (simp add: dict_ok_def dictCreate_def ht_ok_def dictReset_def dents_def ents_def uniq_def)

lemma dictRehash_db_ok:
  assumes "dict_ok (dbDictType seed) (\<lambda>_. True) d"
  shows "\<exists>d' r. dictRehash (dbDictType seed) d n = Some (d', r) \<and> dict_ok (dbDictType seed) (\<lambda>_. True) d' \<and> dents d' = dents d"
  using dbt.rehash_loop_ok [OF assms, of n] assms by (cases "dictIsRehashing d") (auto simp: dictRehash_def)

lemma dictResize_ok:
  assumes ok: "dict_ok T K d" and sz: "size (dents d) \<le> 268435456"
  shows "dict_ok T K (fst (dictResize can d)) \<and> dents (fst (dictResize can d)) = dents d"
proof (cases "\<not> can \<or> dictIsRehashing d")
  case False
  have u: "ht_used (ht0 d) \<le> 268435456"
    using sz ht_ok_used [of T K "ht0 d"] ok by (simp add: dents_def dict_ok_def)
  define m where "m = (if ht_used (ht0 d) < 4 then 4 else ht_used (ht0 d))"
  have "dictResize can d = dictExpand d m"
    using False u by (auto simp: dictResize_def m_def DICT_HT_INITIAL_SIZE_def c_int32_def ull_def Let_def)
  with dictExpand_ok [OF ok, of m] False u show ?thesis by (auto simp: m_def)
qed (auto simp: dictResize_def ok)

lemma db_map_cong:
  assumes "dict_ok (dbDictType seed) (\<lambda>_. True) d" "dict_ok (dbDictType seed) (\<lambda>_. True) d'" "dents d' = dents d"
  shows "dict_map (dbDictType seed) d' = dict_map (dbDictType seed) d" "dictSize d' = dictSize d"
  using dbt.dict_map_cong [OF assms] dbt.dictSize_ok [OF assms(1)] dbt.dictSize_ok [OF assms(2)] assms(3)
  by (auto intro!: ext)

interpretation dbks: keyspace "dict_ok (dbDictType seed) (\<lambda>_. True)" "dict_map (dbDictType seed)" dictSize 268435456
  "dictFetchValue (dbDictType seed)" "\<lambda>d k v. map_option fst (dictReplace can junk (dbDictType seed) d k v)"
  "\<lambda>d k. map_option fst (dictDelete (dbDictType seed) d k)"
  "\<lambda>d n. map_option fst (dictRehash (dbDictType seed) d n)" "\<lambda>d c. Some (fst (dictResize c d))" for seed can junk
proof (unfold_locales, goal_cases)
  case (1 d k)
  then show ?case using dbt.dictFetchValue_ok [OF 1] db_map_cong [OF 1] by blast
next
  case (2 d k v)
  have "size (dents d) < 268435456" using 2 dbt.dictSize_ok [OF 2(1)] by simp
  then obtain d' where "dictReplace can junk (dbDictType seed) d k v = Some (d', if dict_map (dbDictType seed) d k = None then 1 else 0)"
    "dict_ok (dbDictType seed) (\<lambda>_. True) d'" "\<forall>x. dict_map (dbDictType seed) d' x = (if x = k then Some v else dict_map (dbDictType seed) d x)"
    "dictSize d' = dictSize d + (if dict_map (dbDictType seed) d k = None then 1 else 0)"
    using dbt.dictReplace_ok [OF 2(1), of can junk k v] by auto
  then show ?case by (auto intro!: ext)
next
  case (3 d k)
  obtain d' rc where "dictDelete (dbDictType seed) d k = Some (d', rc)" "dict_ok (dbDictType seed) (\<lambda>_. True) d'"
    "\<forall>x. dict_map (dbDictType seed) d' x = (if x = k then None else dict_map (dbDictType seed) d x)"
    "dictSize d' + (if dict_map (dbDictType seed) d k = None then 0 else 1) = dictSize d"
    using dbt.dictDelete_ok [OF 3, of k] by auto
  then show ?case by (auto intro!: ext)
next
  case (4 d n)
  obtain d' r where d': "dictRehash (dbDictType seed) d n = Some (d', r)" "dict_ok (dbDictType seed) (\<lambda>_. True) d'"
    "dents d' = dents d" using dictRehash_db_ok [OF 4] by blast
  with db_map_cong [OF 4 d'(2,3)] show ?case by simp
next
  case (5 d c)
  have r: "dict_ok (dbDictType seed) (\<lambda>_. True) (fst (dictResize c d))" "dents (fst (dictResize c d)) = dents d"
    using dictResize_ok [OF 5(1), of c] dbt.dictSize_ok [OF 5(1)] 5(2) by auto
  with db_map_cong [OF 5(1) r] show ?case by simp
qed

section \<open>Properties\<close>

lemma clear_loop_total:
  assumes "ht_table ht = Some t" "length t = ht_size ht"
  shows "\<exists>ht'. clear_loop ht i = Some ht'"
  using assms
proof (induction ht i rule: clear_loop.induct)
  case (1 ht i)
  then show ?case by (subst clear_loop.simps) simp
qed

lemma dictClear_ok: "ht_ok T K ht \<Longrightarrow> dictClear ht = Some (dictReset, DICT_OK)"
proof (cases "ht_table ht")
  case None
  assume "ht_ok T K ht"
  with None have "ht = dictReset" by (simp add: ht_ok_def)
  then show ?thesis by (simp add: dictClear_def clear_loop.simps dictReset_def)
next
  case (Some t)
  assume "ht_ok T K ht"
  with Some clear_loop_total [of ht t 0] show ?thesis by (auto simp: dictClear_def ht_ok_def)
qed

text \<open>emptying a dictionary in any state, also in the middle of a rehash, gives the state of a
  dictionary that was just created.\<close>

theorem dictEmpty_creates: "dict_ok T K d \<Longrightarrow> dictEmpty d = Some dictCreate"
  using dictClear_ok [of T K "ht0 d"] dictClear_ok [of T K "ht1 d"]
  by (simp add: dictEmpty_def dict_ok_def dictCreate_def)

theorem dictEmpty_creates_witness: "dictEmpty (dictCreate :: (string, nat) dict) = Some dictCreate"
  by (rule dictEmpty_creates [where T = "dbDictType 5381" and K = "\<lambda>_. True"]) (rule dict_ok_create)

text \<open>C16: from the empty dictionary, any sequence of lookups, replacements, deletions, slices of
  rehashing and resize requests answers as a finite map does and never faults, whatever the hash
  seed and whether resizing is enabled; the invariant of the two tables holds at the end.\<close>

theorem dict_runs_as_map:
  assumes "length ops \<le> 268435456"
  shows "\<exists>d'. kop_run (dictFetchValue (dbDictType seed)) (\<lambda>d k v. map_option fst (dictReplace can junk (dbDictType seed) d k v))
      (\<lambda>d k. map_option fst (dictDelete (dbDictType seed) d k)) (\<lambda>d n. map_option fst (dictRehash (dbDictType seed) d n))
      (\<lambda>d c. Some (fst (dictResize c d))) dictCreate ops = Some (d', snd (kop_spec Map.empty ops)) \<and>
    dict_ok (dbDictType seed) (\<lambda>_. True) d' \<and> dict_map (dbDictType seed) d' = fst (kop_spec Map.empty ops) \<and>
    dictSize d' \<le> length ops"
proof -
  have e: "dict_map (dbDictType seed) dictCreate = Map.empty" "dictSize dictCreate = 0"
    by (auto simp: dict_map_def dictCreate_def table_list_def dictReset_def dictSize_def)
  show ?thesis
    using dbks.run_refines [OF dict_ok_create, of ops seed can junk] assms unfolding e by auto
qed

theorem dict_runs_as_map_witness:
  "\<exists>d'. kop_run (dictFetchValue (dbDictType 5381)) (\<lambda>d k v. map_option fst (dictReplace True 0 (dbDictType 5381) d k v))
      (\<lambda>d k. map_option fst (dictDelete (dbDictType 5381) d k)) (\<lambda>d n. map_option fst (dictRehash (dbDictType 5381) d n))
      (\<lambda>d c. Some (fst (dictResize c d))) dictCreate
      [Put ''a'' (1::nat), Put ''b'' 2, Work 3, Put ''a'' 3, Resize True, Remove ''b'', Find ''a'', Find ''b''] =
    Some (d', [Some 1, Some 2, None, Some 3, None, None, Some 3, None])"
  using dict_runs_as_map [of "[Put ''a'' (1::nat), Put ''b'' 2, Work 3, Put ''a'' 3, Resize True, Remove ''b'', Find ''a'', Find ''b'']"
      5381 True 0] by auto

text \<open>C17: \<open>dictAdd\<close> inserts only when no equal key is present: then it adds exactly the new entry,
  and otherwise it reports an error and changes no entry.  In both cases every other key keeps its
  value.\<close>

theorem dictAdd_inserts_once:
  assumes "dict_ok (dbDictType seed) (\<lambda>_. True) d" "dictSize d < 268435456"
  shows "\<exists>d'. dictAdd can junk (dbDictType seed) d k v =
      Some (d', if dict_map (dbDictType seed) d k = None then DICT_OK else DICT_ERR) \<and>
    dict_ok (dbDictType seed) (\<lambda>_. True) d' \<and>
    dents d' = (if dict_map (dbDictType seed) d k = None then add_mset (k, v) (dents d) else dents d)"
  using dbt.dictAdd_ok [OF assms(1), of can junk k v] assms(2) dbt.dictSize_ok [OF assms(1)] by auto

theorem dictAdd_inserts_once_witness:
  "\<exists>d'. dictAdd True 0 (dbDictType 5381) dictCreate ''k'' (7::nat) = Some (d', DICT_OK) \<and> dents d' = {#(''k'', 7)#}"
proof -
  have e: "dict_map (dbDictType 5381) (dictCreate :: (string, nat) dict) ''k'' = None"
    "dictSize (dictCreate :: (string, nat) dict) < 268435456" "dents (dictCreate :: (string, nat) dict) = {#}"
    by (simp_all add: dict_map_def dictCreate_def table_list_def dictReset_def dictSize_def dents_def ents_def)
  show ?thesis
    using dictAdd_inserts_once [OF dict_ok_create e(2), of True 0 5381 "''k''" 7] unfolding e by auto
qed

text \<open>C18: the loop over an iterator, safe or not, ends and visits every entry of both tables exactly
  once, also in the middle of a rehash; releasing the iterator passes the fingerprint assertion and
  gives the dictionary back as it was.\<close>

theorem dict_iterate_all:
  assumes ok: "dict_ok T K d"
  shows "\<exists>es d' it'. iterate_all (Suc (dictSize d)) a0 a1 d (if safe then dictGetSafeIterator junk else dictGetIterator junk) =
      Some (es, d', it') \<and> mset es = dents d \<and> dictReleaseIterator a0 a1 d' it' = Some d"
  using iterate_release [OF ok, of a0 a1 safe junk] by blast

theorem dict_iterate_all_witness:
  "\<exists>d es d' it'. dents d = {#(''k'', 7::nat)#} \<and>
    iterate_all (Suc (dictSize d)) 8 16 d (dictGetSafeIterator 0) = Some (es, d', it') \<and> es = [(''k'', 7)] \<and>
    dictReleaseIterator 8 16 d' it' = Some d"
proof -
  obtain d :: "(string, nat) dict" where d: "dict_ok (dbDictType 5381) (\<lambda>_. True) d" "dents d = {#(''k'', 7)#}"
    using dbt.dictAdd_ok [OF dict_ok_create, of True 0 5381 "''k''" 7]
    by (auto simp: dict_map_def dictCreate_def table_list_def dictReset_def dents_def ents_def)
  with dict_iterate_all [OF d(1), of 8 16 True 0] show ?thesis by auto
qed

end
