(* ===== verification/Prez_Glob.thy ===== *)
theory Prez_Glob
  imports Prez_Prelude
begin

text \<open>
  The glob matcher \<open>stringmatchlen\<close> of src/src/util.c.  Both pointers only move forward together with
  their lengths, so that a pointer is modelled by the bytes that are left, before the terminating
  null byte.  The string pointer may run past its terminator; \<open>over\<close> counts by how much.  \<open>None\<close> is a
  read behind the terminator of one of the two strings.  The matcher is compared with a reference
  definition of glob patterns.
\<close>

abbreviation (input) BSL :: char where "BSL \<equiv> CHR 0x5C"

section \<open>The matcher\<close>

text \<open>A \<open>char\<close> is signed.\<close>

definition schar :: "char \<Rightarrow> int" where
  "schar c = (if of_char c < (128 :: int) then of_char c else of_char c - 256)"

definition tolower_int :: "int \<Rightarrow> int" where
  "tolower_int c = (if 65 \<le> c \<and> c \<le> 90 then c + 32 else c)"

definition in_range :: "bool \<Rightarrow> char \<Rightarrow> char \<Rightarrow> char \<Rightarrow> bool" where
  "in_range nocase lo hi ch =
     (let start = schar lo; end' = schar hi; c = schar ch;
          (start, end') = (if start > end' then (end', start) else (start, end'));
          (start, end', c) = (if nocase then (tolower_int start, tolower_int end', tolower_int c) else (start, end', c))
      in c \<ge> start \<and> c \<le> end')"

definition char_eq :: "bool \<Rightarrow> char \<Rightarrow> char \<Rightarrow> bool" where
  "char_eq nocase a b = (if nocase then tolower_int (schar a) = tolower_int (schar b) else a = b)"

text \<open>The loop over a bracket expression: \<open>ch\<close> is the byte of the string, \<open>None\<close> when it is behind the
  terminator.  The result is whether it matched, and the pattern behind the expression.\<close>

fun bracket :: "bool \<Rightarrow> char option \<Rightarrow> bool \<Rightarrow> string \<Rightarrow> (bool \<times> string) option" where
  "bracket nocase ch m [] = Some (m, [])"
| "bracket nocase ch m (p # ps) =
     (if p = BSL then
        (case ps of [] \<Rightarrow> None | x # ps' \<Rightarrow> do { c \<leftarrow> ch; bracket nocase ch (m \<or> x = c) ps' })
      else if p = CHR '']'' then Some (m, ps)
      else (case ps of
          d # hi # ps' \<Rightarrow>
            if d = CHR ''-'' then do { c \<leftarrow> ch; bracket nocase ch (m \<or> in_range nocase p hi c) ps' }
            else do { c \<leftarrow> ch; bracket nocase ch (m \<or> char_eq nocase p c) ps }
        | _ \<Rightarrow> do { c \<leftarrow> ch; bracket nocase ch (m \<or> char_eq nocase p c) ps }))"

definition peek :: "string \<Rightarrow> nat \<Rightarrow> char option" where
  "peek s over = (if over > 0 then None else case s of [] \<Rightarrow> Some NUL | c # _ \<Rightarrow> Some c)"

definition advance :: "string \<Rightarrow> nat \<Rightarrow> string \<times> nat" where
  "advance s over = (case s of [] \<Rightarrow> ([], Suc over) | _ # s' \<Rightarrow> (s', over))"

text \<open>One round of the outer loop on a pattern that does not start with a star: \<open>Inl\<close> is the answer 0,
  \<open>Inr\<close> the pattern and the string that are left.\<close>

definition match_one :: "bool \<Rightarrow> string \<Rightarrow> string \<Rightarrow> nat \<Rightarrow> (unit + string \<times> string \<times> nat) option" where
  "match_one nocase p s over =
     (case p of
        [] \<Rightarrow> None
      | c # ps \<Rightarrow>
          if c = CHR ''?'' then
            (if s = [] \<and> over = 0 then Some (Inl ()) else let (s, over) = advance s over in Some (Inr (ps, s, over)))
          else if c = CHR ''['' then
            let negated = (ps \<noteq> [] \<and> hd ps = CHR ''^'');
                ps = (if negated then tl ps else ps)
            in do { (m, ps) \<leftarrow> bracket nocase (peek s over) False ps;
                    Some (if m = negated then Inl () else let (s, over) = advance s over in Inr (ps, s, over)) }
          else
            let (c, ps) = (if c = BSL \<and> ps \<noteq> [] then (hd ps, tl ps) else (c, ps))
            in do { ch \<leftarrow> peek s over;
                    Some (if \<not> char_eq nocase c ch then Inl () else let (s, over) = advance s over in Inr (ps, s, over)) })"

lemma bracket_shorter: "bracket nocase ch m p = Some (m', p') \<Longrightarrow> length p' \<le> length p"
proof (induction "length p" arbitrary: m p rule: less_induct)
  case less
  have le: "bracket nocase ch n q = Some (m', p') \<Longrightarrow> length q < length p \<Longrightarrow> length p' \<le> length p" for n q
    using less.hyps [of q n] by linarith
  show ?case
  proof (cases p)
    case (Cons c ps)
    show ?thesis
      using less.prems [unfolded Cons bracket.simps(2)] le
      by (auto simp: Cons bind_eq_Some_conv simp del: bracket.simps split: if_splits list.splits)
  qed (use less.prems in simp)
qed

declare bracket.simps [simp del]

lemma match_one_shorter: "match_one nocase p s over = Some (Inr (p', s', over')) \<Longrightarrow> length p' < length p"
  by (auto simp: match_one_def Let_def bind_eq_Some_conv split: list.splits if_splits prod.splits dest!: bracket_shorter)

function (sequential) stringmatchlen :: "bool \<Rightarrow> string \<Rightarrow> string \<Rightarrow> nat \<Rightarrow> bool option"
  and match_suffixes :: "bool \<Rightarrow> string \<Rightarrow> string \<Rightarrow> bool option" where
  "stringmatchlen nocase [] s over = Some (s = [] \<and> over = 0)"
| "stringmatchlen nocase (c # p) s over =
     (if c = CHR ''*'' then
        let p = dropWhile (\<lambda>c. c = CHR ''*'') p in
        if p = [] then Some True
        else if over > 0 then None
        else match_suffixes nocase p s
      else (case match_one nocase (c # p) s over of
          None \<Rightarrow> None
        | Some (Inl _) \<Rightarrow> Some False
        | Some (Inr (p, s, over)) \<Rightarrow>
            if s = [] \<and> over = 0 then Some (dropWhile (\<lambda>c. c = CHR ''*'') p = [])
            else stringmatchlen nocase p s over))"
| "match_suffixes nocase p [] = Some False"
| "match_suffixes nocase p (x # s) =
     do { r \<leftarrow> stringmatchlen nocase p (x # s) 0;
          if r then Some True else match_suffixes nocase p s }"
  by pat_completeness auto
termination
  by (relation "measures [\<lambda>x. case x of Inl (nc, p, s, ov) \<Rightarrow> length p | Inr (nc, p, s) \<Rightarrow> length p,
        \<lambda>x. case x of Inl _ \<Rightarrow> 0 | Inr (nc, p, s) \<Rightarrow> Suc (length s)]")
    (auto dest!: match_one_shorter simp: le_imp_less_Suc length_dropWhile_le)

definition stringmatch :: "string \<Rightarrow> string \<Rightarrow> bool \<Rightarrow> bool option" where
  "stringmatch pattern s nocase = stringmatchlen nocase (cstr pattern) (cstr s) 0"

section \<open>Glob patterns\<close>

text \<open>The reference: a star stands for any bytes, a question mark for one, a backslash takes the next
  byte literally.  A backslash at the end stands for itself.\<close>

fun glob :: "bool \<Rightarrow> string \<Rightarrow> string \<Rightarrow> bool" where
  "glob nocase [] s \<longleftrightarrow> s = []"
| "glob nocase [p] s \<longleftrightarrow> (if p = CHR ''*'' then True else if p = CHR ''?'' then length s = 1
     else length s = 1 \<and> char_eq nocase p (hd s))"
| "glob nocase (p # q # ps) s \<longleftrightarrow>
     (if p = CHR ''*'' then \<exists>k \<le> length s. glob nocase (q # ps) (drop k s)
      else s \<noteq> [] \<and>
        (if p = CHR ''?'' then glob nocase (q # ps) (tl s)
         else if p = BSL then char_eq nocase q (hd s) \<and> glob nocase ps (tl s)
         else char_eq nocase p (hd s) \<and> glob nocase (q # ps) (tl s)))"

lemma char_eq_NUL:
  assumes "c \<noteq> NUL"
  shows "\<not> char_eq nocase c NUL"
proof -
  have "(of_char c :: int) \<noteq> of_char NUL" using assms by (metis of_char_eq_iff)
  moreover have "(of_char c :: int) < 256" "(0 :: int) \<le> of_char c" by (simp_all add: of_char_def)
  ultimately show ?thesis using assms by (auto simp: char_eq_def schar_def tolower_int_def)
qed

lemma glob_star: "glob nocase (CHR ''*'' # p) s \<longleftrightarrow> (\<exists>k \<le> length s. glob nocase p (drop k s))"
  by (cases p) (auto intro: exI [of _ "length s"])

lemma glob_stars: "glob nocase (CHR ''*'' # dropWhile (\<lambda>c. c = CHR ''*'') p) s = glob nocase (CHR ''*'' # p) s"
proof (induction p)
  case (Cons c p)
  have "glob nocase (CHR ''*'' # CHR ''*'' # p) s = glob nocase (CHR ''*'' # p) s"
  proof
    assume "glob nocase (CHR ''*'' # CHR ''*'' # p) s"
    then obtain j k where "j \<le> length s" "k \<le> length s - j" "glob nocase p (drop k (drop j s))" unfolding glob_star by auto
    then show "glob nocase (CHR ''*'' # p) s" unfolding glob_star by (auto intro!: exI [of _ "k + j"])
  next
    assume "glob nocase (CHR ''*'' # p) s"
    then show "glob nocase (CHR ''*'' # CHR ''*'' # p) s" using glob_star [of nocase "CHR ''*'' # p" s] by (auto intro: exI [of _ 0])
  qed
  with Cons show ?case by auto
qed simp

lemma glob_empty: "glob nocase p [] \<longleftrightarrow> dropWhile (\<lambda>c. c = CHR ''*'') p = []"
proof (induction p)
  case (Cons c p)
  then show ?case using glob_star [of nocase p "[]"] by (cases p) auto
qed simp

lemma glob_Cons:
  assumes "c \<noteq> CHR ''*''"
  shows "glob nocase (c # ps) s \<longleftrightarrow> s \<noteq> [] \<and>
    (if c = CHR ''?'' then glob nocase ps (tl s)
     else if c = BSL \<and> ps \<noteq> [] then char_eq nocase (hd ps) (hd s) \<and> glob nocase (tl ps) (tl s)
     else char_eq nocase c (hd s) \<and> glob nocase ps (tl s))"
  using assms by (cases ps; cases s) auto

lemma match_one_glob:
  assumes "c \<noteq> CHR ''*''" "c \<noteq> CHR ''[''" "NUL \<notin> set (c # ps)"
  shows "\<exists>ps'. length ps' \<le> length ps \<and> set ps' \<subseteq> set ps \<and>
    (match_one nocase (c # ps) s 0 = Some (Inl ()) \<and> \<not> glob nocase (c # ps) s \<or>
     s \<noteq> [] \<and> match_one nocase (c # ps) s 0 = Some (Inr (ps', tl s, 0)) \<and> glob nocase (c # ps) s = glob nocase ps' (tl s))"
proof (cases s)
  case Nil
  have "hd ps \<noteq> NUL" if "ps \<noteq> []" using that assms(3) by (cases ps) auto
  with Nil assms show ?thesis
    by (auto simp: match_one_def peek_def glob_Cons char_eq_NUL Let_def intro: exI [of _ ps])
next
  case (Cons x t)
  have "set (tl ps) \<subseteq> set ps" by (cases ps) auto
  with Cons assms show ?thesis
    by (cases "c \<noteq> CHR ''?'' \<and> c = BSL \<and> ps \<noteq> []")
      (auto simp: match_one_def peek_def advance_def glob_Cons Let_def intro: exI [of _ ps] exI [of _ "tl ps"])
qed

lemma match_suffixes_ex:
  assumes "\<And>k. k < length s \<Longrightarrow> stringmatchlen nocase p (drop k s) 0 = Some (P (drop k s))"
  shows "match_suffixes nocase p s = Some (\<exists>k < length s. P (drop k s))"
  using assms
proof (induction s)
  case (Cons x s)
  have "match_suffixes nocase p s = Some (\<exists>k < length s. P (drop k s))"
    using Cons.prems [of "Suc _"] by (intro Cons.IH) simp
  moreover have "(\<exists>k < Suc (length s). P (drop k (x # s))) \<longleftrightarrow> P (x # s) \<or> (\<exists>k < length s. P (drop k s))"
    by (auto simp: less_Suc_eq_0_disj)
  ultimately show ?case using Cons.prems [of 0] by auto
qed simp

text \<open>
  C26: on patterns without a bracket expression the matcher never reads outside its strings and
  answers exactly as the glob pattern asks, with and without regard to case.
\<close>

theorem stringmatchlen_glob:
  assumes "CHR ''['' \<notin> set p" "NUL \<notin> set p" "NUL \<notin> set s"
  shows "stringmatchlen nocase p s 0 = Some (glob nocase p s)"
  using assms
proof (induction "length p" arbitrary: p s rule: less_induct)
  case less
  show ?case
  proof (cases p)
    case (Cons c ps)
    show ?thesis
    proof (cases "c = CHR ''*''")
      case True
      let ?q = "dropWhile (\<lambda>c. c = CHR ''*'') ps"
      have q: "set ?q \<subseteq> set ps" "length ?q < length p" using Cons by (auto dest: set_dropWhileD simp: less_Suc_eq_le length_dropWhile_le)
      have "stringmatchlen nocase ?q (drop k s) 0 = Some (glob nocase ?q (drop k s))" for k
        using q less.prems Cons by (intro less.hyps) (auto dest: in_set_dropD)
      from match_suffixes_ex [OF this] have m: "match_suffixes nocase ?q s = Some (\<exists>k < length s. glob nocase ?q (drop k s))" .
      have g: "glob nocase p s \<longleftrightarrow> (\<exists>k \<le> length s. glob nocase ?q (drop k s))"
        unfolding Cons True using glob_stars [of nocase ps s] glob_star [of nocase ?q s] by blast
      show ?thesis
      proof (cases "?q = []")
        case True
        then have "glob nocase ?q (drop (length s) s)" by (simp only: glob.simps drop_all order_refl)
        then have "glob nocase p s" unfolding g by blast
        then show ?thesis using True \<open>c = CHR ''*''\<close> unfolding Cons by simp
      next
        case False
        have "\<not> glob nocase ?q (drop (length s) s)" using False by (simp only: glob_empty drop_all order_refl dropWhile_idem not_False_eq_True)
        then have "glob nocase p s \<longleftrightarrow> (\<exists>k < length s. glob nocase ?q (drop k s))" unfolding g by (metis le_less)
        then show ?thesis using False \<open>c = CHR ''*''\<close> m unfolding Cons by (simp del: dropWhile_eq_Nil_conv)
      qed
    next
      case False
      obtain ps' where ps': "length ps' \<le> length ps" "set ps' \<subseteq> set ps"
        "match_one nocase (c # ps) s 0 = Some (Inl ()) \<and> \<not> glob nocase (c # ps) s \<or>
         s \<noteq> [] \<and> match_one nocase (c # ps) s 0 = Some (Inr (ps', tl s, 0)) \<and> glob nocase (c # ps) s = glob nocase ps' (tl s)"
        using match_one_glob [OF False, of ps nocase s] less.prems Cons by auto
      have "NUL \<notin> set (tl s)" using less.prems(3) by (cases s) auto
      then have "stringmatchlen nocase ps' (tl s) 0 = Some (glob nocase ps' (tl s))"
        using ps'(1,2) less.prems(1,2) Cons by (intro less.hyps) auto
      then have a: "s \<noteq> [] \<Longrightarrow> match_one nocase (c # ps) s 0 = Some (Inr (ps', tl s, 0)) \<Longrightarrow>
          stringmatchlen nocase (c # ps) s 0 = Some (glob nocase ps' (tl s))"
        using False by (simp add: glob_empty)
      have b: "match_one nocase (c # ps) s 0 = Some (Inl ()) \<Longrightarrow> stringmatchlen nocase (c # ps) s 0 = Some False"
        using False by simp
      from ps'(3) show ?thesis unfolding Cons by (elim disjE conjE) (simp_all only: a b simp_thms)
    qed
  qed simp
qed

theorem stringmatchlen_glob_witness:
  "stringmatchlen False ''t*o?t'' ''timeout'' 0 = Some True \<and> stringmatchlen False ''h?t'' ''hz'' 0 = Some False"
proof -
  have "glob False ''t*o?t'' ''timeout''"
    by (simp add: char_eq_def) (rule exI [of _ 3], simp add: char_eq_def)
  moreover have "\<not> glob False ''h?t'' ''hz''" by simp
  moreover have "stringmatchlen False ''t*o?t'' ''timeout'' 0 = Some (glob False ''t*o?t'' ''timeout'')" by (rule stringmatchlen_glob) simp_all
  moreover have "stringmatchlen False ''h?t'' ''hz'' 0 = Some (glob False ''h?t'' ''hz'')" by (rule stringmatchlen_glob) simp_all
  ultimately show ?thesis by (simp only: simp_thms)
qed

text \<open>A pattern that ends inside a bracket expression with a backslash is read past its end.\<close>

lemma stringmatchlen_overread: "stringmatchlen nocase [CHR ''['', BSL] s 0 = None"
  by (simp add: match_one_def bracket.simps)

end
