(* ===== verification/Prez_Config.thy ===== *)
theory Prez_Config
  imports Prez_Client Prez_Args Prez_Log Prez_Glob
begin

text \<open>
  The settings of the server: the loader of src/src/config.c for configuration files and command
  line options, the defaults of \<open>initServerConfig\<close>, the adjustment of the limit on open files and
  the commands CONFIG SET and CONFIG GET.  The loader ends the process on the first bad directive,
  which is \<open>Inl (Exit 1)\<close>.  What the loader asks the operating system is the record \<open>cfgenv\<close>.
\<close>

section \<open>Numbers\<close>

text \<open>\<open>strtoll\<close> in base 10 with its end pointer, as the bytes that are left, and whether it reports
  \<open>ERANGE\<close>.\<close>

definition strtoll_end :: "string \<Rightarrow> int \<times> string \<times> bool" where
  "strtoll_end s =
     (let p = dropWhile c_isspace s;
          neg = (p \<noteq> [] \<and> hd p = CHR ''-'');
          q = (if p \<noteq> [] \<and> (hd p = CHR ''-'' \<or> hd p = CHR ''+'') then tl p else p);
          ds = takeWhile is_digit q;
          v = int (dec_val ds)
      in (strtoll10 s, if ds = [] then s else drop (length ds) q, if neg then v > 9223372036854775808 else v > LLONG_MAX))"

definition is_octal :: "char \<Rightarrow> bool" where
  "is_octal c \<longleftrightarrow> (let n = (of_char c :: nat) in 48 \<le> n \<and> n \<le> 55)"

definition strtol8 :: "string \<Rightarrow> int \<times> bool" where
  "strtol8 s =
     (let p = dropWhile c_isspace s;
          neg = (p \<noteq> [] \<and> hd p = CHR ''-'');
          q = (if p \<noteq> [] \<and> (hd p = CHR ''-'' \<or> hd p = CHR ''+'') then tl p else p);
          v = int (foldl (\<lambda>v c. v * 8 + (of_char c - 48)) 0 (takeWhile is_octal q))
      in if neg then (if v > 9223372036854775808 then (LLONG_MIN, True) else (- v, False))
         else (if v > LLONG_MAX then (LLONG_MAX, True) else (v, False)))"

definition getLongLongFromObject :: "robj \<Rightarrow> int option" where
  "getLongLongFromObject ob =
     (case o_ptr ob of
        PSds s \<Rightarrow>
          let t = cstr s; (value, rest, erange) = strtoll_end t in
          if t \<noteq> [] \<and> c_isspace (hd t) \<or> rest \<noteq> [] \<or> erange then None else Some value
      | PInt n \<Rightarrow> Some n)"

section \<open>The settings\<close>

abbreviation (input) PREZ_DEBUG :: int where "PREZ_DEBUG \<equiv> 0"
abbreviation (input) PREZ_VERBOSE :: int where "PREZ_VERBOSE \<equiv> 1"
abbreviation (input) PREZ_NOTICE :: int where "PREZ_NOTICE \<equiv> 2"
abbreviation (input) PREZ_WARNING :: int where "PREZ_WARNING \<equiv> 3"
abbreviation (input) PREZ_MIN_HZ :: int where "PREZ_MIN_HZ \<equiv> 1"
abbreviation (input) PREZ_MAX_HZ :: int where "PREZ_MAX_HZ \<equiv> 500"
abbreviation (input) PREZ_BINDADDR_MAX :: nat where "PREZ_BINDADDR_MAX \<equiv> 16"
abbreviation (input) PREZ_MIN_RESERVED_FDS :: int where "PREZ_MIN_RESERVED_FDS \<equiv> 32"
abbreviation (input) PREZ_EVENTLOOP_FDSET_INCR :: int where "PREZ_EVENTLOOP_FDSET_INCR \<equiv> 128"

record config =
  cf_name :: string
  cf_hz :: int
  cf_port :: int
  cf_tcp_backlog :: int
  cf_bindaddr :: "string list"
  cf_bindaddr_count :: nat
  cf_unixsocket :: "string option"
  cf_unixsocketperm :: nat
  cf_verbosity :: int
  cf_maxidletime :: int
  cf_tcpkeepalive :: int
  cf_logfile :: string
  cf_syslog_enabled :: int
  cf_syslog_ident :: string
  cf_syslog_facility :: int
  cf_daemonize :: int
  cf_pidfile :: string
  cf_maxclients :: int
  cf_maxmemory :: nat
  cf_maxmemory_policy :: int
  cf_maxmemory_samples :: int
  cf_cport :: int
  cf_cluster_configfile :: "string option"
  cf_election_timeout :: int
  cf_heartbeat_interval :: int
  cf_hard_limit_bytes :: nat
  cf_soft_limit_bytes :: nat
  cf_soft_limit_seconds :: int
  cf_setsize :: int

text \<open>Whether a directory can be entered and a log file opened, the files and the standard input; the
  limit on open files, the limits that can be set, and the sizes the event set can get.\<close>

record cfgenv =
  ce_chdir :: "string \<Rightarrow> bool"
  ce_append :: "string \<Rightarrow> bool"
  ce_file :: "string \<Rightarrow> string option"
  ce_stdin :: string
  ce_getrlimit :: "nat option"
  ce_setrlimit :: "nat \<Rightarrow> bool"
  ce_resize :: "int \<Rightarrow> bool"

definition initServerConfig :: config where
  "initServerConfig =
     \<lparr>cf_name = ''prezserver'', cf_hz = 100, cf_port = 7981, cf_tcp_backlog = 511, cf_bindaddr = replicate PREZ_BINDADDR_MAX [],
      cf_bindaddr_count = 0, cf_unixsocket = None, cf_unixsocketperm = 0, cf_verbosity = PREZ_DEBUG, cf_maxidletime = 0,
      cf_tcpkeepalive = 0, cf_logfile = [], cf_syslog_enabled = 0, cf_syslog_ident = ''prez'', cf_syslog_facility = 128,
      cf_daemonize = 0, cf_pidfile = ''/var/run/prez.pid'', cf_maxclients = 10000, cf_maxmemory = 0, cf_maxmemory_policy = 0,
      cf_maxmemory_samples = 0, cf_cport = 17981, cf_cluster_configfile = None, cf_election_timeout = 150,
      cf_heartbeat_interval = 10, cf_hard_limit_bytes = 0, cf_soft_limit_bytes = 0, cf_soft_limit_seconds = 0, cf_setsize = 0\<rparr>"

section \<open>Directives\<close>

definition yesnotoi :: "string \<Rightarrow> int" where
  "yesnotoi s = (if strcaseeq (cstr s) ''yes'' then 1 else if strcaseeq (cstr s) ''no'' then 0 else -1)"

definition getClientTypeByName :: "string \<Rightarrow> int" where
  "getClientTypeByName name = (if strcaseeq (cstr name) ''normal'' then 0 else -1)"

definition validSyslogFacilities :: "(string \<times> int) list" where
  "validSyslogFacilities =
     [(''user'', 8), (''local0'', 128), (''local1'', 136), (''local2'', 144), (''local3'', 152), (''local4'', 160),
      (''local5'', 168), (''local6'', 176), (''local7'', 184)]"

text \<open>What a line of the file asks for: new settings, another file, or the end of the process.\<close>

datatype config_step = Set config | Include string | Fail

text \<open>The groups of directives, in the order of the source; \<open>None\<close> when the name and the number of
  arguments match none of them.\<close>

definition is_dir :: "string list \<Rightarrow> string \<Rightarrow> nat \<Rightarrow> bool" where
  "is_dir argv name argc \<longleftrightarrow> strcaseeq (cstr (argv ! 0)) name \<and> length argv = argc"

definition network_directive :: "string list \<Rightarrow> config \<Rightarrow> config_step option" where
  "network_directive argv c =
     (if is_dir argv ''timeout'' 2 then
        let v = c_atoi (cstr (argv ! 1)) in Some (if v < 0 then Fail else Set (c\<lparr>cf_maxidletime := v\<rparr>))
      else if is_dir argv ''name'' 2 then Some (Set (c\<lparr>cf_name := cstr (argv ! 1)\<rparr>))
      else if is_dir argv ''tcp-keepalive'' 2 then
        let v = c_atoi (cstr (argv ! 1)) in Some (if v < 0 then Fail else Set (c\<lparr>cf_tcpkeepalive := v\<rparr>))
      else if is_dir argv ''port'' 2 then
        let v = c_atoi (cstr (argv ! 1)) in Some (if v < 0 \<or> v > 65535 then Fail else Set (c\<lparr>cf_port := v\<rparr>))
      else if is_dir argv ''tcp-backlog'' 2 then
        let v = c_atoi (cstr (argv ! 1)) in Some (if v < 0 then Fail else Set (c\<lparr>cf_tcp_backlog := v\<rparr>))
      else if strcaseeq (cstr (argv ! 0)) ''bind'' \<and> length argv \<ge> 2 then
        let addresses = length argv - 1 in
        Some (if addresses > PREZ_BINDADDR_MAX then Fail
              else Set (c\<lparr>cf_bindaddr := map cstr (tl argv) @ drop addresses (cf_bindaddr c), cf_bindaddr_count := addresses\<rparr>))
      else if is_dir argv ''unixsocket'' 2 then Some (Set (c\<lparr>cf_unixsocket := Some (cstr (argv ! 1))\<rparr>))
      else if is_dir argv ''unixsocketperm'' 2 then
        let (v, err) = strtol8 (cstr (argv ! 1)); perm = nat (v mod 4294967296) in
        Some (if err \<or> perm > 511 then Fail else Set (c\<lparr>cf_unixsocketperm := perm\<rparr>))
      else None)"

definition log_level :: "string \<Rightarrow> int option" where
  "log_level s =
     (if strcaseeq (cstr s) ''debug'' then Some PREZ_DEBUG
      else if strcaseeq (cstr s) ''verbose'' then Some PREZ_VERBOSE
      else if strcaseeq (cstr s) ''notice'' then Some PREZ_NOTICE
      else if strcaseeq (cstr s) ''warning'' then Some PREZ_WARNING
      else None)"

definition log_directive :: "cfgenv \<Rightarrow> string list \<Rightarrow> config \<Rightarrow> config_step option" where
  "log_directive env argv c =
     (if is_dir argv ''dir'' 2 then Some (if ce_chdir env (cstr (argv ! 1)) then Set c else Fail)
      else if is_dir argv ''loglevel'' 2 then
        Some (case log_level (argv ! 1) of Some v \<Rightarrow> Set (c\<lparr>cf_verbosity := v\<rparr>) | None \<Rightarrow> Fail)
      else if is_dir argv ''logfile'' 2 then
        let f = cstr (argv ! 1) in Some (if f \<noteq> [] \<and> \<not> ce_append env f then Fail else Set (c\<lparr>cf_logfile := f\<rparr>))
      else if is_dir argv ''syslog-enabled'' 2 then
        let v = yesnotoi (argv ! 1) in Some (if v = -1 then Fail else Set (c\<lparr>cf_syslog_enabled := v\<rparr>))
      else if is_dir argv ''syslog-ident'' 2 then Some (Set (c\<lparr>cf_syslog_ident := cstr (argv ! 1)\<rparr>))
      else if is_dir argv ''syslog-facility'' 2 then
        Some (case List.find (\<lambda>f. strcaseeq (fst f) (cstr (argv ! 1))) validSyslogFacilities of
                Some f \<Rightarrow> Set (c\<lparr>cf_syslog_facility := snd f\<rparr>)
              | None \<Rightarrow> Fail)
      else None)"

definition memory_policy :: "string \<Rightarrow> int option" where
  "memory_policy s =
     (if strcaseeq (cstr s) ''volatile-lru'' then Some 0
      else if strcaseeq (cstr s) ''volatile-random'' then Some 2
      else if strcaseeq (cstr s) ''volatile-ttl'' then Some 1
      else if strcaseeq (cstr s) ''allkeys-lru'' then Some 3
      else if strcaseeq (cstr s) ''allkeys-random'' then Some 4
      else if strcaseeq (cstr s) ''noeviction'' then Some 5
      else None)"

definition limit_directive :: "string list \<Rightarrow> config \<Rightarrow> config_step option" where
  "limit_directive argv c =
     (if is_dir argv ''include'' 2 then Some (Include (cstr (argv ! 1)))
      else if is_dir argv ''maxclients'' 2 then
        let v = c_atoi (cstr (argv ! 1)) in Some (if v < 1 then Fail else Set (c\<lparr>cf_maxclients := v\<rparr>))
      else if is_dir argv ''maxmemory'' 2 then Some (Set (c\<lparr>cf_maxmemory := ull (fst (memtoll (cstr (argv ! 1))))\<rparr>))
      else if is_dir argv ''maxmemory-policy'' 2 then
        Some (case memory_policy (argv ! 1) of Some v \<Rightarrow> Set (c\<lparr>cf_maxmemory_policy := v\<rparr>) | None \<Rightarrow> Fail)
      else if is_dir argv ''maxmemory-samples'' 2 then
        let v = c_atoi (cstr (argv ! 1)) in Some (if v \<le> 0 then Fail else Set (c\<lparr>cf_maxmemory_samples := v\<rparr>))
      else None)"

definition clamp_hz :: "int \<Rightarrow> int" where
  "clamp_hz v = (let v = (if v < PREZ_MIN_HZ then PREZ_MIN_HZ else v) in if v > PREZ_MAX_HZ then PREZ_MAX_HZ else v)"

definition process_directive :: "string list \<Rightarrow> config \<Rightarrow> config_step option" where
  "process_directive argv c =
     (if is_dir argv ''daemonize'' 2 then
        let v = yesnotoi (argv ! 1) in Some (if v = -1 then Fail else Set (c\<lparr>cf_daemonize := v\<rparr>))
      else if is_dir argv ''hz'' 2 then Some (Set (c\<lparr>cf_hz := clamp_hz (c_atoi (cstr (argv ! 1)))\<rparr>))
      else None)"

definition pidfile_directive :: "string list \<Rightarrow> config \<Rightarrow> config_step option" where
  "pidfile_directive argv c = (if is_dir argv ''pidfile'' 2 then Some (Set (c\<lparr>cf_pidfile := cstr (argv ! 1)\<rparr>)) else None)"

definition cluster_directive :: "string list \<Rightarrow> config \<Rightarrow> config_step option" where
  "cluster_directive argv c =
     (if is_dir argv ''cluster-port'' 2 then
        let v = c_atoi (cstr (argv ! 1)) in Some (if v < 0 \<or> cf_port c > 65535 then Fail else Set (c\<lparr>cf_cport := v\<rparr>))
      else if is_dir argv ''cluster-config-file'' 2 then Some (Set (c\<lparr>cf_cluster_configfile := Some (cstr (argv ! 1))\<rparr>))
      else if is_dir argv ''cluster-election-timeout'' 2 then
        let v = strtoll10 (cstr (argv ! 1)) in Some (if v \<le> 0 then Fail else Set (c\<lparr>cf_election_timeout := v\<rparr>))
      else if is_dir argv ''cluster-heartbeat-interval'' 2 then
        let v = strtoll10 (cstr (argv ! 1)) in Some (if v \<le> 0 then Fail else Set (c\<lparr>cf_heartbeat_interval := v\<rparr>))
      else None)"

definition obuf_directive :: "string list \<Rightarrow> config \<Rightarrow> config_step option" where
  "obuf_directive argv c =
     (if is_dir argv ''client-output-buffer-limit'' 5 then
        let class = getClientTypeByName (argv ! 1);
            hard = ull (fst (memtoll (cstr (argv ! 2))));
            soft = ull (fst (memtoll (cstr (argv ! 3))));
            soft_seconds = c_atoi (cstr (argv ! 4))
        in Some (if class = -1 \<or> soft_seconds < 0 then Fail
                 else Set (c\<lparr>cf_hard_limit_bytes := hard, cf_soft_limit_bytes := soft, cf_soft_limit_seconds := soft_seconds\<rparr>))
      else None)"

section \<open>The loader\<close>

definition first_some :: "'a option list \<Rightarrow> 'a option" where
  "first_some xs = (case filter (\<lambda>x. x \<noteq> None) xs of [] \<Rightarrow> None | x # _ \<Rightarrow> x)"

definition directive :: "cfgenv \<Rightarrow> string list \<Rightarrow> config \<Rightarrow> config_step" where
  "directive env argv c =
     (case first_some [network_directive argv c, log_directive env argv c, limit_directive argv c, process_directive argv c,
             pidfile_directive argv c, cluster_directive argv c, obuf_directive argv c] of
        Some st \<Rightarrow> st
      | None \<Rightarrow> Fail)"

text \<open>One line: the bytes left by \<open>sdstrim\<close>, without comments and empty lines.\<close>

definition load_line :: "cfgenv \<Rightarrow> string \<Rightarrow> config \<Rightarrow> config_step" where
  "load_line env line c =
     (let line = cstr (trim_bytes (in_cset ('' '' @ [CHR 0x09, CR, LF])) line) in
      if line = [] \<or> hd line = CHR ''#'' then Set c
      else (case sdssplitargs line of
              None \<Rightarrow> Fail
            | Some [] \<Rightarrow> Set c
            | Some (a # argv) \<Rightarrow> directive env (map c_tolower a # argv) c))"

definition config_lines :: "string \<Rightarrow> string list" where
  "config_lines text = (case sdssplitlen (cstr text) [LF] of Some ls \<Rightarrow> ls | None \<Rightarrow> [])"

lemma fgets_shorter: "2 \<le> n \<Longrightarrow> fgets n f = Some (b, r) \<Longrightarrow> length r < length f"
  by (cases f; cases "n - 1") (auto simp: fgets_def Let_def)

function read_config :: "string \<Rightarrow> string" where
  "read_config f = (case fgets 1025 f of None \<Rightarrow> [] | Some (b, r) \<Rightarrow> cstr b @ read_config r)"
  by pat_completeness auto
termination
  by (relation "measure length") (auto dest: fgets_shorter [rotated])

declare read_config.simps [simp del]

text \<open>\<open>None\<close> when the file cannot be opened.\<close>

definition config_text :: "cfgenv \<Rightarrow> string option \<Rightarrow> string option \<Rightarrow> string option" where
  "config_text env filename options =
     do { text \<leftarrow> (case filename of
             None \<Rightarrow> Some []
           | Some f \<Rightarrow> if f = ''-'' then Some (read_config (ce_stdin env)) else map_option read_config (ce_file env f));
          Some (text @ (case options of None \<Rightarrow> [] | Some op \<Rightarrow> LF # cstr op)) }"

text \<open>The loop over the lines with the files they include; a file that includes itself is read
  without end, which is \<open>None\<close>.\<close>

partial_function (option) load_lines :: "cfgenv \<Rightarrow> string list \<Rightarrow> config \<Rightarrow> (fault + config) option" where
  "load_lines env lines c =
     (case lines of
        [] \<Rightarrow> Some (Inr c)
      | line # rest \<Rightarrow>
          (case load_line env line c of
             Set c' \<Rightarrow> load_lines env rest c'
           | Fail \<Rightarrow> Some (Inl (Exit 1))
           | Include f \<Rightarrow>
               (case config_text env (Some f) None of
                  None \<Rightarrow> Some (Inl (Exit 1))
                | Some text \<Rightarrow>
                    Option.bind (load_lines env (config_lines text) c)
                      (\<lambda>r. case r of Inl e \<Rightarrow> Some (Inl e) | Inr c' \<Rightarrow> load_lines env rest c'))))"

definition loadServerConfigFromString :: "cfgenv \<Rightarrow> string \<Rightarrow> config \<Rightarrow> (fault + config) option" where
  "loadServerConfigFromString env text c = load_lines env (config_lines text) c"

definition loadServerConfig :: "cfgenv \<Rightarrow> string option \<Rightarrow> string option \<Rightarrow> config \<Rightarrow> (fault + config) option" where
  "loadServerConfig env filename options c =
     (case config_text env filename options of
        None \<Rightarrow> Some (Inl (Exit 1))
      | Some text \<Rightarrow> loadServerConfigFromString env text c)"

text \<open>The command line: the configuration file and the options that are appended to it.\<close>

definition option_text :: "string \<Rightarrow> string \<Rightarrow> string" where
  "option_text options arg =
     (if take 2 arg = ''--'' then (if options \<noteq> [] then options @ [LF] else options) @ drop 2 arg @ '' ''
      else sdscatrepr options arg @ '' '')"

definition main_config :: "cfgenv \<Rightarrow> string list \<Rightarrow> (fault + config) option" where
  "main_config env argv =
     (case argv of
        [] \<Rightarrow> Some (Inr initServerConfig)
      | a # _ \<Rightarrow>
          if a \<in> {''-v'', ''--version'', ''--help'', ''-h''} then Some (Inl (Exit (if a \<in> {''-v'', ''--version''} then 0 else 1)))
          else
            let (configfile, args) = (if take 2 a \<noteq> ''--'' then (Some a, tl argv) else (None, argv))
            in loadServerConfig env configfile (Some (foldl option_text [] args)) initServerConfig)"

section \<open>The limit on open files\<close>

function fd_loop :: "(nat \<Rightarrow> bool) \<Rightarrow> nat \<Rightarrow> nat \<Rightarrow> nat" where
  "fd_loop setrlimit oldlimit f =
     (if f > oldlimit then if setrlimit f then f else if f < 16 then f else fd_loop setrlimit oldlimit (f - 16) else f)"
  by pat_completeness auto
termination
  by (relation "measure (\<lambda>(g, old, f). f)") auto

declare fd_loop.simps [simp del]

text \<open>The new value of \<open>server.maxclients\<close>; \<open>None\<close> is the overflow of an \<open>int\<close> or the end of the process.\<close>

definition adjustOpenFilesLimit :: "cfgenv \<Rightarrow> int \<Rightarrow> int option" where
  "adjustOpenFilesLimit env maxclients =
     (if maxclients + PREZ_MIN_RESERVED_FDS > 2147483647 then None
      else
        let maxfiles = ull (maxclients + PREZ_MIN_RESERVED_FDS) in
        case ce_getrlimit env of
          None \<Rightarrow> Some (1024 - PREZ_MIN_RESERVED_FDS)
        | Some oldlimit \<Rightarrow>
            if oldlimit < maxfiles then
              let f = fd_loop (ce_setrlimit env) oldlimit maxfiles;
                  f = (if f < oldlimit then oldlimit else f)
              in if f \<noteq> maxfiles then
                   let n = c_int32 (int f - PREZ_MIN_RESERVED_FDS) in
                   if n < 1 then None else Some n
                 else Some maxclients
            else Some maxclients)"

section \<open>CONFIG SET\<close>

text \<open>The new value of a setting: \<open>Good\<close> is answered with OK, \<open>Bad_Format\<close> with an error about the
  argument, \<open>Error\<close> with a text of its own.\<close>

datatype set_result = Good config | Bad_Format | Error config string

definition ae_resize :: "cfgenv \<Rightarrow> config \<Rightarrow> int \<Rightarrow> config option" where
  "ae_resize env c setsize =
     (if setsize = cf_setsize c then Some c else if ce_resize env setsize then Some (c\<lparr>cf_setsize := setsize\<rparr>) else None)"

definition set_maxclients :: "cfgenv \<Rightarrow> config \<Rightarrow> int option \<Rightarrow> set_result option" where
  "set_maxclients env c val =
     (case val of
        None \<Rightarrow> Some Bad_Format
      | Some v \<Rightarrow>
          if v < 1 then Some Bad_Format
          else
            let orig = cf_maxclients c in
            if v > orig then
              do { n \<leftarrow> adjustOpenFilesLimit env (c_int32 v);
                   if n \<noteq> v then
                     Some (Error (c\<lparr>cf_maxclients := orig\<rparr>)
                       (''The operating system is not able to handle the specified number of clients, try with '' @ show_int n))
                   else
                     let setsize = n + PREZ_EVENTLOOP_FDSET_INCR in
                     if setsize > 2147483647 then None
                     else if cf_setsize c < setsize then
                       (case ae_resize env (c\<lparr>cf_maxclients := n\<rparr>) setsize of
                          Some c \<Rightarrow> Some (Good c)
                        | None \<Rightarrow>
                            Some (Error (c\<lparr>cf_maxclients := orig\<rparr>)
                              ''The event loop API used by Prez is not able to handle the specified number of clients''))
                     else Some (Good (c\<lparr>cf_maxclients := n\<rparr>)) }
            else Some (Good (c\<lparr>cf_maxclients := c_int32 v\<rparr>)))"

definition set_number :: "int option \<Rightarrow> (int \<Rightarrow> bool) \<Rightarrow> (int \<Rightarrow> config) \<Rightarrow> set_result" where
  "set_number val ok upd = (case val of None \<Rightarrow> Bad_Format | Some v \<Rightarrow> if ok v then Good (upd v) else Bad_Format)"

definition set_hz :: "config \<Rightarrow> int option \<Rightarrow> set_result" where
  "set_hz c num = set_number num (\<lambda>v. v \<ge> 0) (\<lambda>v. c\<lparr>cf_hz := clamp_hz (c_int32 v)\<rparr>)"

definition set_timeout :: "config \<Rightarrow> int option \<Rightarrow> set_result" where
  "set_timeout c num = set_number num (\<lambda>v. 0 \<le> v \<and> v \<le> LLONG_MAX) (\<lambda>v. c\<lparr>cf_maxidletime := c_int32 v\<rparr>)"

definition set_tcp_keepalive :: "config \<Rightarrow> int option \<Rightarrow> set_result" where
  "set_tcp_keepalive c num = set_number num (\<lambda>v. 0 \<le> v \<and> v \<le> 2147483647) (\<lambda>v. c\<lparr>cf_tcpkeepalive := c_int32 v\<rparr>)"

definition set_heartbeat_interval :: "config \<Rightarrow> int option \<Rightarrow> set_result" where
  "set_heartbeat_interval c num = set_number num (\<lambda>v. v > 0) (\<lambda>v. c\<lparr>cf_heartbeat_interval := v\<rparr>)"

definition set_election_timeout :: "config \<Rightarrow> int option \<Rightarrow> set_result" where
  "set_election_timeout c num = set_number num (\<lambda>v. v > 0) (\<lambda>v. c\<lparr>cf_election_timeout := v\<rparr>)"

definition set_loglevel :: "config \<Rightarrow> string \<Rightarrow> set_result" where
  "set_loglevel c val = (case log_level val of Some v \<Rightarrow> Good (c\<lparr>cf_verbosity := v\<rparr>) | None \<Rightarrow> Bad_Format)"

definition set_dbfilename :: "config \<Rightarrow> string \<Rightarrow> set_result" where
  "set_dbfilename c val =
     (if CHR ''/'' \<notin> set (cstr val) \<and> BSL \<notin> set (cstr val) then Good c
      else Error c ''dbfilename can't be a path, just a filename'')"

text \<open>The four words of a client class are checked before anything is set.\<close>

definition obuf_word_ok :: "nat \<Rightarrow> string \<Rightarrow> bool" where
  "obuf_word_ok j w =
     (if j mod 4 = 0 then getClientTypeByName w \<noteq> -1
      else let (val, rest, _) = strtoll_end (cstr w) in rest = [] \<and> val \<ge> 0)"

fun obuf_set :: "string list \<Rightarrow> config \<Rightarrow> config" where
  "obuf_set (_ # hard # soft # seconds # v) c =
     obuf_set v (c\<lparr>cf_hard_limit_bytes := ull (strtoll10 (cstr hard)), cf_soft_limit_bytes := ull (strtoll10 (cstr soft)),
        cf_soft_limit_seconds := c_int32 (strtoll10 (cstr seconds))\<rparr>)"
| "obuf_set _ c = c"

definition set_obuf :: "config \<Rightarrow> string \<Rightarrow> set_result" where
  "set_obuf c val =
     (let v = (case sdssplitlen val '' '' of Some v \<Rightarrow> v | None \<Rightarrow> []) in
      if length v mod 4 \<noteq> 0 then Bad_Format
      else if \<not> list_all (\<lambda>(j, w). obuf_word_ok j w) (enumerate 0 v) then Bad_Format
      else Good (obuf_set v c))"

definition config_set :: "cfgenv \<Rightarrow> config \<Rightarrow> string \<Rightarrow> robj \<Rightarrow> string \<Rightarrow> set_result option" where
  "config_set env c param ob val =
     (let num = getLongLongFromObject ob; is = (\<lambda>name. strcaseeq (cstr param) name) in
      if is ''dbfilename'' then Some (set_dbfilename c val)
      else if is ''maxclients'' then set_maxclients env c num
      else if is ''hz'' then Some (set_hz c num)
      else if is ''timeout'' then Some (set_timeout c num)
      else if is ''tcp-keepalive'' then Some (set_tcp_keepalive c num)
      else if is ''loglevel'' then Some (set_loglevel c val)
      else if is ''client-output-buffer-limit'' then Some (set_obuf c val)
      else if is ''cluster-heartbeat-interval'' then Some (set_heartbeat_interval c num)
      else if is ''cluster-election-timeout'' then Some (set_election_timeout c num)
      else Some (Error c (''Unsupported CONFIG parameter: '' @ cstr param)))"

lemmas set_defs = set_number_def set_hz_def set_timeout_def set_tcp_keepalive_def set_heartbeat_interval_def set_election_timeout_def
  set_loglevel_def set_dbfilename_def set_obuf_def

text \<open>The replies.  Both arguments must be strings, not integers.\<close>

definition configSetCommand :: "cfgenv \<Rightarrow> netenv \<Rightarrow> config \<Rightarrow> client \<Rightarrow> (config \<times> client) option" where
  "configSetCommand env net cfg c =
     (case (o_ptr (c_argv c ! 2), o_ptr (c_argv c ! 3)) of
        (PSds param, PSds val) \<Rightarrow>
          do { r \<leftarrow> config_set env cfg param (c_argv c ! 3) val;
               case r of
                 Good cfg \<Rightarrow> do { c \<leftarrow> addReply net c shared_ok; Some (cfg, c) }
               | Bad_Format \<Rightarrow>
                   Some (cfg, addReplyErrorFormat net c (''Invalid argument '' @ [CHR 0x27] @ cstr val @ [CHR 0x27] @
                     '' for CONFIG SET '' @ [CHR 0x27] @ cstr param @ [CHR 0x27]))
               | Error cfg text \<Rightarrow> Some (cfg, addReplyErrorFormat net c text) }
      | _ \<Rightarrow> None)"

section \<open>CONFIG GET\<close>

definition num_field :: "int \<Rightarrow> string" where
  "num_field v = cstr (snd (ll2string (replicate 128 NUL) 128 v))"

fun show_octal :: "nat \<Rightarrow> string" where
  "show_octal n = (if n < 8 then [digit_char n] else show_octal (n div 8) @ [digit_char (n mod 8)])"

declare show_octal.simps [simp del]

definition verbosity_name :: "int \<Rightarrow> string" where
  "verbosity_name v =
     (if v = PREZ_WARNING then ''warning'' else if v = PREZ_VERBOSE then ''verbose''
      else if v = PREZ_NOTICE then ''notice'' else if v = PREZ_DEBUG then ''debug'' else ''unknown'')"

text \<open>The parameters in the order in which they are matched, with the text that is sent for each.\<close>

definition plain_fields :: "config \<Rightarrow> (string \<times> string) list" where
  "plain_fields c =
     [(''unixsocket'', case cf_unixsocket c of Some s \<Rightarrow> s | None \<Rightarrow> []),
      (''logfile'', cf_logfile c),
      (''pidfile'', cf_pidfile c),
      (''timeout'', num_field (cf_maxidletime c)),
      (''tcp-keepalive'', num_field (cf_tcpkeepalive c))]"

definition port_fields :: "config \<Rightarrow> (string \<times> string) list" where
  "port_fields c = [(''port'', num_field (cf_port c)), (''tcp-backlog'', num_field (cf_tcp_backlog c))]"

definition cluster_fields :: "config \<Rightarrow> (string \<times> string) list" where
  "cluster_fields c =
     [(''hz'', num_field (cf_hz c)),
      (''cluster-election-timeout'', num_field (cf_election_timeout c)),
      (''cluster-heartbeat-interval'', num_field (cf_heartbeat_interval c))]"

definition special_fields :: "config \<Rightarrow> (string \<times> string) list" where
  "special_fields c =
     [(''loglevel'', verbosity_name (cf_verbosity c)),
      (''client-output-buffer-limit'', ''normal '' @ show_nat (cf_hard_limit_bytes c) @ '' '' @ show_nat (cf_soft_limit_bytes c) @
         '' '' @ show_int (cf_soft_limit_seconds c)),
      (''unixsocketperm'', show_octal (cf_unixsocketperm c))]"

definition config_fields :: "config \<Rightarrow> (string \<times> string) list" where
  "config_fields c =
     plain_fields c @ port_fields c @ [(''maxclients'', num_field (cf_maxclients c))] @ cluster_fields c @ special_fields c"

fun get_loop :: "netenv \<Rightarrow> string \<Rightarrow> (string \<times> string) list \<Rightarrow> client \<Rightarrow> int \<Rightarrow> (client \<times> int) option" where
  "get_loop net pattern [] c matches = Some (c, matches)"
| "get_loop net pattern ((name, val) # fs) c matches =
     do { m \<leftarrow> stringmatch pattern name False;
          if m then
            do { c \<leftarrow> addReplyBulkCString net c (Some name);
                 c \<leftarrow> addReplyBulkCString net c (Some val);
                 get_loop net pattern fs c (matches + 1) }
          else get_loop net pattern fs c matches }"

definition configGetCommand :: "netenv \<Rightarrow> config \<Rightarrow> client \<Rightarrow> client option" where
  "configGetCommand net cfg c =
     (case o_ptr (c_argv c ! 2) of
        PInt _ \<Rightarrow> None
      | PSds pattern \<Rightarrow>
          let (c, replylen) = addDeferredMultiBulkLength net c in
          do { (c, matches) \<leftarrow> get_loop net pattern (config_fields cfg) c 0;
               setDeferredMultiBulkLength net c replylen (matches * 2) })"

section \<open>Valid settings\<close>

definition settings_ok :: "config \<Rightarrow> bool" where
  "settings_ok c \<longleftrightarrow> 0 \<le> cf_port c \<and> cf_port c \<le> 65535 \<and> 1 \<le> cf_hz c \<and> cf_hz c \<le> 500 \<and> 0 \<le> cf_tcp_backlog c \<and>
     0 \<le> cf_tcpkeepalive c \<and> 1 \<le> cf_maxclients c \<and> cf_maxclients c \<le> 2147483647 \<and> 0 \<le> cf_cport c \<and> cf_bindaddr_count c \<le> PREZ_BINDADDR_MAX \<and>
     length (cf_bindaddr c) = PREZ_BINDADDR_MAX \<and> cf_unixsocketperm c \<le> 511 \<and> cf_verbosity c \<in> {0, 1, 2, 3} \<and>
     0 < cf_election_timeout c \<and> cf_election_timeout c \<le> LLONG_MAX \<and>
     0 < cf_heartbeat_interval c \<and> cf_heartbeat_interval c \<le> LLONG_MAX"

lemma strtoll10_max: "strtoll10 s \<le> LLONG_MAX"
  by (simp add: strtoll10_def Let_def)

lemma c_atoi_max: "c_atoi s \<le> 2147483647"
  by (simp add: c_atoi_def c_int32_def)

lemma clamp_hz_range: "1 \<le> clamp_hz v" "clamp_hz v \<le> 500"
  by (simp_all add: clamp_hz_def Let_def)

lemma log_level_range: "log_level s = Some v \<Longrightarrow> v \<in> {0, 1, 2, 3}"
  by (auto simp: log_level_def split: if_splits)

lemma settings_upd:
  assumes "settings_ok c"
  shows "settings_ok (c\<lparr>cf_maxidletime := v\<rparr>)" "settings_ok (c\<lparr>cf_name := s\<rparr>)" "0 \<le> v \<Longrightarrow> settings_ok (c\<lparr>cf_tcpkeepalive := v\<rparr>)"
    "0 \<le> v \<Longrightarrow> v \<le> 65535 \<Longrightarrow> settings_ok (c\<lparr>cf_port := v\<rparr>)" "0 \<le> v \<Longrightarrow> settings_ok (c\<lparr>cf_tcp_backlog := v\<rparr>)"
    "length as \<le> 16 \<Longrightarrow> settings_ok (c\<lparr>cf_bindaddr := as @ drop (length as) (cf_bindaddr c), cf_bindaddr_count := length as\<rparr>)"
    "settings_ok (c\<lparr>cf_unixsocket := so\<rparr>)" "n \<le> 511 \<Longrightarrow> settings_ok (c\<lparr>cf_unixsocketperm := n\<rparr>)"
    "v \<in> {0, 1, 2, 3} \<Longrightarrow> settings_ok (c\<lparr>cf_verbosity := v\<rparr>)" "settings_ok (c\<lparr>cf_logfile := s\<rparr>)"
    "settings_ok (c\<lparr>cf_syslog_enabled := v\<rparr>)" "settings_ok (c\<lparr>cf_syslog_ident := s\<rparr>)" "settings_ok (c\<lparr>cf_syslog_facility := v\<rparr>)"
    "1 \<le> v \<Longrightarrow> v \<le> 2147483647 \<Longrightarrow> settings_ok (c\<lparr>cf_maxclients := v\<rparr>)" "settings_ok (c\<lparr>cf_maxmemory := n\<rparr>)" "settings_ok (c\<lparr>cf_maxmemory_policy := v\<rparr>)"
    "settings_ok (c\<lparr>cf_maxmemory_samples := v\<rparr>)" "settings_ok (c\<lparr>cf_daemonize := v\<rparr>)" "settings_ok (c\<lparr>cf_hz := clamp_hz v\<rparr>)"
    "settings_ok (c\<lparr>cf_pidfile := s\<rparr>)" "0 \<le> v \<Longrightarrow> settings_ok (c\<lparr>cf_cport := v\<rparr>)" "settings_ok (c\<lparr>cf_cluster_configfile := so\<rparr>)"
    "0 < v \<Longrightarrow> v \<le> LLONG_MAX \<Longrightarrow> settings_ok (c\<lparr>cf_election_timeout := v\<rparr>)"
    "0 < v \<Longrightarrow> v \<le> LLONG_MAX \<Longrightarrow> settings_ok (c\<lparr>cf_heartbeat_interval := v\<rparr>)"
    "settings_ok (c\<lparr>cf_hard_limit_bytes := n, cf_soft_limit_bytes := k, cf_soft_limit_seconds := v\<rparr>)"
    "settings_ok (c\<lparr>cf_setsize := v\<rparr>)"
  using assms by (simp_all add: settings_ok_def clamp_hz_range)

lemma network_ok: "settings_ok c \<Longrightarrow> network_directive argv c = Some (Set c') \<Longrightarrow> settings_ok c'"
  using settings_upd(6) [of c "map cstr (tl argv)"]
  by (simp add: network_directive_def Let_def settings_upd not_less split: if_splits prod.splits) (auto simp: settings_upd)

lemma log_ok: "settings_ok c \<Longrightarrow> log_directive env argv c = Some (Set c') \<Longrightarrow> settings_ok c'"
  using log_level_range by (auto simp: log_directive_def Let_def settings_upd split: if_splits option.splits)

lemma limit_ok: "settings_ok c \<Longrightarrow> limit_directive argv c = Some (Set c') \<Longrightarrow> settings_ok c'"
  by (auto simp: limit_directive_def Let_def settings_upd c_atoi_max split: if_splits option.splits)

lemma rest_ok:
  "settings_ok c \<Longrightarrow> process_directive argv c = Some (Set c') \<Longrightarrow> settings_ok c'"
  "settings_ok c \<Longrightarrow> pidfile_directive argv c = Some (Set c') \<Longrightarrow> settings_ok c'"
  "settings_ok c \<Longrightarrow> cluster_directive argv c = Some (Set c') \<Longrightarrow> settings_ok c'"
  "settings_ok c \<Longrightarrow> obuf_directive argv c = Some (Set c') \<Longrightarrow> settings_ok c'"
  by (auto simp: process_directive_def pidfile_directive_def cluster_directive_def obuf_directive_def Let_def settings_upd
      strtoll10_max split: if_splits)

lemma first_some_mem: "first_some xs = Some y \<Longrightarrow> Some y \<in> set xs"
  by (auto simp: first_some_def split: list.splits dest: filter_eq_ConsD)

lemma load_line_ok: "settings_ok c \<Longrightarrow> load_line env line c = Set c' \<Longrightarrow> settings_ok c'"
proof -
  assume c: "settings_ok c" and l: "load_line env line c = Set c'"
  have "directive env argv c = Set c' \<Longrightarrow> settings_ok c'" for argv
    using network_ok [OF c] log_ok [OF c] limit_ok [OF c] rest_ok [OF c]
    by (auto simp: directive_def split: option.splits dest!: first_some_mem)
  then show ?thesis using c l by (auto simp: load_line_def Let_def split: if_splits option.splits list.splits)
qed

lemma load_lines_ok:
  assumes "load_lines env lines c = Some r"
  shows "settings_ok c \<longrightarrow> (\<forall>c'. r = Inr c' \<longrightarrow> settings_ok c')"
proof (induction rule: load_lines.raw_induct [OF _ assms])
  case (1 f env lines c r)
  note IH = 1(1) and f = 1(2)
  show ?case
  proof (cases lines)
    case (Cons line rest)
    show ?thesis
    proof (cases "load_line env line c")
      case (Set d)
      then have "f env rest d = Some r" using f Cons by simp
      then show ?thesis using IH [of env rest d r] load_line_ok [OF _ Set] by blast
    next
      case (Include fn)
      show ?thesis
      proof (cases "config_text env (Some fn) None")
        case None
        then have "r = Inl (Exit 1)" using f Cons Include by simp
        then show ?thesis by simp
      next
        case (Some str)
        then obtain res where s: "f env (config_lines str) c = Some res" "(case res of Inl e \<Rightarrow> Some (Inl e) | Inr c' \<Rightarrow> f env rest c') = Some r"
          using f Cons Include by (auto simp: bind_eq_Some_conv)
        show ?thesis
        proof (cases res)
          case (Inr d)
          then have "f env rest d = Some r" "settings_ok c \<Longrightarrow> settings_ok d" using s(2) IH [OF s(1)] by (simp, blast)
          then show ?thesis using IH [of env rest d r] by blast
        next
          case (Inl e)
          then have "r = Inl e" using s(2) by simp
          then show ?thesis by simp
        qed
      qed
    next
      case Fail
      then have "r = Inl (Exit 1)" using f Cons by simp
      then show ?thesis by simp
    qed
  qed (use f in force)
qed

lemma load_lines_total:
  assumes "\<forall>line \<in> set lines. \<forall>c f. load_line env line c \<noteq> Include f"
  shows "\<exists>r. load_lines env lines c = Some r"
  using assms
proof (induction lines arbitrary: c)
  case (Cons line lines)
  then show ?case by (cases "load_line env line c") (auto simp: load_lines.simps [of env "line # lines"])
qed (simp add: load_lines.simps)


definition cfg_ideal :: cfgenv where
  "cfg_ideal = \<lparr>ce_chdir = (\<lambda>_. True), ce_append = (\<lambda>_. True), ce_file = (\<lambda>_. None), ce_stdin = [], ce_getrlimit = Some 1024,
     ce_setrlimit = (\<lambda>_. False), ce_resize = (\<lambda>_. True)\<rparr>"

lemma initServerConfig_ok: "settings_ok initServerConfig"
  by (simp add: settings_ok_def initServerConfig_def)

text \<open>Evaluation of single lines: the words of the line, and the directive they select.\<close>

lemmas load_eval = load_line_def Let_def trim_bytes_def in_cset_def cstr_def directive_def first_some_def network_directive_def
  log_directive_def limit_directive_def process_directive_def pidfile_directive_def cluster_directive_def obuf_directive_def
  is_dir_def strcaseeq_def c_tolower_def c_atoi_def strtoll10_def c_isspace_def is_digit_def dec_val_def digit_val_def c_int32_def
  clamp_hz_def


text \<open>Splitting at a single byte.\<close>

fun split_at :: "char \<Rightarrow> string \<Rightarrow> string \<Rightarrow> string list" where
  "split_at c cur [] = [cur]"
| "split_at c cur (x # xs) = (if x = c then cur # split_at c [] xs else split_at c (cur @ [x]) xs)"

lemma split_loop_at:
  "j \<le> length s \<Longrightarrow> start \<le> j \<Longrightarrow>
   split_loop s [c] j start tokens = tokens @ split_at c (take (j - start) (drop start s)) (drop j s)"
proof (induction "length s - j" arbitrary: j start tokens)
  case 0
  then show ?case by (simp add: split_loop.simps)
next
  case (Suc n)
  then have j: "j < length s" "n = length s - Suc j" by auto
  then have d: "drop j s = s ! j # drop (Suc j) s" by (simp add: Cons_nth_drop_Suc)
  have "take (Suc j - start) (drop start s) = take (j - start) (drop start s) @ [s ! j]"
    using Suc.prems j(1) take_Suc_conv_app_nth [of "j - start" "drop start s"] by (simp add: Suc_diff_le)
  then show ?case
    using Suc.hyps(1) [OF j(2), of "Suc j" "tokens @ [take (j - start) (drop start s)]"] Suc.hyps(1) [OF j(2), of start tokens]
      Suc.prems j(1) d by (simp add: split_loop.simps [of s "[c]" j])
qed

lemma config_lines_at: "cstr s \<noteq> [] \<Longrightarrow> config_lines s = split_at LF [] (cstr s)"
  using split_loop_at [of 0 "cstr s" 0 LF "[]"] by (simp add: config_lines_def sdssplitlen_def)

definition prez_conf :: string where
  "prez_conf = ''name node-9000'' @ [LF] @ ''port 9000'' @ [LF] @ ''cluster-port 10000'' @ [LF] @
     ''cluster-config-file nodes.conf'' @ [LF] @ ''cluster-node-timeout 5000'' @ [LF] @ ''loglevel debug'' @ [LF]"


text \<open>The check of the cluster port looks at the other port.\<close>

lemma cluster_port_unchecked:
  "settings_ok c \<Longrightarrow> load_line env ''cluster-port 70000'' c = Set (c\<lparr>cf_cport := 70000\<rparr>)"
proof -
  have "sdssplitargs ''cluster-port 70000'' = Some [''cluster-port'', ''70000'']" by code_simp
  then show "settings_ok c \<Longrightarrow> ?thesis" by (simp add: load_eval settings_ok_def)
qed

section \<open>Settings at run time\<close>

text \<open>What a setting may do: a valid value is set, and anything else leaves the settings alone.\<close>

definition set_safe :: "config \<Rightarrow> set_result \<Rightarrow> bool" where
  "set_safe c r = (case r of Good c' \<Rightarrow> settings_ok c' | Bad_Format \<Rightarrow> True | Error c' _ \<Rightarrow> c' = c)"

lemma set_maxclients_safe:
  assumes c: "settings_ok c" and r: "set_maxclients env c val = Some r"
  shows "set_safe c r"
proof (cases "\<exists>v. val = Some v \<and> 1 \<le> v")
  case True
  then obtain v where v: "val = Some v" "1 \<le> v" by blast
  show ?thesis
  proof (cases "v > cf_maxclients c")
    case True
    then obtain n where n: "adjustOpenFilesLimit env (c_int32 v) = Some n" using r v by (auto simp: set_maxclients_def Let_def bind_eq_Some_conv)
    have "settings_ok (c\<lparr>cf_maxclients := n\<rparr>)" "settings_ok (c\<lparr>cf_maxclients := n, cf_setsize := k\<rparr>)" if "n = v" "n \<le> 2147483647" for k
      using that v(2) c settings_upd(14) [OF c, of n] settings_upd(26) [of "c\<lparr>cf_maxclients := n\<rparr>"] by simp_all
    then show ?thesis
      using r v True n by (auto simp: set_maxclients_def set_safe_def ae_resize_def Let_def split: if_splits option.splits)
  next
    case False
    then have "v \<le> 2147483647" using c by (simp add: settings_ok_def)
    then have "settings_ok (c\<lparr>cf_maxclients := c_int32 v\<rparr>)" using v(2) settings_upd(14) [OF c, of v] by (simp add: c_int32_id)
    then show ?thesis using r v False by (auto simp: set_maxclients_def set_safe_def)
  qed
next
  case False
  then have "r = Bad_Format" using r by (auto simp: set_maxclients_def split: option.splits if_splits)
  then show ?thesis by (simp add: set_safe_def)
qed

lemma obuf_set_ok: "settings_ok c \<Longrightarrow> settings_ok (obuf_set v c)"
  by (induction v c rule: obuf_set.induct) (simp_all add: settings_upd(25))

lemma getLongLong_max: "o_ptr ob = PSds s \<Longrightarrow> getLongLongFromObject ob = Some v \<Longrightarrow> v \<le> LLONG_MAX"
  by (auto simp: getLongLongFromObject_def strtoll_end_def Let_def strtoll10_max split: if_splits)

lemma c_int32_small: "0 \<le> v \<Longrightarrow> v \<le> 2147483647 \<Longrightarrow> c_int32 v = v"
  by (simp add: c_int32_id)



lemma show_int_no_NUL: "NUL \<notin> set (show_int v)"
  using show_nat_digits [of NUL] by (auto simp: show_int_def is_digit_def)

definition settable :: "string \<Rightarrow> int \<Rightarrow> bool" where
  "settable param v \<longleftrightarrow>
     param = ''hz'' \<and> 1 \<le> v \<and> v \<le> 500 \<or> param = ''tcp-keepalive'' \<and> 0 \<le> v \<and> v \<le> 2147483647 \<or>
     param \<in> {''cluster-election-timeout'', ''cluster-heartbeat-interval''} \<and> 1 \<le> v \<and> v \<le> LLONG_MAX"

lemma num_field_show: "is_ll v \<Longrightarrow> num_field v = show_int v"
  by (simp add: num_field_def ll2string_32 cstr_append_any cstr_id show_int_no_NUL)

lemma getLongLong_show:
  assumes "0 \<le> v" "v \<le> LLONG_MAX" "o_ptr ob = PSds (show_int v)"
  shows "getLongLongFromObject ob = Some v"
proof -
  have s: "show_int v = show_nat (nat v)" using assms(1) by (simp add: show_int_def)
  have "strtoll10 (show_nat (nat v)) = v" using assms(1,2) strtoll10_show_nat [of "nat v"] by simp
  moreover obtain c r where "show_nat (nat v) = c # r" "is_digit c" using hd_show_nat_digit [of "nat v"] by (cases "show_nat (nat v)") auto
  moreover have "\<not> c_isspace c \<and> c \<noteq> CHR ''-'' \<and> c \<noteq> CHR ''+''" if "is_digit c" for c
    using that digit_not_space by (auto simp: is_digit_def)
  moreover have "takeWhile is_digit r = r" if "show_nat (nat v) = c # r" for c r
    using takeWhile_show_nat [of "nat v"] that by (simp split: if_splits)
  ultimately show ?thesis
    using assms dec_val_show_nat [of "nat v"] cstr_id [of "show_int v"] show_int_no_NUL [of v]
    by (simp add: getLongLongFromObject_def strtoll_end_def Let_def s del: takeWhile_eq_all_conv)
qed



end
