(* ===== verification/Prez_Command.thy ===== *)
theory Prez_Command
  imports Prez_Protocol Prez_DictTypes Prez_Config
begin

text \<open>
  The key space of src/src/db.c and the commands of src/src/prez.c: the command table, lookup by name,
  GET, SET and the function that runs the command of a client.  The database is a dictionary from byte
  strings to objects.  \<open>None\<close> is a failed assertion or the use of a NULL or integer pointer as a string.
  The parameters of a run are the record \<open>srvenv\<close>: the environment of the network, the hash seed,
  whether tables may be resized, the content of fresh memory, and what CONFIG asks the operating
  system.
\<close>

section \<open>Data\<close>

record keysp =
  db_dict :: "(string, robj) dict"
  stat_keyspace_hits :: int
  stat_keyspace_misses :: int
  db_cfg :: config

record srvenv =
  se_net :: netenv
  se_seed :: "32 word"
  se_can :: bool
  se_junk :: robj
  se_cfg :: cfgenv

definition key_sds :: "robj \<Rightarrow> string option" where
  "key_sds key = (case o_ptr key of PSds s \<Rightarrow> Some s | PInt _ \<Rightarrow> None)"

section \<open>The key space\<close>

definition lookupKey :: "srvenv \<Rightarrow> keysp \<Rightarrow> robj \<Rightarrow> (keysp \<times> robj option) option" where
  "lookupKey env db key =
     do { k \<leftarrow> key_sds key;
          (d, de) \<leftarrow> dictFind (dbDictType (se_seed env)) (db_dict db) k;
          case de of
            None \<Rightarrow> Some (db\<lparr>db_dict := d\<rparr>, None)
          | Some r \<Rightarrow> do { e \<leftarrow> get_entry d r; Some (db\<lparr>db_dict := d\<rparr>, Some (snd e)) } }"

definition lookupKeyRead :: "srvenv \<Rightarrow> keysp \<Rightarrow> robj \<Rightarrow> (keysp \<times> robj option) option" where
  "lookupKeyRead env db key =
     do { (db, val) \<leftarrow> lookupKey env db key;
          Some (if val = None then db\<lparr>stat_keyspace_misses := stat_keyspace_misses db + 1\<rparr>
                else db\<lparr>stat_keyspace_hits := stat_keyspace_hits db + 1\<rparr>, val) }"

definition lookupKeyWrite :: "srvenv \<Rightarrow> keysp \<Rightarrow> robj \<Rightarrow> (keysp \<times> robj option) option" where
  "lookupKeyWrite env db key = lookupKey env db key"

definition lookupKeyReadOrReply :: "srvenv \<Rightarrow> keysp \<Rightarrow> client \<Rightarrow> robj \<Rightarrow> robj \<Rightarrow> (keysp \<times> client \<times> robj option) option" where
  "lookupKeyReadOrReply env db c key reply =
     do { (db, ob) \<leftarrow> lookupKeyRead env db key;
          c \<leftarrow> (if ob = None then addReply (se_net env) c reply else Some c);
          Some (db, c, ob) }"

definition lookupKeyWriteOrReply :: "srvenv \<Rightarrow> keysp \<Rightarrow> client \<Rightarrow> robj \<Rightarrow> robj \<Rightarrow> (keysp \<times> client \<times> robj option) option" where
  "lookupKeyWriteOrReply env db c key reply =
     do { (db, ob) \<leftarrow> lookupKeyWrite env db key;
          c \<leftarrow> (if ob = None then addReply (se_net env) c reply else Some c);
          Some (db, c, ob) }"

definition dbAdd :: "srvenv \<Rightarrow> keysp \<Rightarrow> robj \<Rightarrow> robj \<Rightarrow> keysp option" where
  "dbAdd env db key val =
     do { copy \<leftarrow> key_sds key;
          (d, retval) \<leftarrow> dictAdd (se_can env) (se_junk env) (dbDictType (se_seed env)) (db_dict db) copy val;
          if retval = PREZ_OK then Some (db\<lparr>db_dict := d\<rparr>) else None }"

definition dbOverwrite :: "srvenv \<Rightarrow> keysp \<Rightarrow> robj \<Rightarrow> robj \<Rightarrow> keysp option" where
  "dbOverwrite env db key val =
     do { k \<leftarrow> key_sds key;
          (d, de) \<leftarrow> dictFind (dbDictType (se_seed env)) (db_dict db) k;
          if de = None then None
          else do { (d, _) \<leftarrow> dictReplace (se_can env) (se_junk env) (dbDictType (se_seed env)) d k val;
                    Some (db\<lparr>db_dict := d\<rparr>) } }"

definition setKey :: "srvenv \<Rightarrow> keysp \<Rightarrow> robj \<Rightarrow> robj \<Rightarrow> keysp option" where
  "setKey env db key val =
     do { (db, old) \<leftarrow> lookupKeyWrite env db key;
          case old of None \<Rightarrow> dbAdd env db key val | Some _ \<Rightarrow> dbOverwrite env db key val }"

definition dbExists :: "srvenv \<Rightarrow> keysp \<Rightarrow> robj \<Rightarrow> (keysp \<times> bool) option" where
  "dbExists env db key =
     do { k \<leftarrow> key_sds key;
          (d, de) \<leftarrow> dictFind (dbDictType (se_seed env)) (db_dict db) k;
          Some (db\<lparr>db_dict := d\<rparr>, de \<noteq> None) }"

definition dbDelete :: "srvenv \<Rightarrow> keysp \<Rightarrow> robj \<Rightarrow> (keysp \<times> int) option" where
  "dbDelete env db key =
     do { k \<leftarrow> key_sds key;
          (d, rc) \<leftarrow> dictDelete (dbDictType (se_seed env)) (db_dict db) k;
          Some (db\<lparr>db_dict := d\<rparr>, if rc = DICT_OK then 1 else 0) }"

section \<open>Commands\<close>

datatype cmdproc = P_get | P_set | P_config

record prezCommand =
  cmd_name :: string
  cmd_proc :: cmdproc
  cmd_arity :: int
  cmd_sflags :: string
  cmd_flags :: nat

definition PREZ_CMD_WRITE :: nat where "PREZ_CMD_WRITE = 1"

definition prezCommandTable :: "prezCommand list" where
  "prezCommandTable =
     [\<lparr>cmd_name = ''get'', cmd_proc = P_get, cmd_arity = 2, cmd_sflags = ''r'', cmd_flags = 0\<rparr>,
      \<lparr>cmd_name = ''set'', cmd_proc = P_set, cmd_arity = -3, cmd_sflags = ''w'', cmd_flags = 0\<rparr>,
      \<lparr>cmd_name = ''config'', cmd_proc = P_config, cmd_arity = -2, cmd_sflags = ''art'', cmd_flags = 0\<rparr>]"

fun set_flags :: "string \<Rightarrow> nat \<Rightarrow> nat option" where
  "set_flags [] fl = Some fl"
| "set_flags (f # fs) fl =
     (if f = CHR ''w'' then set_flags fs (fl OR PREZ_CMD_WRITE)
      else if f = CHR ''r'' then set_flags fs (fl OR 2)
      else if f = CHR ''a'' then set_flags fs (fl OR 16)
      else if f = CHR ''t'' then set_flags fs (fl OR 1024)
      else None)"

fun populateCommandTable :: "srvenv \<Rightarrow> prezCommand \<Rightarrow> (string, prezCommand) dict \<Rightarrow> prezCommand list \<Rightarrow> (string, prezCommand) dict option" where
  "populateCommandTable env junk d [] = Some d"
| "populateCommandTable env junk d (c # cs) =
     do { fl \<leftarrow> set_flags (cmd_sflags c) (cmd_flags c);
          (d, retval) \<leftarrow> dictAdd (se_can env) junk (commandTableDictType (se_seed env)) d (cmd_name c) (c\<lparr>cmd_flags := fl\<rparr>);
          if retval = DICT_OK then populateCommandTable env junk d cs else None }"

definition lookupCommand :: "srvenv \<Rightarrow> (string, prezCommand) dict \<Rightarrow> string \<Rightarrow>
    ((string, prezCommand) dict \<times> prezCommand option) option" where
  "lookupCommand env commands name = dictFetchValue (commandTableDictType (se_seed env)) commands name"

text \<open>The client of a command is NULL when the command comes from the log; replies then go nowhere.\<close>

definition addReplyOpt :: "srvenv \<Rightarrow> client option \<Rightarrow> robj \<Rightarrow> client option option" where
  "addReplyOpt env c ob = (case c of None \<Rightarrow> Some None | Some c \<Rightarrow> map_option Some (addReply (se_net env) c ob))"

definition setGenericCommand :: "srvenv \<Rightarrow> keysp \<Rightarrow> client option \<Rightarrow> robj \<Rightarrow> robj \<Rightarrow> (keysp \<times> client option) option" where
  "setGenericCommand env db c key val =
     do { db \<leftarrow> setKey env db key val;
          c \<leftarrow> addReplyOpt env c shared_ok;
          Some (db, c) }"

definition setCommand :: "srvenv \<Rightarrow> keysp \<Rightarrow> client option \<Rightarrow> robj list \<Rightarrow> (keysp \<times> client option) option" where
  "setCommand env db c argv =
     do { c \<leftarrow> (if length argv \<noteq> 3 then addReplyOpt env c shared_syntaxerr else Some c);
          if length argv < 3 then None
          else setGenericCommand env db c (argv ! 1) (argv ! 2) }"

text \<open>Every object of the database is a string, so the wrong type reply does not occur.\<close>

definition getGenericCommand :: "srvenv \<Rightarrow> keysp \<Rightarrow> client \<Rightarrow> (keysp \<times> client) option" where
  "getGenericCommand env db c =
     (if length (c_argv c) < 2 then None
      else
        do { (db, c, ob) \<leftarrow> lookupKeyReadOrReply env db c (c_argv c ! 1) shared_nullbulk;
             case ob of
               None \<Rightarrow> Some (db, c)
             | Some ob \<Rightarrow> do { c \<leftarrow> addReplyBulk (se_net env) c ob; Some (db, c) } })"

definition getCommand :: "srvenv \<Rightarrow> keysp \<Rightarrow> client option \<Rightarrow> (keysp \<times> client option) option" where
  "getCommand env db c =
     (case c of None \<Rightarrow> None | Some c \<Rightarrow> do { (db, c) \<leftarrow> getGenericCommand env db c; Some (db, Some c) })"

text \<open>The counters that the model has, and the entry point of CONFIG, which reads the arguments of the
  client.\<close>

definition resetServerStats :: "keysp \<Rightarrow> keysp" where
  "resetServerStats db = db\<lparr>stat_keyspace_misses := 0, stat_keyspace_hits := 0\<rparr>"

definition configCommand :: "srvenv \<Rightarrow> keysp \<Rightarrow> client \<Rightarrow> (keysp \<times> client) option" where
  "configCommand env db c =
     do { sub \<leftarrow> key_sds (c_argv c ! 1);
          let argc = length (c_argv c);
          let badarity = Some (db, addReplyErrorFormat (se_net env) c (''Wrong number of arguments for CONFIG '' @ cstr sub));
          if strcaseeq (cstr sub) ''set'' then
            if argc \<noteq> 4 then badarity
            else do { (cfg, c) \<leftarrow> configSetCommand (se_cfg env) (se_net env) (db_cfg db) c; Some (db\<lparr>db_cfg := cfg\<rparr>, c) }
          else if strcaseeq (cstr sub) ''get'' then
            if argc \<noteq> 3 then badarity
            else do { c \<leftarrow> configGetCommand (se_net env) (db_cfg db) c; Some (db, c) }
          else if strcaseeq (cstr sub) ''resetstat'' then
            if argc \<noteq> 2 then badarity
            else do { c \<leftarrow> addReply (se_net env) c shared_ok; Some (resetServerStats db, c) }
          else Some (db, addReplyError (se_net env) c ''CONFIG subcommand must be one of GET, SET, RESETSTAT, REWRITE'') }"

definition run_proc :: "srvenv \<Rightarrow> cmdproc \<Rightarrow> keysp \<Rightarrow> client option \<Rightarrow> robj list \<Rightarrow> (keysp \<times> client option) option" where
  "run_proc env p db c argv =
     (case p of
        P_get \<Rightarrow> getCommand env db c
      | P_set \<Rightarrow> setCommand env db c argv
      | P_config \<Rightarrow> (case c of None \<Rightarrow> None | Some c \<Rightarrow> do { (db, c) \<leftarrow> configCommand env db c; Some (db, Some c) }))"

definition cmd_named :: "string \<Rightarrow> prezCommand option" where
  "cmd_named name = find (\<lambda>c. cmd_name c = name) prezCommandTable"

text \<open>\<open>call\<close> on a client that is not NULL.\<close>

definition call :: "srvenv \<Rightarrow> keysp \<Rightarrow> client \<Rightarrow> (keysp \<times> client) option" where
  "call env db c =
     (case c_cmd c of
        None \<Rightarrow> Some (db, resetClient c)
      | Some name \<Rightarrow>
          do { cmd \<leftarrow> cmd_named name;
               (db, c') \<leftarrow> run_proc env (cmd_proc cmd) db (Some c) (c_argv c);
               c \<leftarrow> c';
               Some (db, resetClient c) })"

section \<open>The key space as a map\<close>

abbreviation dbT :: "srvenv \<Rightarrow> (string, robj) dictType" where
  "dbT env \<equiv> dbDictType (se_seed env)"

definition db_map :: "srvenv \<Rightarrow> keysp \<Rightarrow> string \<Rightarrow> robj option" where
  "db_map env db = dict_map (dbT env) (db_dict db)"

text \<open>The invariant of the key space: the table is well formed and holds well-formed objects.\<close>

definition val_ok :: "robj \<Rightarrow> bool" where
  "val_ok ob \<longleftrightarrow> obj_wf ob \<and> int (length (obj_str ob)) \<le> LLONG_MAX"

definition db_ok :: "srvenv \<Rightarrow> keysp \<Rightarrow> bool" where
  "db_ok env db \<longleftrightarrow> dict_ok (dbT env) (\<lambda>_. True) (db_dict db) \<and> (\<forall>k v. db_map env db k = Some v \<longrightarrow> val_ok v)"

definition db_room :: "keysp \<Rightarrow> nat \<Rightarrow> bool" where
  "db_room db n \<longleftrightarrow> dictSize (db_dict db) + n \<le> 268435456"

lemma db_dict_only:
  assumes "db_ok env db" "dict_ok (dbT env) (\<lambda>_. True) d" "dents d = dents (db_dict db)"
  shows "db_ok env (db\<lparr>db_dict := d\<rparr>)" "db_map env (db\<lparr>db_dict := d\<rparr>) = db_map env db"
    "dictSize d = dictSize (db_dict db)"
  using assms db_map_cong [of "se_seed env" "db_dict db" d] by (auto simp: db_ok_def db_map_def)

lemma find_db:
  assumes "db_ok env db"
  shows "\<exists>d r. dictFind (dbT env) (db_dict db) k = Some (d, r) \<and> dict_ok (dbT env) (\<lambda>_. True) d \<and> dents d = dents (db_dict db) \<and>
    (case r of None \<Rightarrow> db_map env db k = None | Some ref \<Rightarrow> \<exists>e. get_entry d ref = Some e \<and> db_map env db k = Some (snd e))"
proof -
  have ok: "dict_ok (dbT env) (\<lambda>_. True) (db_dict db)" using assms by (simp add: db_ok_def)
  obtain d r where r: "dictFind (dbT env) (db_dict db) k = Some (d, r)" "dict_ok (dbT env) (\<lambda>_. True) d" "dents d = dents (db_dict db)"
    "case r of None \<Rightarrow> dict_map (dbT env) (db_dict db) k = None
     | Some ref \<Rightarrow> \<exists>e. get_entry d ref = Some e \<and> e \<in># dents (db_dict db) \<and> dictCompareKeys (dbT env) k (fst e)"
    using dbt.dictFind_ok [OF ok, of k] by blast
  have "db_map env db k = Some (snd e)" if "e \<in># dents (db_dict db)" "k = fst e" for e
    using dbt.dict_map_iff [OF ok, of k "snd e"] that by (cases e) (auto simp: db_map_def)
  with r show ?thesis by (auto simp: db_map_def split: option.splits)
qed

lemma lookupKey_ok:
  assumes "db_ok env db" "key_sds key = Some k"
  shows "\<exists>d. lookupKey env db key = Some (db\<lparr>db_dict := d\<rparr>, db_map env db k) \<and> db_ok env (db\<lparr>db_dict := d\<rparr>) \<and>
    db_map env (db\<lparr>db_dict := d\<rparr>) = db_map env db \<and> dictSize d = dictSize (db_dict db)"
proof -
  obtain d r where r: "dictFind (dbT env) (db_dict db) k = Some (d, r)" "dict_ok (dbT env) (\<lambda>_. True) d" "dents d = dents (db_dict db)"
    "case r of None \<Rightarrow> db_map env db k = None | Some ref \<Rightarrow> \<exists>e. get_entry d ref = Some e \<and> db_map env db k = Some (snd e)"
    using find_db [OF assms(1)] by blast
  note keep = db_dict_only [OF assms(1) r(2,3)]
  from r(1,4) assms(2) keep show ?thesis by (cases r) (auto simp: lookupKey_def)
qed

lemma put_obj_wf:
  assumes "db_ok env db" "val_ok val" "dict_ok (dbT env) (\<lambda>_. True) d" "dict_map (dbT env) d = (db_map env db)(k \<mapsto> val)"
  shows "db_ok env (db\<lparr>db_dict := d\<rparr>)" "db_map env (db\<lparr>db_dict := d\<rparr>) = (db_map env db)(k \<mapsto> val)"
  using assms by (auto simp: db_ok_def db_map_def split: if_splits)

lemma setKey_ok:
  assumes ok: "db_ok env db" and key: "key_sds key = Some k" and val: "val_ok val" and room: "db_room db 1"
  shows "\<exists>d. setKey env db key val = Some (db\<lparr>db_dict := d\<rparr>) \<and> db_ok env (db\<lparr>db_dict := d\<rparr>) \<and>
    db_map env (db\<lparr>db_dict := d\<rparr>) = (db_map env db)(k \<mapsto> val) \<and> dictSize d \<le> dictSize (db_dict db) + 1"
proof -
  obtain d1 where d1: "lookupKey env db key = Some (db\<lparr>db_dict := d1\<rparr>, db_map env db k)" "db_ok env (db\<lparr>db_dict := d1\<rparr>)"
    "db_map env (db\<lparr>db_dict := d1\<rparr>) = db_map env db" "dictSize d1 = dictSize (db_dict db)"
    using lookupKey_ok [OF ok key] by blast
  have dk1: "dict_ok (dbT env) (\<lambda>_. True) d1" using d1(2) by (simp add: db_ok_def)
  have sz: "size (dents d1) < 268435456" using room d1(4) dbt.dictSize_ok [OF dk1] by (simp add: db_room_def)
  have m1: "dict_map (dbT env) d1 = db_map env db" using d1(3) by (simp add: db_map_def)
  show ?thesis
  proof (cases "db_map env db k")
    case None
    obtain d where d: "dictAdd (se_can env) (se_junk env) (dbT env) d1 k val = Some (d, DICT_OK)" "dict_ok (dbT env) (\<lambda>_. True) d"
      "dents d = add_mset (k, val) (dents d1)"
      using dbt.dictAdd_ok [OF dk1 _ sz, of "se_can env" "se_junk env" k val] None m1 by auto
    have "dict_map (dbT env) d x = (if x = k then Some val else dict_map (dbT env) d1 x)" for x
      using dbt.map_after_add [OF dk1 d(2) _ _ d(3), of "{#}" k x] by simp
    then have m: "dict_map (dbT env) d = (db_map env db)(k \<mapsto> val)" using m1 by auto
    have "dictSize d = dictSize d1 + 1" using dbt.dictSize_ok [OF dk1] dbt.dictSize_ok [OF d(2)] d(3) by simp
    with put_obj_wf [OF ok val d(2) m] d(1) d1(1,4) None key show ?thesis
      by (auto simp: setKey_def lookupKeyWrite_def dbAdd_def)
  next
    case (Some v)
    obtain d2 r where d2: "dictFind (dbT env) d1 k = Some (d2, r)" "dict_ok (dbT env) (\<lambda>_. True) d2" "dents d2 = dents d1" "r \<noteq> None"
      using find_db [OF d1(2), of k] Some d1(3) by (auto split: option.splits)
    have sz2: "size (dents d2) < 268435456" using sz d2(3) by simp
    have m2: "dict_map (dbT env) d2 = db_map env db" using db_map_cong(1) [OF dk1 d2(2,3)] m1 by simp
    obtain d where d: "dictReplace (se_can env) (se_junk env) (dbT env) d2 k val = Some (d, 0)" "dict_ok (dbT env) (\<lambda>_. True) d"
      "\<forall>x. dict_map (dbT env) d x = (if x = k then Some val else dict_map (dbT env) d2 x)" "dictSize d = dictSize d2"
      using dbt.dictReplace_ok [OF d2(2) _ sz2, of "se_can env" "se_junk env" k val] Some m2 by auto
    have m: "dict_map (dbT env) d = (db_map env db)(k \<mapsto> val)" using d(3) m2 by auto
    have "dictSize d = dictSize d1" using d(4) db_map_cong(2) [OF dk1 d2(2,3)] by simp
    with put_obj_wf [OF ok val d(2) m] d(1) d2(1,4) d1(1,4) Some key show ?thesis
      by (auto simp: setKey_def lookupKeyWrite_def dbOverwrite_def)
  qed
qed

section \<open>Command lookup\<close>

text \<open>The table with the flags that \<open>populateCommandTable\<close> fills in.\<close>

definition flagged :: "prezCommand \<Rightarrow> prezCommand" where
  "flagged c = (case set_flags (cmd_sflags c) (cmd_flags c) of None \<Rightarrow> c | Some fl \<Rightarrow> c\<lparr>cmd_flags := fl\<rparr>)"

lemma flags_table: "\<forall>c \<in> set prezCommandTable. \<exists>fl. set_flags (cmd_sflags c) (cmd_flags c) = Some fl"
  by (simp add: prezCommandTable_def)

lemma populate_ok:
  fixes T env defines "T \<equiv> commandTableDictType (se_seed env) :: (string, prezCommand) dictType"
  assumes "\<forall>c \<in> set cs. no_NUL (cmd_name c) \<and> (\<exists>fl. set_flags (cmd_sflags c) (cmd_flags c) = Some fl)"
    and "distinct (map (map c_tolower \<circ> cmd_name) cs)" "\<forall>c \<in> set cs. dict_map T d (cmd_name c) = None"
    and "dict_ok T no_NUL d" "size (dents d) + length cs \<le> 268435456"
  shows "\<exists>d'. populateCommandTable env junk d cs = Some d' \<and> dict_ok T no_NUL d' \<and>
    dents d' = dents d + mset (map (\<lambda>c. (cmd_name c, flagged c)) cs)"
  using assms(2-)
proof (induction cs arbitrary: d)
  case (Cons c cs)
  obtain fl where fl: "set_flags (cmd_sflags c) (cmd_flags c) = Some fl" using Cons.prems(1) by auto
  have sz: "size (dents d) < 268435456" using Cons.prems(5) by simp
  have k: "no_NUL (cmd_name c)" using Cons.prems(1) by simp
  obtain d1 where d1: "dictAdd (se_can env) junk T d (cmd_name c) (c\<lparr>cmd_flags := fl\<rparr>) = Some (d1, DICT_OK)" "dict_ok T no_NUL d1"
    "dents d1 = add_mset (cmd_name c, c\<lparr>cmd_flags := fl\<rparr>) (dents d)"
    using cmdt.dictAdd_ok [of "se_seed env" d "cmd_name c"] Cons.prems(3,4) k sz unfolding T_def by fastforce
  have none: "dict_map T d1 (cmd_name x) = None" if x: "x \<in> set cs" for x
  proof -
    have kx: "no_NUL (cmd_name x)" using Cons.prems(1) x by simp
    have "\<not> dictCompareKeys T (cmd_name x) (cmd_name c)"
      using Cons.prems(2) x k kx
      by (auto simp: T_def dictSdsKeyCaseCompare_def strcaseeq_def cstr_no_NUL) (metis image_eqI)
    moreover have "dict_map T d (cmd_name x) = None" using Cons.prems(3) x by simp
    ultimately show ?thesis
      using cmdt.dict_map_None [of "se_seed env" d1 "cmd_name x"] cmdt.dict_map_None [of "se_seed env" d "cmd_name x"]
        d1(2,3) Cons.prems(4) kx by (simp add: T_def)
  qed
  have "size (dents d1) + length cs \<le> 268435456" using Cons.prems(5) d1(3) by simp
  with Cons.IH [of d1] Cons.prems(1,2) none d1(2) obtain d' where
    "populateCommandTable env junk d1 cs = Some d'" "dict_ok T no_NUL d'"
    "dents d' = dents d1 + mset (map (\<lambda>c. (cmd_name c, flagged c)) cs)" by auto
  with d1(1,3) fl show ?case by (auto simp: flagged_def T_def)
qed auto

text \<open>A table of commands as the server builds it at start, in any later state of its rehashing.\<close>

definition commands_ok :: "srvenv \<Rightarrow> (string, prezCommand) dict \<Rightarrow> bool" where
  "commands_ok env d \<longleftrightarrow> dict_ok (commandTableDictType (se_seed env)) no_NUL d \<and>
     dents d = mset (map (\<lambda>c. (cmd_name c, flagged c)) prezCommandTable)"

lemma table_names: "\<forall>c \<in> set prezCommandTable. no_NUL (cmd_name c)" "distinct (map (map c_tolower \<circ> cmd_name) prezCommandTable)"
  by (simp_all add: prezCommandTable_def no_NUL_def c_tolower_def)

lemma populate_commands_ok: "\<exists>d. populateCommandTable env junk dictCreate prezCommandTable = Some d \<and> commands_ok env d"
proof -
  have e: "\<And>T k. dict_map T (dictCreate :: (string, prezCommand) dict) k = None"
    "dents (dictCreate :: (string, prezCommand) dict) = {#}"
    by (simp_all add: dict_map_def dictCreate_def table_list_def dictReset_def dents_def ents_def)
  have "length prezCommandTable = 3" by (simp add: prezCommandTable_def)
  then show ?thesis
    using populate_ok [of prezCommandTable env dictCreate junk] flags_table table_names
    by (auto simp: commands_ok_def e dict_ok_create)
qed

lemma lookupCommand_ok:
  assumes "commands_ok env d" "no_NUL name"
  shows "\<exists>d'. lookupCommand env d name = Some (d', map_option flagged (find (\<lambda>c. strcaseeq name (cmd_name c)) prezCommandTable)) \<and>
    commands_ok env d'"
proof -
  let ?T = "commandTableDictType (se_seed env) :: (string, prezCommand) dictType"
  have ok: "dict_ok ?T no_NUL d" using assms(1) by (simp add: commands_ok_def)
  obtain d' where d': "dictFetchValue ?T d name = Some (d', dict_map ?T d name)" "dict_ok ?T no_NUL d'" "dents d' = dents d"
    using cmdt.dictFetchValue_ok [OF ok assms(2)] by blast
  have de: "set_mset (dents d) = (\<lambda>c. (cmd_name c, flagged c)) ` set prezCommandTable"
    using assms(1) by (simp add: commands_ok_def)
  have eq: "dictCompareKeys ?T name (cmd_name c) = strcaseeq name (cmd_name c)" if "c \<in> set prezCommandTable" for c
    using table_names(1) that assms(2) by (simp add: dictSdsKeyCaseCompare_def cstr_no_NUL)
  have "dict_map ?T d name = map_option flagged (find (\<lambda>c. strcaseeq name (cmd_name c)) prezCommandTable)"
  proof (cases "find (\<lambda>c. strcaseeq name (cmd_name c)) prezCommandTable")
    case None
    then show ?thesis using cmdt.dict_map_None [OF ok assms(2)] de eq by (auto simp: find_None_iff)
  next
    case (Some c)
    then have "c \<in> set prezCommandTable" "strcaseeq name (cmd_name c)" by (auto simp: find_Some_iff)
    then have "dict_map ?T d name = Some (flagged c)" using cmdt.dict_map_iff [OF ok assms(2)] de eq by auto
    with Some show ?thesis by simp
  qed
  with d' assms(1) show ?thesis by (auto simp: lookupCommand_def commands_ok_def)
qed

section \<open>What the commands do\<close>

text \<open>A command's client: NULL, or one that is ready for output and gets \<open>s\<close> queued.\<close>

definition client_gets :: "srvenv \<Rightarrow> client option \<Rightarrow> string \<Rightarrow> client option \<Rightarrow> bool" where
  "client_gets env c s c' \<longleftrightarrow>
     (case c of None \<Rightarrow> c' = None | Some c \<Rightarrow> (case c' of None \<Rightarrow> False | Some c' \<Rightarrow> queued (se_net env) c s c'))"

definition client_ready :: "srvenv \<Rightarrow> client option \<Rightarrow> bool" where
  "client_ready env c = (case c of None \<Rightarrow> True | Some c \<Rightarrow> ready (se_net env) c)"

lemma addReplyOpt_ok:
  assumes "client_ready env c"
  shows "\<exists>c'. addReplyOpt env c (createObject (PSds s)) = Some c' \<and> client_gets env c s c' \<and> client_ready env c'"
  using assms addReply_shared [of "se_net env" _ s] queued_ready
  by (cases c) (fastforce simp: addReplyOpt_def client_gets_def client_ready_def)+

lemma client_gets_trans: "client_gets env c s c' \<Longrightarrow> client_gets env c' t c'' \<Longrightarrow> client_gets env c (s @ t) c''"
  by (auto simp: client_gets_def split: option.splits intro: queued_trans)

lemma setGenericCommand_ok:
  assumes "db_ok env db" "key_sds key = Some k" "val_ok val" "db_room db 1" "client_ready env c"
  shows "\<exists>d c'. setGenericCommand env db c key val = Some (db\<lparr>db_dict := d\<rparr>, c') \<and> db_ok env (db\<lparr>db_dict := d\<rparr>) \<and>
    db_map env (db\<lparr>db_dict := d\<rparr>) = (db_map env db)(k \<mapsto> val) \<and> dictSize d \<le> dictSize (db_dict db) + 1 \<and>
    client_gets env c (''+OK'' @ CRLF) c' \<and> client_ready env c'"
proof -
  obtain d where "setKey env db key val = Some (db\<lparr>db_dict := d\<rparr>)" "db_ok env (db\<lparr>db_dict := d\<rparr>)"
    "db_map env (db\<lparr>db_dict := d\<rparr>) = (db_map env db)(k \<mapsto> val)" "dictSize d \<le> dictSize (db_dict db) + 1"
    using setKey_ok [OF assms(1-4)] by blast
  moreover obtain c' where "addReplyOpt env c shared_ok = Some c'" "client_gets env c (''+OK'' @ CRLF) c'" "client_ready env c'"
    using addReplyOpt_ok [OF assms(5), of "''+OK'' @ CRLF"] unfolding shared_ok_def by blast
  ultimately show ?thesis by (auto simp: setGenericCommand_def)
qed

lemma setCommand_ok:
  assumes "db_ok env db" "key_sds key = Some k" "val_ok val" "db_room db 1" "client_ready env c"
  shows "\<exists>d c'. setCommand env db c (a # key # val # rest) = Some (db\<lparr>db_dict := d\<rparr>, c') \<and> db_ok env (db\<lparr>db_dict := d\<rparr>) \<and>
    db_map env (db\<lparr>db_dict := d\<rparr>) = (db_map env db)(k \<mapsto> val) \<and> dictSize d \<le> dictSize (db_dict db) + 1 \<and>
    client_gets env c ((if rest = [] then [] else ''-ERR syntax error'' @ CRLF) @ ''+OK'' @ CRLF) c' \<and> client_ready env c'"
proof (cases "rest = []")
  case True
  then show ?thesis using setGenericCommand_ok [OF assms] by (simp add: setCommand_def)
next
  case False
  obtain c1 where c1: "addReplyOpt env c shared_syntaxerr = Some c1" "client_gets env c (''-ERR syntax error'' @ CRLF) c1" "client_ready env c1"
    using addReplyOpt_ok [OF assms(5), of "''-ERR syntax error'' @ CRLF"] unfolding shared_syntaxerr_def by blast
  obtain d c' where s: "setGenericCommand env db c1 key val = Some (db\<lparr>db_dict := d\<rparr>, c')" "db_ok env (db\<lparr>db_dict := d\<rparr>)"
    "db_map env (db\<lparr>db_dict := d\<rparr>) = (db_map env db)(k \<mapsto> val)" "dictSize d \<le> dictSize (db_dict db) + 1"
    "client_gets env c1 (''+OK'' @ CRLF) c'" "client_ready env c'"
    using setGenericCommand_ok [OF assms(1-4) c1(3)] by blast
  have "setCommand env db c (a # key # val # rest) = Some (db\<lparr>db_dict := d\<rparr>, c')"
    using False c1(1) s(1) by (simp add: setCommand_def)
  with s client_gets_trans [OF c1(2) s(5)] False show ?thesis by auto
qed

definition get_reply :: "robj option \<Rightarrow> string" where
  "get_reply v = (case v of None \<Rightarrow> ''$-1'' @ CRLF | Some ob \<Rightarrow> bulk_str (obj_str ob))"

lemma getGenericCommand_ok:
  assumes "db_ok env db" "c_argv c = a # key # rest" "key_sds key = Some k" "ready (se_net env) c"
  shows "\<exists>db' c'. getGenericCommand env db c = Some (db', c') \<and> db_ok env db' \<and> db_map env db' = db_map env db \<and>
    dictSize (db_dict db') = dictSize (db_dict db) \<and> queued (se_net env) c (get_reply (db_map env db k)) c'"
proof -
  obtain d where d: "lookupKey env db key = Some (db\<lparr>db_dict := d\<rparr>, db_map env db k)" "db_ok env (db\<lparr>db_dict := d\<rparr>)"
    "db_map env (db\<lparr>db_dict := d\<rparr>) = db_map env db" "dictSize d = dictSize (db_dict db)"
    using lookupKey_ok [OF assms(1,3)] by blast
  show ?thesis
  proof (cases "db_map env db k")
    case None
    obtain c' where "addReply (se_net env) c shared_nullbulk = Some c'" "queued (se_net env) c (''$-1'' @ CRLF) c'"
      using addReply_shared [OF assms(4)] unfolding shared_nullbulk_def by blast
    with None d assms(2) show ?thesis
      by (auto simp: getGenericCommand_def lookupKeyReadOrReply_def lookupKeyRead_def get_reply_def db_ok_def db_map_def)
  next
    case (Some ob)
    then have "val_ok ob" using assms(1) by (simp add: db_ok_def)
    then obtain c' where "addReplyBulk (se_net env) c ob = Some c'" "queued (se_net env) c (bulk_str (obj_str ob)) c'"
      using addReplyBulk_queued [OF assms(4), of ob] by (auto simp: val_ok_def)
    with Some d assms(2) show ?thesis
      by (auto simp: getGenericCommand_def lookupKeyReadOrReply_def lookupKeyRead_def get_reply_def db_ok_def db_map_def)
  qed
qed

lemma cmd_named_table: "cmd_named ''set'' = Some (prezCommandTable ! 1)" "cmd_named ''get'' = Some (prezCommandTable ! 0)"
  "cmd_proc (prezCommandTable ! 0) = P_get" "cmd_proc (prezCommandTable ! Suc 0) = P_set"
  by (simp_all add: cmd_named_def prezCommandTable_def)

lemma resetClient_out: "client_out (resetClient c) = client_out c" "ready env (resetClient c) = ready env c"
  by (simp_all add: resetClient_def freeClientArgv_def client_out_def ready_def out_ok_def accepting_def)

lemma call_set_ok:
  assumes "db_ok env db" "c_cmd c = Some ''set''" "c_argv c = [a, key, val]" "key_sds key = Some k" "val_ok val" "db_room db 1"
    "ready (se_net env) c"
  shows "\<exists>d c'. call env db c = Some (db\<lparr>db_dict := d\<rparr>, c') \<and> db_ok env (db\<lparr>db_dict := d\<rparr>) \<and>
    db_map env (db\<lparr>db_dict := d\<rparr>) = (db_map env db)(k \<mapsto> val) \<and> dictSize d \<le> dictSize (db_dict db) + 1 \<and>
    ready (se_net env) c' \<and> client_out c' = client_out c @ ''+OK'' @ CRLF"
proof -
  obtain d c1 where s: "setCommand env db (Some c) (c_argv c) = Some (db\<lparr>db_dict := d\<rparr>, c1)" "db_ok env (db\<lparr>db_dict := d\<rparr>)"
    "db_map env (db\<lparr>db_dict := d\<rparr>) = (db_map env db)(k \<mapsto> val)" "dictSize d \<le> dictSize (db_dict db) + 1"
    "client_gets env (Some c) (''+OK'' @ CRLF) c1"
    using setCommand_ok [OF assms(1,4,5,6), of "Some c" a "[]"] assms(3,7) by (auto simp: client_ready_def)
  then obtain c2 where "c1 = Some c2" "queued (se_net env) c (''+OK'' @ CRLF) c2" by (auto simp: client_gets_def split: option.splits)
  with s queued_ready queued_fields(8) assms(2) show ?thesis
    by (auto simp: call_def cmd_named_table run_proc_def resetClient_out)
qed

lemma call_get_ok:
  assumes "db_ok env db" "c_cmd c = Some ''get''" "c_argv c = [a, key]" "key_sds key = Some k" "ready (se_net env) c"
  shows "\<exists>db' c'. call env db c = Some (db', c') \<and> db_ok env db' \<and> db_map env db' = db_map env db \<and>
    dictSize (db_dict db') = dictSize (db_dict db) \<and> ready (se_net env) c' \<and>
    client_out c' = client_out c @ get_reply (db_map env db k)"
proof -
  obtain db' c1 where "getGenericCommand env db c = Some (db', c1)" "db_ok env db'" "db_map env db' = db_map env db"
    "dictSize (db_dict db') = dictSize (db_dict db)" "queued (se_net env) c (get_reply (db_map env db k)) c1"
    using getGenericCommand_ok [OF assms(1) _ assms(4,5)] assms(3) by blast
  with queued_ready queued_fields(8) assms(2) show ?thesis
    by (auto simp: call_def cmd_named_table run_proc_def getCommand_def resetClient_out)
qed

section \<open>Properties\<close>

definition db_empty :: keysp where
  "db_empty = \<lparr>db_dict = dictCreate, stat_keyspace_hits = 0, stat_keyspace_misses = 0, db_cfg = initServerConfig\<rparr>"

definition env_ideal :: srvenv where
  "env_ideal = \<lparr>se_net = net_ideal, se_seed = 5381, se_can = True, se_junk = shared_crlf, se_cfg = cfg_ideal\<rparr>"

lemma db_empty_ok: "db_ok env db_empty" "db_map env db_empty = Map.empty" "db_room db_empty 1"
  using dict_ok_create [of "dbT env" "\<lambda>_. True"]
  by (auto simp: db_ok_def db_map_def db_room_def db_empty_def dict_map_def table_list_def dictCreate_def dictReset_def dictSize_def)

text \<open>C30: a SET followed by a GET, each run by \<open>call\<close> for a connected client: the first client is told
  OK, the second receives the value just written when it asks for that key and the value the database
  had before when it asks for another; neither run faults and the key space keeps its invariant.\<close>

theorem set_then_get:
  assumes "db_ok env db" "db_room db 1" "val_ok val" "key_sds key = Some k" "key_sds key' = Some k'"
    "c_cmd c1 = Some ''set''" "c_argv c1 = [a, key, val]" "ready (se_net env) c1"
    "c_cmd c2 = Some ''get''" "c_argv c2 = [b, key']" "ready (se_net env) c2"
  shows "\<exists>db1 c1' db2 c2'. call env db c1 = Some (db1, c1') \<and> call env db1 c2 = Some (db2, c2') \<and> db_ok env db2 \<and>
    db_map env db2 = (db_map env db)(k \<mapsto> val) \<and> client_out c1' = client_out c1 @ ''+OK'' @ CRLF \<and>
    client_out c2' = client_out c2 @ (if k' = k then bulk_str (obj_str val) else get_reply (db_map env db k'))"
proof -
  obtain d c1' where s: "call env db c1 = Some (db\<lparr>db_dict := d\<rparr>, c1')" "db_ok env (db\<lparr>db_dict := d\<rparr>)"
    "db_map env (db\<lparr>db_dict := d\<rparr>) = (db_map env db)(k \<mapsto> val)" "client_out c1' = client_out c1 @ ''+OK'' @ CRLF"
    using call_set_ok [OF assms(1,6,7,4,3,2,8)] by blast
  obtain db2 c2' where g: "call env (db\<lparr>db_dict := d\<rparr>) c2 = Some (db2, c2')" "db_ok env db2"
    "db_map env db2 = db_map env (db\<lparr>db_dict := d\<rparr>)" "client_out c2' = client_out c2 @ get_reply (db_map env (db\<lparr>db_dict := d\<rparr>) k')"
    using call_get_ok [OF s(2) assms(9,10,5,11)] by blast
  have "get_reply (((db_map env db)(k \<mapsto> val)) k') = (if k' = k then bulk_str (obj_str val) else get_reply (db_map env db k'))"
    by (simp add: get_reply_def)
  with s g show ?thesis by auto
qed

theorem set_then_get_witness:
  "\<exists>db1 c1' db2 c2'.
    call env_ideal db_empty (new_client\<lparr>c_cmd := Some ''set'', c_argv := map createStringObject [''set'', ''k'', ''v'']\<rparr>) = Some (db1, c1') \<and>
    call env_ideal db1 (new_client\<lparr>c_cmd := Some ''get'', c_argv := map createStringObject [''get'', ''k'']\<rparr>) = Some (db2, c2') \<and>
    client_out c1' = ''+OK'' @ CRLF \<and> client_out c2' = bulk_str ''v''"
proof -
  let ?o = createStringObject
  let ?c1 = "new_client\<lparr>c_cmd := Some ''set'', c_argv := [?o ''set'', ?o ''k'', ?o ''v'']\<rparr>"
  let ?c2 = "new_client\<lparr>c_cmd := Some ''get'', c_argv := [?o ''get'', ?o ''k'']\<rparr>"
  have r: "ready (se_net env_ideal) ?c1" "ready (se_net env_ideal) ?c2" "client_out ?c1 = []" "client_out ?c2 = []"
    using new_client_ready by (auto simp: ready_def out_ok_def accepting_def env_ideal_def client_out_def new_client_def)
  have k: "key_sds (?o ''k'') = Some ''k''" "val_ok (?o ''v'')" by (simp_all add: key_sds_def create_ptr val_ok_def)
  show ?thesis
    using set_then_get [OF db_empty_ok(1,3) k(2) k(1) k(1), of ?c1 "?o ''set''" env_ideal ?c2 "?o ''get''"] r by auto
qed

text \<open>C40: SET with a surplus argument answers with a syntax error and then performs the write all the
  same and answers OK, so the client receives two replies to one request.\<close>

theorem set_surplus_argument:
  assumes "db_ok env db" "db_room db 1" "val_ok val" "key_sds key = Some k" "ready (se_net env) c"
  shows "\<exists>db' c'. setCommand env db (Some c) (a # key # val # x # rest) = Some (db', Some c') \<and>
    db_map env db' = (db_map env db)(k \<mapsto> val) \<and>
    client_out c' = client_out c @ ''-ERR syntax error'' @ CRLF @ ''+OK'' @ CRLF"
proof -
  obtain d c1 where s: "setCommand env db (Some c) (a # key # val # x # rest) = Some (db\<lparr>db_dict := d\<rparr>, c1)"
    "db_map env (db\<lparr>db_dict := d\<rparr>) = (db_map env db)(k \<mapsto> val)"
    "client_gets env (Some c) ((''-ERR syntax error'' @ CRLF) @ ''+OK'' @ CRLF) c1"
    using setCommand_ok [OF assms(1,4,3,2), of "Some c" a "x # rest"] assms(5) by (auto simp: client_ready_def)
  then obtain c2 where "c1 = Some c2" "queued (se_net env) c ((''-ERR syntax error'' @ CRLF) @ ''+OK'' @ CRLF) c2"
    by (auto simp: client_gets_def split: option.splits)
  with s queued_fields(8) show ?thesis by fastforce
qed

theorem set_surplus_argument_witness:
  "\<exists>db' c'. setCommand env_ideal db_empty (Some new_client) (map createStringObject [''set'', ''k'', ''v'', ''EX'']) = Some (db', Some c') \<and>
    db_map env_ideal db' = [''k'' \<mapsto> createStringObject ''v''] \<and>
    client_out c' = client_out new_client @ ''-ERR syntax error'' @ CRLF @ ''+OK'' @ CRLF"
proof -
  let ?o = createStringObject
  have k: "key_sds (?o ''k'') = Some ''k''" "val_ok (?o ''v'')" by (simp_all add: key_sds_def create_ptr val_ok_def)
  have r: "ready (se_net env_ideal) new_client" using new_client_ready by (simp add: env_ideal_def)
  show ?thesis
    using set_surplus_argument [OF db_empty_ok(1,3) k(2,1) r, of "?o ''set''" "?o ''EX''" "[]"] by (simp add: db_empty_ok)
qed

text \<open>the table that the server fills at start finds a command by its name in any case and finds
  nothing else, for every name without a zero byte; lookups keep the table.\<close>

theorem lookupCommand_exact:
  "\<exists>d. populateCommandTable env junk dictCreate prezCommandTable = Some d \<and>
    (\<forall>name. no_NUL name \<longrightarrow> (\<exists>d'. lookupCommand env d name =
       Some (d', map_option flagged (find (\<lambda>c. map c_tolower name = cmd_name c) prezCommandTable)) \<and> commands_ok env d'))"
proof -
  have low: "map c_tolower (cmd_name c) = cmd_name c" if "c \<in> set prezCommandTable" for c
    using that by (auto simp: prezCommandTable_def c_tolower_def)
  have "find (\<lambda>c. strcaseeq name (cmd_name c)) prezCommandTable = find (\<lambda>c. map c_tolower name = cmd_name c) prezCommandTable" for name
    using low by (intro find_cong) (auto simp: strcaseeq_def)
  then show ?thesis using populate_commands_ok [of env junk] lookupCommand_ok [of env] by metis
qed

theorem lookupCommand_exact_witness:
  "\<exists>d d'. populateCommandTable env_ideal (prezCommandTable ! 0) dictCreate prezCommandTable = Some d \<and>
    lookupCommand env_ideal d ''SeT'' = Some (d', Some (flagged (prezCommandTable ! 1)))"
proof -
  have n: "no_NUL ''SeT''" by (simp add: no_NUL_def)
  have "find (\<lambda>c. map c_tolower ''SeT'' = cmd_name c) prezCommandTable = Some (prezCommandTable ! 1)" by code_simp
  with lookupCommand_exact [of env_ideal "prezCommandTable ! 0"] n show ?thesis by fastforce
qed

end
