(* ===== verification/Prez_Bus.thy ===== *)
theory Prez_Bus
  imports Prez_Log
begin

text \<open>
  The wire format of the cluster bus (src/src/cluster.h, src/src/cluster.c): the packed structures of
  the four messages on a 64-bit little-endian machine, the header with its fields in network order,
  the checks of \<open>clusterProcessPacket\<close>, and the handler that cuts a byte stream into packets.  The
  structures hold \<open>long long\<close> fields in the order of the machine.  Sizes: the header takes 96 bytes, a
  log entry 96, the four bodies 64, 16, 80 plus the entries, and 32.
\<close>

section \<open>Fields\<close>

fun le_bytes :: "nat \<Rightarrow> int \<Rightarrow> string" where
  "le_bytes 0 x = []"
| "le_bytes (Suc n) x = char_of (nat (x mod 256)) # le_bytes n (x div 256)"

fun le_val :: "string \<Rightarrow> int" where
  "le_val [] = 0"
| "le_val (c # s) = int (of_char c) + 256 * le_val s"

definition htons :: "int \<Rightarrow> string" where "htons x = rev (le_bytes 2 x)"
definition htonl :: "int \<Rightarrow> string" where "htonl x = rev (le_bytes 4 x)"
definition ntohs :: "string \<Rightarrow> int" where "ntohs s = le_val (rev s)"
definition ntohl :: "string \<Rightarrow> int" where "ntohl s = le_val (rev s)"

definition get_ll :: "string \<Rightarrow> int" where "get_ll s = ll (le_val s)"
definition get_int :: "string \<Rightarrow> int" where "get_int s = c_int32 (le_val s)"

definition slice :: "nat \<Rightarrow> nat \<Rightarrow> string \<Rightarrow> string" where
  "slice off n s = take n (drop off s)"

text \<open>A field of fixed width: its encoding is read back, at any place of a packet.\<close>

locale wire_field =
  fixes enc :: "'a \<Rightarrow> string" and dec :: "string \<Rightarrow> 'a" and width :: nat and valid :: "'a \<Rightarrow> bool"
  assumes enc_length: "valid x \<Longrightarrow> length (enc x) = width"
    and dec_enc: "valid x \<Longrightarrow> dec (enc x) = x"
begin

lemma field_at: "valid x \<Longrightarrow> length p = off \<Longrightarrow> dec (slice off width (p @ enc x @ r)) = x"
  using enc_length [of x] dec_enc [of x] by (simp add: slice_def)

lemma length_fields: "\<forall>x \<in> set xs. valid x \<Longrightarrow> length (concat (map enc xs)) = width * length xs"
  by (induction xs) (auto simp: enc_length)

lemma fields_at:
  assumes "\<forall>x \<in> set xs. valid x" "length p = off"
  shows "map (\<lambda>i. dec (slice (off + width * i) width (p @ concat (map enc xs) @ r))) [0..<length xs] = xs"
  using assms
proof (induction xs arbitrary: p off)
  case (Cons x xs)
  have len: "length (enc x) = width" using Cons.prems(1) enc_length by simp
  have 0: "dec (slice off width (p @ enc x @ concat (map enc xs) @ r)) = x"
    using field_at [of x p off "concat (map enc xs) @ r"] Cons.prems by simp
  have "map (\<lambda>i. dec (slice (off + width + width * i) width ((p @ enc x) @ concat (map enc xs) @ r))) [0..<length xs] = xs"
    using Cons.IH [of "p @ enc x" "off + width"] Cons.prems len by simp
  moreover have "[0..<length (x # xs)] = 0 # map Suc [0..<length xs]" by (simp add: upt_conv_Cons map_Suc_upt del: upt_Suc)
  ultimately show ?case using 0 by (simp add: o_def ac_simps)
qed simp

end

lemma length_le_bytes [simp]: "length (le_bytes n x) = n"
  by (induction n arbitrary: x) auto

lemma le_val_bytes: "le_val (le_bytes n x) = x mod 256 ^ n"
proof (induction n arbitrary: x)
  case (Suc n)
  have "int (of_char (char_of (nat (x mod 256)) :: char)) = x mod 256"
    by (simp add: of_char_of take_bit_eq_mod nat_mod_as_int)
  moreover have "x mod 256 + 256 * (x div 256 mod 256 ^ n) = x mod (256 * 256 ^ n)"
    by (simp add: zmod_zmult2_eq)
  ultimately show ?case using Suc by simp
qed simp

lemma ll_mod: "ll (x mod 18446744073709551616) = ll x"
  by (simp add: ll_def mod_add_right_eq mod_add_left_eq)

lemma int32_mod: "c_int32 (x mod 4294967296) = c_int32 x"
  by (simp add: c_int32_def mod_add_right_eq mod_add_left_eq)

interpretation w_ll: wire_field "le_bytes 8" get_ll 8 is_ll
proof (unfold_locales, goal_cases)
  case (2 x)
  then show ?case using ll_id [of x] by (simp add: get_ll_def le_val_bytes ll_mod)
qed simp

interpretation w_int: wire_field "le_bytes 4" get_int 4 "\<lambda>x. -2147483648 \<le> x \<and> x < 2147483648"
proof (unfold_locales, goal_cases)
  case (2 x)
  then show ?case using c_int32_id [of x] by (simp add: get_int_def le_val_bytes int32_mod)
qed simp

interpretation w_net16: wire_field htons ntohs 2 "\<lambda>x. 0 \<le> x \<and> x < 65536"
  by unfold_locales (auto simp: htons_def ntohs_def le_val_bytes)

interpretation w_net32: wire_field htonl ntohl 4 "\<lambda>x. 0 \<le> x \<and> x < 4294967296"
  by unfold_locales (auto simp: htonl_def ntohl_def le_val_bytes)

interpretation w_name: wire_field "\<lambda>s. s" "\<lambda>s. s" 40 "\<lambda>s. length s = 40"
  by unfold_locales auto

section \<open>Messages\<close>

record clusterMsgDataRequestVote =
  rv_term :: int
  rv_candidateid :: string
  rv_last_log_index :: int
  rv_last_log_term :: int

record clusterMsgDataResponseVote =
  rvr_term :: int
  vote_granted :: int

record clusterMsgDataResponseAppendEntries =
  aer_term :: int
  aer_index :: int
  aer_commit_index :: int
  aer_ok :: int

datatype msg =
    RequestVote clusterMsgDataRequestVote
  | ResponseVote clusterMsgDataResponseVote
  | AppendEntries clusterMsgDataAppendEntries
  | ResponseAppendEntries clusterMsgDataResponseAppendEntries

abbreviation (input) CLUSTERMSG_TYPE_VOTEREQUEST :: int where "CLUSTERMSG_TYPE_VOTEREQUEST \<equiv> 1"
abbreviation (input) CLUSTERMSG_TYPE_VOTEREQUEST_RESP :: int where "CLUSTERMSG_TYPE_VOTEREQUEST_RESP \<equiv> 2"
abbreviation (input) CLUSTERMSG_TYPE_APPENDENTRIES :: int where "CLUSTERMSG_TYPE_APPENDENTRIES \<equiv> 3"
abbreviation (input) CLUSTERMSG_TYPE_APPENDENTRIES_RESP :: int where "CLUSTERMSG_TYPE_APPENDENTRIES_RESP \<equiv> 4"

definition CLUSTERMSG_MIN_LEN :: nat where "CLUSTERMSG_MIN_LEN = 96"
definition sizeof_clusterMsg :: nat where "sizeof_clusterMsg = 4976"

text \<open>An entry as the structure \<open>logEntry\<close> lies in memory.\<close>

definition enc_logEntry :: "logEntry \<Rightarrow> string" where
  "enc_logEntry e = le_bytes 8 (le_index e) @ le_bytes 8 (le_term e) @ le_commandName e @ le_command e"

definition dec_logEntry :: "string \<Rightarrow> logEntry" where
  "dec_logEntry s =
     \<lparr>le_index = get_ll (slice 0 8 s), le_term = get_ll (slice 8 8 s),
      le_commandName = slice 16 40 s, le_command = slice 56 40 s\<rparr>"

definition valid_logEntry :: "logEntry \<Rightarrow> bool" where
  "valid_logEntry e \<longleftrightarrow> is_ll (le_index e) \<and> is_ll (le_term e) \<and> length (le_commandName e) = 40 \<and> length (le_command e) = 40"

text \<open>The bodies, with zero bytes for the padding that \<open>memset\<close> cleared.\<close>

definition enc_requestVote :: "clusterMsgDataRequestVote \<Rightarrow> string" where
  "enc_requestVote v = le_bytes 8 (rv_term v) @ rv_candidateid v @ le_bytes 8 (rv_last_log_index v) @ le_bytes 8 (rv_last_log_term v)"

definition enc_responseVote :: "clusterMsgDataResponseVote \<Rightarrow> string" where
  "enc_responseVote v = le_bytes 8 (rvr_term v) @ le_bytes 4 (vote_granted v) @ replicate 4 NUL"

definition enc_appendEntries :: "clusterMsgDataAppendEntries \<Rightarrow> string" where
  "enc_appendEntries m =
     le_bytes 8 (ae_term m) @ ae_leaderid m @ le_bytes 8 (ae_prev_log_index m) @ le_bytes 8 (ae_prev_log_term m) @
     le_bytes 8 (ae_leader_commit_index m) @ htons (int (ae_log_entries_count m)) @ replicate 6 NUL @
     concat (map enc_logEntry (ae_log_entries m))"

definition enc_responseAppendEntries :: "clusterMsgDataResponseAppendEntries \<Rightarrow> string" where
  "enc_responseAppendEntries m =
     le_bytes 8 (aer_term m) @ le_bytes 8 (aer_index m) @ le_bytes 8 (aer_commit_index m) @ le_bytes 4 (aer_ok m) @ replicate 4 NUL"

definition bus_sig :: string where "bus_sig = ''RCmb''"

text \<open>\<open>clusterBuildMessageHdr\<close> with the total length filled in: signature, length, version, unused,
  type, count, sender, unused, port, padding.\<close>

definition clusterBuildMessageHdr :: "string \<Rightarrow> int \<Rightarrow> int \<Rightarrow> int \<Rightarrow> string" where
  "clusterBuildMessageHdr sender port type totlen =
     bus_sig @ htonl totlen @ htons 0 @ replicate 2 NUL @ htons type @ htons 0 @ sender @ replicate 32 NUL @ htons port @ replicate 6 NUL"

definition build_totlen :: "msg \<Rightarrow> int" where
  "build_totlen m =
     (case m of
        RequestVote _ \<Rightarrow> 96 + 64
      | ResponseVote _ \<Rightarrow> 96 + 16
      | AppendEntries a \<Rightarrow> 96 + 80 + 96 * int (length (ae_log_entries a))
      | ResponseAppendEntries _ \<Rightarrow> 96 + 32)"

definition msg_type :: "msg \<Rightarrow> int" where
  "msg_type m =
     (case m of
        RequestVote _ \<Rightarrow> CLUSTERMSG_TYPE_VOTEREQUEST
      | ResponseVote _ \<Rightarrow> CLUSTERMSG_TYPE_VOTEREQUEST_RESP
      | AppendEntries _ \<Rightarrow> CLUSTERMSG_TYPE_APPENDENTRIES
      | ResponseAppendEntries _ \<Rightarrow> CLUSTERMSG_TYPE_APPENDENTRIES_RESP)"

definition enc_body :: "msg \<Rightarrow> string" where
  "enc_body m =
     (case m of
        RequestVote v \<Rightarrow> enc_requestVote v
      | ResponseVote v \<Rightarrow> enc_responseVote v
      | AppendEntries a \<Rightarrow> enc_appendEntries a
      | ResponseAppendEntries a \<Rightarrow> enc_responseAppendEntries a)"

definition enc_msg :: "string \<Rightarrow> int \<Rightarrow> msg \<Rightarrow> string" where
  "enc_msg sender port m = clusterBuildMessageHdr sender port (msg_type m) (build_totlen m) @ enc_body m"

text \<open>Reading the fields of a received packet.\<close>

definition hdr_totlen :: "string \<Rightarrow> int" where "hdr_totlen s = ntohl (slice 4 4 s)"
definition hdr_ver :: "string \<Rightarrow> int" where "hdr_ver s = ntohs (slice 8 2 s)"
definition hdr_type :: "string \<Rightarrow> int" where "hdr_type s = ntohs (slice 12 2 s)"

definition dec_requestVote :: "string \<Rightarrow> clusterMsgDataRequestVote" where
  "dec_requestVote s =
     \<lparr>rv_term = get_ll (slice 96 8 s), rv_candidateid = slice 104 40 s,
      rv_last_log_index = get_ll (slice 144 8 s), rv_last_log_term = get_ll (slice 152 8 s)\<rparr>"

definition dec_responseVote :: "string \<Rightarrow> clusterMsgDataResponseVote" where
  "dec_responseVote s = \<lparr>rvr_term = get_ll (slice 96 8 s), vote_granted = get_int (slice 104 4 s)\<rparr>"

definition dec_count :: "string \<Rightarrow> nat" where "dec_count s = nat (ntohs (slice 168 2 s))"

text \<open>The array has 50 elements whatever the count says.\<close>

definition dec_appendEntries :: "string \<Rightarrow> clusterMsgDataAppendEntries" where
  "dec_appendEntries s =
     \<lparr>ae_term = get_ll (slice 96 8 s), ae_leaderid = slice 104 40 s,
      ae_prev_log_index = get_ll (slice 144 8 s), ae_prev_log_term = get_ll (slice 152 8 s),
      ae_leader_commit_index = get_ll (slice 160 8 s), ae_log_entries_count = dec_count s,
      ae_log_entries = map (\<lambda>i. dec_logEntry (slice (176 + 96 * i) 96 s)) [0..<min (dec_count s) PREZ_LOG_MAX_ENTRIES_PER_REQUEST]\<rparr>"

definition dec_responseAppendEntries :: "string \<Rightarrow> clusterMsgDataResponseAppendEntries" where
  "dec_responseAppendEntries s =
     \<lparr>aer_term = get_ll (slice 96 8 s), aer_index = get_ll (slice 104 8 s),
      aer_commit_index = get_ll (slice 112 8 s), aer_ok = get_int (slice 120 4 s)\<rparr>"

text \<open>The checks of \<open>clusterProcessPacket\<close>: the message it hands on, or \<open>None\<close> when it ignores the
  packet.\<close>

definition packet_msg :: "string \<Rightarrow> msg option" where
  "packet_msg s =
     (let totlen = hdr_totlen s; type = hdr_type s in
      if totlen < 16 then None
      else if hdr_ver s \<noteq> 0 then None
      else if totlen > int (length s) then None
      else if type = CLUSTERMSG_TYPE_VOTEREQUEST then
        if totlen \<noteq> 96 + 64 then None else Some (RequestVote (dec_requestVote s))
      else if type = CLUSTERMSG_TYPE_APPENDENTRIES then
        if totlen \<noteq> 96 + (4880 - 96 * 50 + 96 * int (dec_count s)) then None else Some (AppendEntries (dec_appendEntries s))
      else if type = CLUSTERMSG_TYPE_VOTEREQUEST_RESP then
        if totlen \<noteq> 96 + 16 then None else Some (ResponseVote (dec_responseVote s))
      else if type = CLUSTERMSG_TYPE_APPENDENTRIES_RESP then
        if totlen \<noteq> 96 + 32 then None else Some (ResponseAppendEntries (dec_responseAppendEntries s))
      else None)"

section \<open>Messages survive the wire\<close>

definition valid_msg :: "msg \<Rightarrow> bool" where
  "valid_msg m =
     (case m of
        RequestVote v \<Rightarrow> is_ll (rv_term v) \<and> length (rv_candidateid v) = 40 \<and> is_ll (rv_last_log_index v) \<and> is_ll (rv_last_log_term v)
      | ResponseVote v \<Rightarrow> is_ll (rvr_term v) \<and> -2147483648 \<le> vote_granted v \<and> vote_granted v < 2147483648
      | AppendEntries a \<Rightarrow> is_ll (ae_term a) \<and> length (ae_leaderid a) = 40 \<and> is_ll (ae_prev_log_index a) \<and>
          is_ll (ae_prev_log_term a) \<and> is_ll (ae_leader_commit_index a) \<and> ae_log_entries_count a = length (ae_log_entries a) \<and>
          length (ae_log_entries a) \<le> PREZ_LOG_MAX_ENTRIES_PER_REQUEST \<and> (\<forall>e \<in> set (ae_log_entries a). valid_logEntry e)
      | ResponseAppendEntries a \<Rightarrow> is_ll (aer_term a) \<and> is_ll (aer_index a) \<and> is_ll (aer_commit_index a) \<and>
          -2147483648 \<le> aer_ok a \<and> aer_ok a < 2147483648)"

lemma slice_skip: "length a \<le> off \<Longrightarrow> slice off n (a @ b) = slice (off - length a) n b"
  by (simp add: slice_def)

lemma slice_here: "length a = n \<Longrightarrow> slice 0 n (a @ b) = a" "length a = n \<Longrightarrow> slice 0 n a = a"
  by (simp_all add: slice_def)

lemma length_net [simp]: "length (htons x) = 2" "length (htonl x) = 4"
  by (simp_all add: htons_def htonl_def)

lemma length_sig [simp]: "length bus_sig = 4"
  by (simp add: bus_sig_def)

lemmas slice_simps = slice_skip slice_here

interpretation w_entry: wire_field enc_logEntry dec_logEntry 96 valid_logEntry
proof (unfold_locales, goal_cases)
  case (2 e)
  then show ?case
    by (simp add: valid_logEntry_def enc_logEntry_def dec_logEntry_def slice_simps w_ll.dec_enc)
qed (simp add: valid_logEntry_def enc_logEntry_def)

text \<open>The header: its length and its fields.\<close>

lemma hdr_length: "length sender = 40 \<Longrightarrow> length (clusterBuildMessageHdr sender port type totlen) = 96"
  by (simp add: clusterBuildMessageHdr_def)

lemma hdr_fields:
  assumes "length sender = 40" "0 \<le> totlen" "totlen < 4294967296" "0 \<le> type" "type < 65536"
  shows "hdr_totlen (clusterBuildMessageHdr sender port type totlen @ b) = totlen"
    "hdr_ver (clusterBuildMessageHdr sender port type totlen @ b) = 0"
    "hdr_type (clusterBuildMessageHdr sender port type totlen @ b) = type"
  using assms w_net32.dec_enc [of totlen] w_net16.dec_enc [of type] w_net16.dec_enc [of 0]
  by (simp_all add: hdr_totlen_def hdr_ver_def hdr_type_def clusterBuildMessageHdr_def slice_skip slice_here(1))

lemma body_length: "valid_msg m \<Longrightarrow> int (length (enc_body m)) = build_totlen m - 96"
  using w_entry.length_fields
  by (auto simp: valid_msg_def enc_body_def build_totlen_def enc_requestVote_def enc_responseVote_def enc_appendEntries_def
      enc_responseAppendEntries_def split: msg.splits)

lemma totlen_bounds: "valid_msg m \<Longrightarrow> 96 \<le> build_totlen m \<and> build_totlen m \<le> 4976"
  by (auto simp: valid_msg_def build_totlen_def PREZ_LOG_MAX_ENTRIES_PER_REQUEST_def split: msg.splits)

lemma dec_bodies:
  assumes "length h = 96"
  shows "valid_msg (RequestVote v) \<Longrightarrow> dec_requestVote (h @ enc_requestVote v) = v"
    "valid_msg (ResponseVote w) \<Longrightarrow> dec_responseVote (h @ enc_responseVote w) = w"
    "valid_msg (ResponseAppendEntries r) \<Longrightarrow> dec_responseAppendEntries (h @ enc_responseAppendEntries r) = r"
  using assms
  by (simp_all add: valid_msg_def dec_requestVote_def enc_requestVote_def dec_responseVote_def enc_responseVote_def
      dec_responseAppendEntries_def enc_responseAppendEntries_def slice_skip slice_here w_ll.dec_enc w_int.dec_enc)

lemma dec_append:
  assumes h: "length h = 96" and v: "valid_msg (AppendEntries a)"
  shows "dec_count (h @ enc_appendEntries a) = length (ae_log_entries a)" "dec_appendEntries (h @ enc_appendEntries a) = a"
proof -
  let ?es = "concat (map enc_logEntry (ae_log_entries a))"
  have n: "int (length (ae_log_entries a)) < 65536" "ae_log_entries_count a = length (ae_log_entries a)"
    using v by (auto simp: valid_msg_def PREZ_LOG_MAX_ENTRIES_PER_REQUEST_def)
  then show c: "dec_count (h @ enc_appendEntries a) = length (ae_log_entries a)"
    using h v w_net16.dec_enc [of "int (length (ae_log_entries a))"]
    by (simp add: dec_count_def enc_appendEntries_def slice_skip slice_here(1) valid_msg_def)
  define p where "p = h @ le_bytes 8 (ae_term a) @ ae_leaderid a @ le_bytes 8 (ae_prev_log_index a) @ le_bytes 8 (ae_prev_log_term a) @
     le_bytes 8 (ae_leader_commit_index a) @ htons (int (ae_log_entries_count a)) @ replicate 6 NUL"
  have p: "h @ enc_appendEntries a = p @ ?es @ []" "length p = 176" using h v by (auto simp: p_def enc_appendEntries_def valid_msg_def)
  have "map (\<lambda>i. dec_logEntry (slice (176 + 96 * i) 96 (h @ enc_appendEntries a))) [0..<length (ae_log_entries a)] = ae_log_entries a"
    unfolding p(1) using w_entry.fields_at [of "ae_log_entries a" p 176 "[]"] v p(2) by (simp add: valid_msg_def)
  moreover have "min (dec_count (h @ enc_appendEntries a)) PREZ_LOG_MAX_ENTRIES_PER_REQUEST = length (ae_log_entries a)"
    using c v by (simp add: valid_msg_def)
  ultimately have es: "ae_log_entries (dec_appendEntries (h @ enc_appendEntries a)) = ae_log_entries a"
    by (simp add: dec_appendEntries_def)
  have "ae_term (dec_appendEntries (h @ enc_appendEntries a)) = ae_term a"
    "ae_leaderid (dec_appendEntries (h @ enc_appendEntries a)) = ae_leaderid a"
    "ae_prev_log_index (dec_appendEntries (h @ enc_appendEntries a)) = ae_prev_log_index a"
    "ae_prev_log_term (dec_appendEntries (h @ enc_appendEntries a)) = ae_prev_log_term a"
    "ae_leader_commit_index (dec_appendEntries (h @ enc_appendEntries a)) = ae_leader_commit_index a"
    using h v by (simp_all add: dec_appendEntries_def enc_appendEntries_def slice_skip slice_here(1) valid_msg_def w_ll.dec_enc)
  moreover have "ae_log_entries_count (dec_appendEntries (h @ enc_appendEntries a)) = ae_log_entries_count a"
    using c n(2) by (simp add: dec_appendEntries_def)
  ultimately show "dec_appendEntries (h @ enc_appendEntries a) = a" using es by (cases a) simp
qed

lemma packet_msg_enc:
  assumes m: "valid_msg m" and s: "length sender = 40"
  shows "packet_msg (enc_msg sender port m) = Some m"
proof -
  let ?h = "clusterBuildMessageHdr sender port (msg_type m) (build_totlen m)"
  have h: "length ?h = 96" by (rule hdr_length [OF s])
  have t: "0 \<le> msg_type m" "msg_type m < 65536" by (auto simp: msg_type_def split: msg.split)
  have f: "hdr_totlen (enc_msg sender port m) = build_totlen m" "hdr_ver (enc_msg sender port m) = 0"
    "hdr_type (enc_msg sender port m) = msg_type m"
    using hdr_fields [OF s _ _ t, of "build_totlen m"] totlen_bounds [OF m] by (simp_all add: enc_msg_def)
  have l: "int (length (enc_msg sender port m)) = build_totlen m"
    using body_length [OF m] h by (simp add: enc_msg_def)
  show ?thesis
    using totlen_bounds [OF m] m dec_bodies [OF h] dec_append [OF h]
    unfolding packet_msg_def f l Let_def by (cases m) (simp_all add: msg_type_def build_totlen_def enc_msg_def enc_body_def)
qed

section \<open>Cutting the stream into packets\<close>

text \<open>
  How many bytes the read handler asks for, given what it has: the first eight bytes, then the rest of
  the packet, at most the size of its buffer.  \<open>None\<close> is a bad signature or length, which closes the link.
\<close>

definition read_want :: "string \<Rightarrow> nat option" where
  "read_want rcv =
     (if length rcv < 8 then Some (8 - length rcv)
      else if length rcv = 8 \<and> (take 4 rcv \<noteq> bus_sig \<or> hdr_totlen rcv < int CLUSTERMSG_MIN_LEN) then None
      else let n = hdr_totlen rcv - int (length rcv) in
           Some (if n < 0 \<or> n > int sizeof_clusterMsg then sizeof_clusterMsg else nat n))"

text \<open>
  The loop of \<open>clusterReadHandler\<close> on the bytes \<open>avail\<close> that wait in the socket.  A \<open>read\<close> may return less
  than it was asked for: \<open>ks\<close> bounds the successive reads.  When nothing is left the call answers EAGAIN, or,
  if \<open>closed\<close>, the end of the connection.  The result is the state after the packets, the receive buffer
  (\<open>None\<close> when the link was freed) and the bytes not read; \<open>process\<close> handles a packet, \<open>None\<close> is a fault in it.
\<close>

function clusterReadHandler :: "('s \<Rightarrow> string \<Rightarrow> 's option) \<Rightarrow> bool \<Rightarrow> nat list \<Rightarrow> string \<Rightarrow> string \<Rightarrow> 's \<Rightarrow>
    ('s \<times> string option \<times> string) option" where
  "clusterReadHandler process closed ks avail rcv s =
     (case read_want rcv of
        None \<Rightarrow> Some (s, None, avail)
      | Some n \<Rightarrow>
          if avail = [] then Some (s, if closed then None else Some rcv, [])
          else
            let k = (case ks of [] \<Rightarrow> n | k # _ \<Rightarrow> min n (max 1 k)) in
            if k = 0 then Some (s, None, avail)
            else
              let rcv' = rcv @ take k avail in
              if length rcv' \<ge> 8 \<and> int (length rcv') = hdr_totlen rcv' then
                (case process s rcv' of
                   None \<Rightarrow> None
                 | Some s' \<Rightarrow> clusterReadHandler process closed (tl ks) (drop k avail) [] s')
              else clusterReadHandler process closed (tl ks) (drop k avail) rcv' s)"
  by pat_completeness auto
termination
  by (relation "measure (\<lambda>(process, closed, ks, avail, rcv, s). length avail)") (auto simp: Let_def)

declare clusterReadHandler.simps [simp del]

definition framed :: "string \<Rightarrow> bool" where
  "framed p \<longleftrightarrow> CLUSTERMSG_MIN_LEN \<le> length p \<and> int (length p) = hdr_totlen p \<and> take 4 p = bus_sig"

fun process_all :: "('s \<Rightarrow> string \<Rightarrow> 's option) \<Rightarrow> 's \<Rightarrow> string list \<Rightarrow> 's option" where
  "process_all process s [] = Some s"
| "process_all process s (p # ps) = do { s \<leftarrow> process s p; process_all process s ps }"

lemma totlen_prefix: "8 \<le> length r \<Longrightarrow> hdr_totlen (r @ x) = hdr_totlen r"
  by (simp add: hdr_totlen_def slice_def)

lemma read_want_prefix:
  assumes "framed (rcv @ t)" "t \<noteq> []"
  shows "\<exists>n. read_want rcv = Some n \<and> 0 < n \<and> n \<le> length t"
proof (cases "length rcv < 8")
  case True
  have "96 \<le> length rcv + length t" using assms(1) by (simp add: framed_def CLUSTERMSG_MIN_LEN_def)
  with True show ?thesis by (simp add: read_want_def)
next
  case False
  then have "hdr_totlen rcv = int (length rcv) + int (length t)" "take 4 rcv = bus_sig"
    using assms totlen_prefix [of rcv t] by (auto simp: framed_def)
  moreover have "int CLUSTERMSG_MIN_LEN \<le> hdr_totlen rcv" using assms totlen_prefix [of rcv t] False by (simp add: framed_def)
  ultimately show ?thesis using False assms(2) by (auto simp: read_want_def Let_def sizeof_clusterMsg_def)
qed

text \<open>One read: it takes a nonempty piece of the current packet and never a byte of the next.\<close>

lemma read_step:
  assumes p: "framed (rcv @ t)" "t \<noteq> []" and av: "avail \<noteq> []" "avail = t @ u \<or> (\<exists>v. t = avail @ v)"
  shows "\<exists>k. 0 < k \<and> k \<le> length t \<and> clusterReadHandler process closed ks avail rcv s =
    (let rcv' = rcv @ take k avail in
     if k = length t \<and> k \<le> length avail then
       (case process s rcv' of None \<Rightarrow> None | Some s' \<Rightarrow> clusterReadHandler process closed (tl ks) (drop k avail) [] s')
     else clusterReadHandler process closed (tl ks) (drop k avail) rcv' s)"
proof -
  obtain n where n: "read_want rcv = Some n" "0 < n" "n \<le> length t" using read_want_prefix [OF p] by blast
  define k where "k = (case ks of [] \<Rightarrow> n | k # _ \<Rightarrow> min n (max 1 k))"
  have k: "0 < k" "k \<le> length t" using n by (auto simp: k_def split: list.split)
  let ?r = "rcv @ take k avail"
  obtain w where w: "t = take k avail @ w" using av(2) k(2) by (metis append_take_drop_id drop_append take_append take_all
        append_Nil2 diff_is_0_eq' take0 append.assoc)
  have full: "(8 \<le> length ?r \<and> int (length ?r) = hdr_totlen ?r) \<longleftrightarrow> k = length t \<and> k \<le> length avail"
  proof
    assume "8 \<le> length ?r \<and> int (length ?r) = hdr_totlen ?r"
    then have "int (length ?r) = int (length (rcv @ t))"
      using totlen_prefix [of ?r w] p(1) w by (simp add: framed_def)
    then show "k = length t \<and> k \<le> length avail" using k by auto
  next
    assume e: "k = length t \<and> k \<le> length avail"
    then have "w = []" using arg_cong [OF w, of length] by auto
    then have "?r = rcv @ t" using w by simp
    then show "8 \<le> length ?r \<and> int (length ?r) = hdr_totlen ?r" using p(1) by (simp add: framed_def CLUSTERMSG_MIN_LEN_def)
  qed
  have "clusterReadHandler process closed ks avail rcv s =
    (let rcv' = ?r in if 8 \<le> length rcv' \<and> int (length rcv') = hdr_totlen rcv' then
       (case process s rcv' of None \<Rightarrow> None | Some s' \<Rightarrow> clusterReadHandler process closed (tl ks) (drop k avail) [] s')
     else clusterReadHandler process closed (tl ks) (drop k avail) rcv' s)"
    using n av(1) k(1) by (subst clusterReadHandler.simps) (simp add: Let_def k_def [symmetric])
  with k full show ?thesis by (auto simp: Let_def)
qed

lemma read_frames:
  assumes "\<forall>p \<in> set ps. framed p" "framed (q @ t)" "t \<noteq> []" "rcv @ avail = concat ps @ q" "ps \<noteq> [] \<Longrightarrow> length rcv < length (hd ps)"
  shows "clusterReadHandler process False ks avail rcv s = map_option (\<lambda>s'. (s', Some q, [])) (process_all process s ps)"
  using assms
proof (induction "length avail" arbitrary: avail ks rcv s ps rule: less_induct)
  case less
  show ?case
  proof (cases ps)
    case Nil
    then have q: "rcv @ avail = q" using less.prems(4) by simp
    then have fr: "framed (rcv @ (avail @ t))" "avail @ t \<noteq> []" using less.prems(2,3) by auto
    show ?thesis
    proof (cases "avail = []")
      case True
      with q Nil read_want_prefix [OF fr] show ?thesis by (subst clusterReadHandler.simps) auto
    next
      case False
      have nf: "\<not> (k = length (avail @ t) \<and> k \<le> length avail)" for k using less.prems(3) by (cases t) auto
      obtain k where k: "0 < k" "clusterReadHandler process False ks avail rcv s =
          clusterReadHandler process False (tl ks) (drop k avail) (rcv @ take k avail) s"
        using read_step [OF fr False, of "[]" process False ks s] unfolding Let_def if_not_P [OF nf] by auto
      from less.hyps [of "drop k avail" "[]" "rcv @ take k avail" "tl ks" s] False k q less.prems(2,3) Nil
      show ?thesis by simp
    qed
  next
    case (Cons P ps')
    then obtain t' where t': "P = rcv @ t'" "t' \<noteq> []" "avail = t' @ concat ps' @ q"
      using less.prems(4,5) by (auto simp: append_eq_append_conv2)
    have fr: "framed (rcv @ t')" using less.prems(1) Cons t'(1) by simp
    obtain k where k: "0 < k" "k \<le> length t'" "clusterReadHandler process False ks avail rcv s =
        (if k = length t' then (case process s (rcv @ take k avail) of None \<Rightarrow> None
           | Some s' \<Rightarrow> clusterReadHandler process False (tl ks) (drop k avail) [] s')
         else clusterReadHandler process False (tl ks) (drop k avail) (rcv @ take k avail) s)"
      using read_step [OF fr t'(2), of avail "concat ps' @ q" process False ks s] t' by (auto simp: Let_def)
    have av: "take k avail = take k t'" "drop k avail = drop k t' @ concat ps' @ q" "length (drop k avail) < length avail"
      using t'(2,3) k(1,2) by auto
    show ?thesis
    proof (cases "k = length t'")
      case True
      have ne: "ps' \<noteq> [] \<Longrightarrow> length ([] :: string) < length (hd ps')"
        using less.prems(1) Cons by (cases ps') (auto simp: framed_def CLUSTERMSG_MIN_LEN_def)
      from less.hyps [OF av(3), of ps' "[]" "tl ks"] less.prems(1-3) Cons av True ne k(3) t'(1)
      show ?thesis by (auto split: option.split)
    next
      case False
      have "(rcv @ take k avail) @ drop k avail = concat ps @ q" using less.prems(4) by simp
      from less.hyps [OF av(3) less.prems(1-3) this] False k(2,3) av(1) t'(1) Cons show ?thesis by auto
    qed
  qed
qed

section \<open>Properties\<close>

lemma enc_msg_framed:
  assumes "valid_msg m" "length sender = 40"
  shows "framed (enc_msg sender port m)"
proof -
  let ?h = "clusterBuildMessageHdr sender port (msg_type m) (build_totlen m)"
  have t: "0 \<le> msg_type m" "msg_type m < 65536" by (auto simp: msg_type_def split: msg.split)
  have "hdr_totlen (enc_msg sender port m) = build_totlen m"
    using hdr_fields(1) [OF assms(2) _ _ t, of "build_totlen m"] totlen_bounds [OF assms(1)] by (simp add: enc_msg_def)
  moreover have "int (length (enc_msg sender port m)) = build_totlen m"
    using body_length [OF assms(1)] hdr_length [OF assms(2)] by (simp add: enc_msg_def)
  moreover have "take 4 (enc_msg sender port m) = bus_sig" by (simp add: enc_msg_def clusterBuildMessageHdr_def)
  ultimately show ?thesis using totlen_bounds [OF assms(1)] by (simp add: framed_def CLUSTERMSG_MIN_LEN_def)
qed

text \<open>C36: every message that a node builds passes the checks of the receiver and is read back field by
  field: terms, indices, names, flags, and for AppendEntries the count and every log entry.\<close>

theorem packet_roundtrip:
  assumes "valid_msg m" "length sender = 40"
  shows "packet_msg (enc_msg sender port m) = Some m"
  by (rule packet_msg_enc [OF assms])

theorem packet_roundtrip_witness:
  "packet_msg (enc_msg (replicate 40 CHR ''a'') 7000 (AppendEntries \<lparr>ae_term = 3, ae_leaderid = replicate 40 CHR ''b'', ae_prev_log_index = 0,
      ae_prev_log_term = 0, ae_leader_commit_index = -1, ae_log_entries_count = 1,
      ae_log_entries = [\<lparr>le_index = 1, le_term = 3, le_commandName = replicate 40 NUL, le_command = replicate 40 NUL\<rparr>]\<rparr>)) =
    Some (AppendEntries \<lparr>ae_term = 3, ae_leaderid = replicate 40 CHR ''b'', ae_prev_log_index = 0,
      ae_prev_log_term = 0, ae_leader_commit_index = -1, ae_log_entries_count = 1,
      ae_log_entries = [\<lparr>le_index = 1, le_term = 3, le_commandName = replicate 40 NUL, le_command = replicate 40 NUL\<rparr>]\<rparr>)"
  by (rule packet_roundtrip) (simp_all add: valid_msg_def is_ll_def valid_logEntry_def PREZ_LOG_MAX_ENTRIES_PER_REQUEST_def)

text \<open>C37: the read handler cuts the byte stream of a peer into exactly the messages the peer sent, in
  order, and keeps the beginning of the next one, however many bytes each read returns; the handler of
  packets sees every message once.\<close>

theorem bus_framing:
  assumes "\<forall>m \<in> set ms. valid_msg m" "length sender = 40" "valid_msg m'" "enc_msg sender port m' = q @ t" "t \<noteq> []"
  shows "clusterReadHandler process False ks (concat (map (enc_msg sender port) ms) @ q) [] s =
    map_option (\<lambda>s'. (s', Some q, [])) (process_all process s (map (enc_msg sender port) ms))"
proof (rule read_frames)
  show "\<forall>p \<in> set (map (enc_msg sender port) ms). framed p" using assms(1,2) by (auto intro: enc_msg_framed)
  show "framed (q @ t)" using enc_msg_framed [OF assms(3,2), of port] assms(4) by simp
  show "length ([] :: string) < length (hd (map (enc_msg sender port) ms))" if ne: "map (enc_msg sender port) ms \<noteq> []"
  proof -
    obtain m ms' where "ms = m # ms'" using ne by (cases ms) auto
    then have "framed (enc_msg sender port m)" using assms(1,2) by (simp add: enc_msg_framed)
    with \<open>ms = m # ms'\<close> show ?thesis by (auto simp: framed_def CLUSTERMSG_MIN_LEN_def)
  qed
qed (use assms in auto)

theorem bus_framing_witness:
  "clusterReadHandler (\<lambda>ms p. map_option (\<lambda>m. ms @ [m]) (packet_msg p)) False [1, 7, 30]
     (concat (map (enc_msg (replicate 40 CHR ''a'') 7000) [ResponseVote \<lparr>rvr_term = 5, vote_granted = 1\<rparr>]) @ ''R'') [] [] =
   map_option (\<lambda>s'. (s', Some ''R'', [])) (process_all (\<lambda>ms p. map_option (\<lambda>m. ms @ [m]) (packet_msg p)) []
     (map (enc_msg (replicate 40 CHR ''a'') 7000) [ResponseVote \<lparr>rvr_term = 5, vote_granted = 1\<rparr>]))"
proof -
  let ?m = "ResponseVote \<lparr>rvr_term = 5, vote_granted = 1\<rparr>" and ?s = "replicate 40 CHR ''a''"
  have v: "valid_msg ?m" by (simp add: valid_msg_def is_ll_def)
  obtain t where t: "enc_msg ?s 7000 ?m = ''R'' @ t" by (simp add: enc_msg_def clusterBuildMessageHdr_def bus_sig_def)
  moreover have "length (enc_msg ?s 7000 ?m) > 1" using enc_msg_framed [OF v, of ?s 7000] by (simp add: framed_def CLUSTERMSG_MIN_LEN_def)
  ultimately have "t \<noteq> []" by auto
  from bus_framing [OF _ _ v t this, of "[?m]" "\<lambda>ms p. map_option (\<lambda>m. ms @ [m]) (packet_msg p)" "[1, 7, 30]" "[]"] v
  show ?thesis by simp
qed

end
