(* ===== verification/Prez_Cluster.thy ===== *)
theory Prez_Cluster
  imports Prez_Bus Prez_DictTypes Prez_Args
begin

text \<open>
  The cluster node of src/src/cluster.c: nodes and links with their addresses, the configuration
  file, the messages a node sends, the handlers of the four messages and the parts of
  \<open>clusterCron\<close> that elect and replicate.  Nodes and links live in two memories indexed by address;
  an access to a freed or NULL address, a failed assertion or a read behind an array is \<open>None\<close>.
  The clock, the random numbers and the network are fields of the environment that are read in
  sequence (\<open>cl_ticks\<close>, \<open>cl_rnd\<close>).
\<close>

section \<open>Data\<close>

abbreviation (input) PREZ_CLUSTER_NAMELEN :: nat where "PREZ_CLUSTER_NAMELEN \<equiv> 40"
abbreviation (input) PREZ_IP_STR_LEN :: nat where "PREZ_IP_STR_LEN \<equiv> 46"
abbreviation (input) PREZ_CLUSTER_PORT_INCR :: int where "PREZ_CLUSTER_PORT_INCR \<equiv> 10000"
abbreviation (input) PREZ_NODE_MYSELF :: nat where "PREZ_NODE_MYSELF \<equiv> 16"
abbreviation (input) PREZ_NODE_NOADDR :: nat where "PREZ_NODE_NOADDR \<equiv> 64"
abbreviation (input) DENY_VOTE :: int where "DENY_VOTE \<equiv> 0"
abbreviation (input) GRANT_VOTE :: int where "GRANT_VOTE \<equiv> 1"

datatype role = PREZ_FOLLOWER | PREZ_CANDIDATE | PREZ_LEADER

text \<open>
  \<open>leader\<close> and \<open>voted_for\<close> have the type of a string with a header, but some assignments store a
  plain copy made by \<open>zstrdup\<close>.  The length of such a copy is then read from the bytes in front of
  it, which belong to the allocator: \<open>be_hdr\<close> says what it finds there.
\<close>

datatype name_ptr = SdsName string | ZName string

record clusterNode =
  cn_name :: string
  cn_flags :: nat
  cn_last_activity_time :: int
  cn_last_sent_entry :: "logEntryNode option"
  cn_next_index :: int
  cn_match_index :: int
  cn_ip :: string
  cn_port :: int
  cn_link :: "nat option"

record clusterLink =
  lk_fd :: int
  lk_sndbuf :: string
  lk_rcvbuf :: string
  lk_node :: "nat option"
  lk_writable :: bool

record clusterState = logState +
  cl_myself :: "nat option"
  cl_nodes :: "(string, nat) dict"
  cl_state :: role
  cl_leader :: name_ptr
  cl_voted_for :: name_ptr
  cl_votes_granted :: int
  cl_election_timeout :: int
  cl_heartbeat_interval :: int
  cl_last_activity_time :: int
  cl_proc_clients :: "(string, nat) dict"
  cl_current_term :: int
  cl_max_entries :: int
  cl_sent :: int
  cl_received :: int
  cl_node_mem :: "nat \<Rightarrow> clusterNode option"
  cl_link_mem :: "nat \<Rightarrow> clusterLink option"
  cl_fresh :: nat
  cl_ticks :: nat
  cl_rnd :: nat

text \<open>\<open>be_uninit\<close> is the content of a freshly allocated node, \<open>be_hex\<close> the random name.\<close>

record busenv =
  be_os :: osenv
  be_seed :: "32 word"
  be_can :: bool
  be_mstime :: "nat \<Rightarrow> int"
  be_random :: "nat \<Rightarrow> int"
  be_connect :: "nat \<Rightarrow> string \<Rightarrow> int \<Rightarrow> int"
  be_event :: "int \<Rightarrow> bool"
  be_hdr :: "string \<Rightarrow> nat"
  be_uninit :: "nat \<Rightarrow> clusterNode"
  be_hex :: string
  be_name :: string
  be_port :: int

definition has_flag :: "clusterNode \<Rightarrow> nat \<Rightarrow> bool" where
  "has_flag n f \<longleftrightarrow> cn_flags n AND f \<noteq> 0"

definition mstime :: "busenv \<Rightarrow> clusterState \<Rightarrow> int \<times> clusterState" where
  "mstime env s = (be_mstime env (cl_ticks s), s\<lparr>cl_ticks := Suc (cl_ticks s)\<rparr>)"

definition set_node :: "clusterState \<Rightarrow> nat \<Rightarrow> (clusterNode \<Rightarrow> clusterNode) \<Rightarrow> clusterState option" where
  "set_node s p f = do { n \<leftarrow> cl_node_mem s p; Some (s\<lparr>cl_node_mem := (cl_node_mem s)(p \<mapsto> f n)\<rparr>) }"

definition quorumSize :: "clusterState \<Rightarrow> nat" where
  "quorumSize s = dictSize (cl_nodes s) div 2 + 1"

text \<open>The loop over the table of nodes with a safe iterator: the nodes in the order of the
  iteration, and the state after the release of the iterator, which one caller forgets.\<close>

definition visit_nodes :: "bool \<Rightarrow> clusterState \<Rightarrow> (nat list \<times> clusterState) option" where
  "visit_nodes release s =
     do { (es, d, it) \<leftarrow> iterate_all (Suc (dictSize (cl_nodes s))) 0 0 (cl_nodes s) (dictGetSafeIterator 0);
          d \<leftarrow> (if release then dictReleaseIterator 0 0 d it else Some d);
          Some (map snd es, s\<lparr>cl_nodes := d\<rparr>) }"

fun fold_opt :: "('a \<Rightarrow> 's \<Rightarrow> 's option) \<Rightarrow> 'a list \<Rightarrow> 's \<Rightarrow> 's option" where
  "fold_opt f [] s = Some s"
| "fold_opt f (x # xs) s = do { s \<leftarrow> f x s; fold_opt f xs s }"

section \<open>Links\<close>

definition createClusterLink :: "busenv \<Rightarrow> clusterState \<Rightarrow> nat option \<Rightarrow> clusterState \<times> nat" where
  "createClusterLink env s node =
     (let (_, s) = mstime env s; a = cl_fresh s in
      (s\<lparr>cl_link_mem := (cl_link_mem s)(a \<mapsto> \<lparr>lk_fd = -1, lk_sndbuf = [], lk_rcvbuf = [], lk_node = node, lk_writable = False\<rparr>),
         cl_fresh := Suc a\<rparr>, a))"

definition freeClusterLink :: "clusterState \<Rightarrow> nat \<Rightarrow> clusterState option" where
  "freeClusterLink s a =
     do { l \<leftarrow> cl_link_mem s a;
          s \<leftarrow> (case lk_node l of None \<Rightarrow> Some s | Some p \<Rightarrow> set_node s p (\<lambda>n. n\<lparr>cn_link := None\<rparr>));
          Some (s\<lparr>cl_link_mem := (cl_link_mem s)(a := None)\<rparr>) }"

text \<open>\<open>fds\<close> are the results of the successive calls of \<open>accept\<close>.\<close>

fun accept_loop :: "busenv \<Rightarrow> nat \<Rightarrow> int list \<Rightarrow> clusterState \<Rightarrow> clusterState" where
  "accept_loop env 0 fds s = s"
| "accept_loop env (Suc n) [] s = s"
| "accept_loop env (Suc n) (fd # fds) s =
     (if fd = -1 then s
      else let (s, a) = createClusterLink env s None in
           accept_loop env n fds (s\<lparr>cl_link_mem := (cl_link_mem s)(a := map_option (\<lambda>l. l\<lparr>lk_fd := fd\<rparr>) (cl_link_mem s a))\<rparr>))"

definition clusterAcceptHandler :: "busenv \<Rightarrow> int list \<Rightarrow> clusterState \<Rightarrow> clusterState" where
  "clusterAcceptHandler env fds s = accept_loop env 1000 fds s"

definition handleLinkIOError :: "clusterState \<Rightarrow> nat \<Rightarrow> clusterState option" where
  "handleLinkIOError s a = freeClusterLink s a"

text \<open>\<open>nwritten\<close> is the result of the call of \<open>write\<close>; the state and the bytes that went out.\<close>

definition clusterWriteHandler :: "clusterState \<Rightarrow> nat \<Rightarrow> int \<Rightarrow> (clusterState \<times> string) option" where
  "clusterWriteHandler s a nwritten =
     do { l \<leftarrow> cl_link_mem s a;
          if nwritten \<le> 0 then do { s \<leftarrow> handleLinkIOError s a; Some (s, []) }
          else
            let rest = drop (nat nwritten) (lk_sndbuf l) in
            Some (s\<lparr>cl_link_mem := (cl_link_mem s)(a \<mapsto> l\<lparr>lk_sndbuf := rest, lk_writable := lk_writable l \<and> rest \<noteq> []\<rparr>)\<rparr>,
                  take (nat nwritten) (lk_sndbuf l)) }"

definition clusterSendMessage :: "busenv \<Rightarrow> clusterState \<Rightarrow> nat \<Rightarrow> string \<Rightarrow> clusterState option" where
  "clusterSendMessage env s a msg =
     do { l \<leftarrow> cl_link_mem s a;
          let w = (if lk_sndbuf l = [] \<and> msg \<noteq> [] then lk_writable l \<or> be_event env (lk_fd l) else lk_writable l);
          Some (s\<lparr>cl_link_mem := (cl_link_mem s)(a \<mapsto> l\<lparr>lk_sndbuf := lk_sndbuf l @ msg, lk_writable := w\<rparr>),
                 cl_sent := ll (cl_sent s + 1)\<rparr>) }"

definition clusterBroadcastMessage :: "busenv \<Rightarrow> clusterState \<Rightarrow> string \<Rightarrow> clusterState option" where
  "clusterBroadcastMessage env s buf =
     do { (ps, s) \<leftarrow> visit_nodes True s;
          fold_opt (\<lambda>p s.
            do { n \<leftarrow> cl_node_mem s p;
                 case cn_link n of
                   None \<Rightarrow> Some s
                 | Some a \<Rightarrow> if has_flag n PREZ_NODE_MYSELF then Some s else clusterSendMessage env s a buf }) ps s }"

section \<open>Nodes\<close>

text \<open>\<open>junk\<close> is what follows the name in memory: forty bytes are copied whatever its length.\<close>

definition createClusterNode :: "busenv \<Rightarrow> clusterState \<Rightarrow> (nat \<Rightarrow> char) \<Rightarrow> string option \<Rightarrow> clusterState \<times> nat" where
  "createClusterNode env s junk nodename =
     (let a = cl_fresh s;
          name = (case nodename of Some nm \<Rightarrow> memcpy40 junk nm | None \<Rightarrow> be_hex env);
          (_, s) = mstime env s
      in (s\<lparr>cl_node_mem := (cl_node_mem s)(a \<mapsto> (be_uninit env a)\<lparr>cn_name := name, cn_link := None,
               cn_ip := replicate PREZ_IP_STR_LEN NUL, cn_port := 0\<rparr>), cl_fresh := Suc a\<rparr>, a))"

definition clusterAddNode :: "busenv \<Rightarrow> clusterState \<Rightarrow> nat \<Rightarrow> (clusterState \<times> int) option" where
  "clusterAddNode env s p =
     do { n \<leftarrow> cl_node_mem s p;
          (d, rc) \<leftarrow> dictAdd (be_can env) p (clusterNodesDictType (be_seed env)) (cl_nodes s) (cn_name n) p;
          Some (s\<lparr>cl_nodes := d\<rparr>, if rc = DICT_OK then PREZ_OK else PREZ_ERR) }"

definition clusterLookupNode :: "busenv \<Rightarrow> clusterState \<Rightarrow> string \<Rightarrow> (clusterState \<times> nat option) option" where
  "clusterLookupNode env s name =
     do { (d, de) \<leftarrow> dictFind (clusterNodesDictType (be_seed env)) (cl_nodes s) name;
          case de of
            None \<Rightarrow> Some (s\<lparr>cl_nodes := d\<rparr>, None)
          | Some r \<Rightarrow> do { e \<leftarrow> get_entry d r; Some (s\<lparr>cl_nodes := d\<rparr>, Some (snd e)) } }"

definition freeClusterNode :: "busenv \<Rightarrow> clusterState \<Rightarrow> nat \<Rightarrow> clusterState option" where
  "freeClusterNode env s p =
     do { n \<leftarrow> cl_node_mem s p;
          (d, rc) \<leftarrow> dictDelete (clusterNodesDictType (be_seed env)) (cl_nodes s) (cn_name n);
          if rc \<noteq> DICT_OK then None
          else
            do { s \<leftarrow> (case cn_link n of None \<Rightarrow> Some (s\<lparr>cl_nodes := d\<rparr>) | Some a \<Rightarrow> freeClusterLink (s\<lparr>cl_nodes := d\<rparr>) a);
                 Some (s\<lparr>cl_node_mem := (cl_node_mem s)(p := None)\<rparr>) } }"

definition clusterDelNode :: "busenv \<Rightarrow> clusterState \<Rightarrow> nat \<Rightarrow> clusterState option" where
  "clusterDelNode env s p = freeClusterNode env s p"

definition clusterRenameNode :: "busenv \<Rightarrow> clusterState \<Rightarrow> nat \<Rightarrow> string \<Rightarrow> clusterState option" where
  "clusterRenameNode env s p newname =
     do { n \<leftarrow> cl_node_mem s p;
          (d, rc) \<leftarrow> dictDelete (clusterNodesDictType (be_seed env)) (cl_nodes s) (cn_name n);
          if rc \<noteq> DICT_OK then None
          else
            do { s \<leftarrow> set_node (s\<lparr>cl_nodes := d\<rparr>) p (\<lambda>n. n\<lparr>cn_name := newname\<rparr>);
                 (s, _) \<leftarrow> clusterAddNode env s p;
                 Some s } }"

section \<open>Messages out\<close>

text \<open>The packet of a message: the header carries the name of \<open>myself\<close> and the client port.\<close>

definition myself_name :: "clusterState \<Rightarrow> string option" where
  "myself_name s = do { p \<leftarrow> cl_myself s; n \<leftarrow> cl_node_mem s p; Some (cn_name n) }"

definition packet :: "busenv \<Rightarrow> clusterState \<Rightarrow> msg \<Rightarrow> string option" where
  "packet env s m = do { me \<leftarrow> myself_name s; Some (enc_msg me (be_port env) m) }"

definition clusterSendRequestVote :: "busenv \<Rightarrow> clusterState \<Rightarrow> clusterState option" where
  "clusterSendRequestVote env s =
     (let last_log_index = logCurrentIndex s;
          last_log_term = logCurrentTerm s;
          s = s\<lparr>cl_current_term := ll (cl_current_term s + 1)\<rparr>
      in do { me \<leftarrow> myself_name s;
              buf \<leftarrow> packet env s (RequestVote \<lparr>rv_term = cl_current_term s, rv_candidateid = me,
                       rv_last_log_index = last_log_index, rv_last_log_term = last_log_term\<rparr>);
              clusterBroadcastMessage env s buf })"

definition clusterSendResponseVote :: "busenv \<Rightarrow> clusterState \<Rightarrow> nat \<Rightarrow> int \<Rightarrow> clusterState option" where
  "clusterSendResponseVote env s link granted =
     do { buf \<leftarrow> packet env s (ResponseVote \<lparr>rvr_term = cl_current_term s, vote_granted = granted\<rparr>);
          clusterSendMessage env s link buf }"

definition clusterSendResponseAppendEntries :: "busenv \<Rightarrow> clusterState \<Rightarrow> nat \<Rightarrow> int \<Rightarrow> clusterState option" where
  "clusterSendResponseAppendEntries env s link ok =
     do { buf \<leftarrow> packet env s (ResponseAppendEntries \<lparr>aer_term = cl_current_term s, aer_index = logCurrentIndex s,
                   aer_commit_index = commit_index s, aer_ok = ok\<rparr>);
          clusterSendMessage env s link buf }"

text \<open>The entries from \<open>next_index\<close> on, at most \<open>log_max_entries_per_request\<close> of them; \<open>None\<close> when a
  command in the log has no terminator.\<close>

definition batch :: "clusterState \<Rightarrow> int \<Rightarrow> logEntryNode list option" where
  "batch s next_index =
     (if logCurrentIndex s \<ge> next_index then
        case getLogNode s next_index of
          None \<Rightarrow> Some []
        | Some k \<Rightarrow>
            let es = take (nat (cl_max_entries s)) (drop k (log_entries s)) in
            if list_all (\<lambda>e. terminated (log_entry e)) es \<and> length es \<le> PREZ_LOG_MAX_ENTRIES_PER_REQUEST
            then Some es else None
      else Some [])"

definition clusterSendAppendEntries :: "busenv \<Rightarrow> clusterState \<Rightarrow> nat \<Rightarrow> clusterState option" where
  "clusterSendAppendEntries env s link =
     do { l \<leftarrow> cl_link_mem s link;
          p \<leftarrow> lk_node l;
          n \<leftarrow> cl_node_mem s p;
          me \<leftarrow> myself_name s;
          let prev = ll (cn_next_index n - 1);
          es \<leftarrow> batch s (cn_next_index n);
          s \<leftarrow> set_node s p (\<lambda>n. n\<lparr>cn_last_sent_entry := (if es = [] then None else Some (last es))\<rparr>);
          buf \<leftarrow> packet env s (AppendEntries \<lparr>ae_term = cl_current_term s, ae_leaderid = me,
                   ae_prev_log_index = prev, ae_prev_log_term = logGetTerm s prev,
                   ae_leader_commit_index = commit_index s,
                   ae_log_entries_count = length es, ae_log_entries = map (copy_entry \<circ> log_entry) es\<rparr>);
          clusterSendMessage env s link buf }"

definition clusterSendHeartbeat :: "busenv \<Rightarrow> clusterState \<Rightarrow> nat \<Rightarrow> clusterState option" where
  "clusterSendHeartbeat env s link = clusterSendAppendEntries env s link"

section \<open>Messages in\<close>

text \<open>The length of a name as \<open>sdslen\<close> reads it, and whether \<open>sdscmp\<close> finds it different from a
  string with a header that contains no null byte.\<close>

definition name_len :: "busenv \<Rightarrow> name_ptr \<Rightarrow> nat" where
  "name_len env p = (case p of SdsName s \<Rightarrow> length s | ZName s \<Rightarrow> be_hdr env s)"

definition name_bytes :: "name_ptr \<Rightarrow> string" where
  "name_bytes p = (case p of SdsName s \<Rightarrow> s | ZName s \<Rightarrow> s @ [NUL])"

definition name_differs :: "busenv \<Rightarrow> name_ptr \<Rightarrow> string \<Rightarrow> bool" where
  "name_differs env p cand =
     (let l = min (name_len env p) (length cand) in
      take l (name_bytes p) \<noteq> take l cand \<or> name_len env p \<noteq> length cand)"

text \<open>What every handler does when it learns of a newer term.\<close>

definition step_down :: "clusterState \<Rightarrow> int \<Rightarrow> clusterState" where
  "step_down s t = s\<lparr>cl_state := PREZ_FOLLOWER, cl_current_term := t, cl_leader := SdsName [], cl_voted_for := SdsName []\<rparr>"

text \<open>\<open>None\<close> is a candidate name without a null byte: it is read past its end.\<close>

definition clusterProcessRequestVote :: "busenv \<Rightarrow> nat \<Rightarrow> clusterMsgDataRequestVote \<Rightarrow> clusterState \<Rightarrow> clusterState option" where
  "clusterProcessRequestVote env link vote s =
     (if strlen (rv_candidateid vote) \<ge> PREZ_CLUSTER_NAMELEN then None
      else
        let candidateid = cstr (rv_candidateid vote);
            deny_vote = (\<lambda>s. clusterSendResponseVote env s link DENY_VOTE);
            check_log = (\<lambda>s.
              if logCurrentIndex s > rv_last_log_index vote \<or> logCurrentTerm s > rv_last_log_term vote then deny_vote s
              else
                do { s \<leftarrow> clusterSendResponseVote env (s\<lparr>cl_voted_for := SdsName candidateid\<rparr>) link GRANT_VOTE;
                     let (now, s) = mstime env s;
                     Some (s\<lparr>cl_last_activity_time := now\<rparr>) })
        in if rv_term vote < cl_current_term s then deny_vote s
           else if rv_term vote > cl_current_term s then check_log (step_down s (rv_term vote))
           else if name_len env (cl_voted_for s) > 0 \<and> name_differs env (cl_voted_for s) candidateid then deny_vote s
           else check_log s)"

definition clusterProcessResponseVote :: "clusterMsgDataResponseVote \<Rightarrow> clusterState \<Rightarrow> clusterState" where
  "clusterProcessResponseVote vote s =
     (if vote_granted vote \<noteq> 0 \<and> rvr_term vote = cl_current_term s
      then s\<lparr>cl_votes_granted := c_int32 (cl_votes_granted s + 1)\<rparr>
      else if rvr_term vote > cl_current_term s then step_down s (rvr_term vote)
      else s)"

definition follow_leader :: "busenv \<Rightarrow> clusterMsgDataAppendEntries \<Rightarrow> clusterState \<Rightarrow> clusterState" where
  "follow_leader env e s =
     (let (now, s) = mstime env s;
          s = s\<lparr>cl_last_activity_time := now\<rparr>;
          name = ZName (cstr (ae_leaderid e))
      in if ae_term e = cl_current_term s
         then s\<lparr>cl_state := (if cl_state s = PREZ_CANDIDATE then PREZ_FOLLOWER else cl_state s), cl_leader := name\<rparr>
         else s\<lparr>cl_state := PREZ_FOLLOWER, cl_current_term := ae_term e, cl_leader := name, cl_voted_for := SdsName []\<rparr>)"

definition clusterProcessAppendEntries :: "busenv \<Rightarrow> nat \<Rightarrow> clusterMsgDataAppendEntries \<Rightarrow> clusterState \<Rightarrow> clusterState option" where
  "clusterProcessAppendEntries env link e s =
     (if ae_term e < cl_current_term s then clusterSendResponseAppendEntries env s link PREZ_ERR
      else if strlen (ae_leaderid e) \<ge> PREZ_CLUSTER_NAMELEN then None
      else
        let s = follow_leader env e s in
        do { rc \<leftarrow> logVerifyAppend s (ae_prev_log_index e) (ae_prev_log_term e);
             if rc \<noteq> 0 then clusterSendResponseAppendEntries env s link PREZ_ERR
             else
               do { (s, rc) \<leftarrow> logAppendEntries (be_os env) s e;
                    if rc \<noteq> 0 then clusterSendResponseAppendEntries env s link PREZ_ERR
                    else
                      let (s, rc) = logCommitIndex s (ae_leader_commit_index e) in
                      if rc \<noteq> 0 then clusterSendResponseAppendEntries env s link PREZ_ERR
                      else clusterSendResponseAppendEntries env s link PREZ_OK } })"

text \<open>\<open>last_sent_entry\<close> points into the log: it dangles once the entry was truncated away.\<close>

definition clusterProcessResponseAppendEntries :: "nat \<Rightarrow> clusterMsgDataResponseAppendEntries \<Rightarrow> clusterState \<Rightarrow> clusterState option" where
  "clusterProcessResponseAppendEntries link e s =
     do { l \<leftarrow> cl_link_mem s link;
          if aer_ok e = PREZ_OK then
            do { p \<leftarrow> lk_node l;
                 n \<leftarrow> cl_node_mem s p;
                 case cn_last_sent_entry n of
                   None \<Rightarrow> Some s
                 | Some en \<Rightarrow>
                     if en \<in> set (log_entries s) then
                       set_node s p (\<lambda>n. n\<lparr>cn_next_index := ll (le_index (log_entry en) + 1), cn_match_index := le_index (log_entry en)\<rparr>)
                     else None }
          else if aer_term e > cl_current_term s then Some (step_down s (aer_term e))
          else do { p \<leftarrow> lk_node l; set_node s p (\<lambda>n. n\<lparr>cn_next_index := ll (cn_next_index n - 1)\<rparr>) } }"

definition clusterProcessPacket :: "busenv \<Rightarrow> nat \<Rightarrow> clusterState \<Rightarrow> string \<Rightarrow> clusterState option" where
  "clusterProcessPacket env link s pkt =
     (let s = s\<lparr>cl_received := ll (cl_received s + 1)\<rparr> in
      case packet_msg pkt of
        None \<Rightarrow> Some s
      | Some (RequestVote v) \<Rightarrow> clusterProcessRequestVote env link v s
      | Some (AppendEntries e) \<Rightarrow> clusterProcessAppendEntries env link e s
      | Some (ResponseVote v) \<Rightarrow> Some (clusterProcessResponseVote v s)
      | Some (ResponseAppendEntries e) \<Rightarrow> clusterProcessResponseAppendEntries link e s)"

text \<open>The read handler of a link: the loop of \<^const>\<open>clusterReadHandler\<close> on its receive buffer.\<close>

definition clusterReadable :: "busenv \<Rightarrow> nat \<Rightarrow> bool \<Rightarrow> nat list \<Rightarrow> string \<Rightarrow> clusterState \<Rightarrow> (clusterState \<times> string) option" where
  "clusterReadable env link closed ks avail s =
     do { l \<leftarrow> cl_link_mem s link;
          (s, r, rest) \<leftarrow> clusterReadHandler (clusterProcessPacket env link) closed ks avail (lk_rcvbuf l) s;
          s \<leftarrow> (case r of
                 None \<Rightarrow> handleLinkIOError s link
               | Some rcv \<Rightarrow> do { l \<leftarrow> cl_link_mem s link; Some (s\<lparr>cl_link_mem := (cl_link_mem s)(link \<mapsto> l\<lparr>lk_rcvbuf := rcv\<rparr>)\<rparr>) });
          Some (s, rest) }"

section \<open>Commit index of a leader\<close>

definition compareIndices :: "int \<Rightarrow> int \<Rightarrow> int" where
  "compareIndices a b = c_int32 (a - b)"

text \<open>\<open>qsort\<close> with a comparison function.\<close>

fun insert_by :: "('a \<Rightarrow> 'a \<Rightarrow> int) \<Rightarrow> 'a \<Rightarrow> 'a list \<Rightarrow> 'a list" where
  "insert_by cmp x [] = [x]"
| "insert_by cmp x (y # ys) = (if cmp x y \<le> 0 then x # y # ys else y # insert_by cmp x ys)"

definition qsort :: "('a \<Rightarrow> 'a \<Rightarrow> int) \<Rightarrow> 'a list \<Rightarrow> 'a list" where
  "qsort cmp xs = foldr (insert_by cmp) xs []"

definition reverseIndices :: "int list \<Rightarrow> int list" where
  "reverseIndices xs =
     fold (\<lambda>i xs. let j = length xs - 1 - i; temp = xs ! j in xs[j := xs ! i, i := temp]) [0..<length xs div 2] xs"

fun match_indices :: "clusterState \<Rightarrow> nat list \<Rightarrow> int list option" where
  "match_indices s [] = Some []"
| "match_indices s (p # ps) = do { n \<leftarrow> cl_node_mem s p; ms \<leftarrow> match_indices s ps; Some (cn_match_index n # ms) }"

definition clusterUpdateCommitIndex :: "busenv \<Rightarrow> clusterState \<Rightarrow> clusterState option" where
  "clusterUpdateCommitIndex env s =
     do { (ps, s) \<leftarrow> visit_nodes True s;
          ms \<leftarrow> match_indices s ps;
          let log_indices = reverseIndices (qsort compareIndices ms);
          if quorumSize s - 1 \<ge> length log_indices then None
          else
            let ci = log_indices ! (quorumSize s - 1) in
            Some (if ci > commit_index s \<and> cl_current_term s = logGetTerm s ci then s\<lparr>commit_index := ci\<rparr> else s) }"

section \<open>The parts of the cron job\<close>

definition cron_reconnect :: "busenv \<Rightarrow> clusterState \<Rightarrow> clusterState option" where
  "cron_reconnect env s =
     do { (ps, s) \<leftarrow> visit_nodes True s;
          fold_opt (\<lambda>p s.
            do { n \<leftarrow> cl_node_mem s p;
                 if has_flag n PREZ_NODE_MYSELF \<or> has_flag n PREZ_NODE_NOADDR \<or> cn_link n \<noteq> None then Some s
                 else
                   let fd = be_connect env (cl_ticks s) (cstr (cn_ip n)) (cn_port n + PREZ_CLUSTER_PORT_INCR) in
                   if fd = -1 then Some (s\<lparr>cl_ticks := Suc (cl_ticks s)\<rparr>)
                   else
                     let (s, a) = createClusterLink env s (Some p);
                         s = s\<lparr>cl_link_mem := (cl_link_mem s)(a := map_option (\<lambda>l. l\<lparr>lk_fd := fd\<rparr>) (cl_link_mem s a))\<rparr>;
                         (now, s) = mstime env s
                     in set_node s p (\<lambda>n. n\<lparr>cn_link := Some a, cn_last_activity_time := now\<rparr>) }) ps s }"

text \<open>\<open>random() % election_timeout\<close> with a divisor that is zero is a fault.\<close>

definition cron_election :: "busenv \<Rightarrow> int \<Rightarrow> clusterState \<Rightarrow> clusterState option" where
  "cron_election env now s =
     (if cl_election_timeout s = 0 then None
      else
        let election_timeout = cl_election_timeout s + be_random env (cl_rnd s) mod cl_election_timeout s;
            s = s\<lparr>cl_rnd := Suc (cl_rnd s)\<rparr>
        in if cl_state s \<noteq> PREZ_LEADER \<and> now - cl_last_activity_time s > election_timeout then
             let (t, s) = mstime env s;
                 s = s\<lparr>cl_last_activity_time := t, cl_state := PREZ_CANDIDATE, cl_leader := SdsName [],
                       cl_voted_for := ZName (be_name env), cl_votes_granted := 1\<rparr>
             in clusterSendRequestVote env s
           else Some s)"

definition cron_candidate :: "busenv \<Rightarrow> clusterState \<Rightarrow> clusterState option" where
  "cron_candidate env s =
     (if cl_state s = PREZ_CANDIDATE \<and> ull (cl_votes_granted s) \<ge> quorumSize s then
        let s = s\<lparr>cl_state := PREZ_LEADER, cl_leader := ZName (be_name env)\<rparr>;
            last_log_index = logCurrentIndex s
        in do { (ps, s) \<leftarrow> visit_nodes False s;
                fold_opt (\<lambda>p s.
                  do { n \<leftarrow> cl_node_mem s p;
                       if has_flag n PREZ_NODE_MYSELF \<or> has_flag n PREZ_NODE_NOADDR then Some s
                       else set_node s p (\<lambda>n. n\<lparr>cn_next_index := ll (last_log_index + 1), cn_match_index := 0\<rparr>) }) ps s }
      else Some s)"

definition cron_leader :: "busenv \<Rightarrow> clusterState \<Rightarrow> clusterState option" where
  "cron_leader env s =
     (if cl_state s = PREZ_LEADER then
        do { s \<leftarrow> clusterUpdateCommitIndex env s;
             (ps, s) \<leftarrow> visit_nodes True s;
             fold_opt (\<lambda>p s.
               do { n \<leftarrow> cl_node_mem s p;
                    if has_flag n PREZ_NODE_MYSELF \<or> has_flag n PREZ_NODE_NOADDR then Some s
                    else case cn_link n of
                      None \<Rightarrow> Some s
                    | Some a \<Rightarrow>
                        let (t, s) = mstime env s in
                        if t - cn_last_activity_time n > cl_heartbeat_interval s then
                          let (t, s) = mstime env s in
                          do { s \<leftarrow> set_node s p (\<lambda>n. n\<lparr>cn_last_activity_time := t\<rparr>);
                               clusterSendHeartbeat env s a }
                        else Some s }) ps s }
      else Some s)"

section \<open>Configuration and start\<close>

text \<open>
  One line of the configuration file.  \<open>junk\<close> is the memory behind the first word, which is copied
  with forty bytes; the port is read two bytes after the colon.
\<close>

definition config_node :: "busenv \<Rightarrow> (nat \<Rightarrow> char) \<Rightarrow> string \<Rightarrow> clusterState \<Rightarrow> (clusterState \<times> nat) option" where
  "config_node env junk name s =
     do { (s, n) \<leftarrow> clusterLookupNode env s (memcpy40 junk name);
          case n of
            Some p \<Rightarrow> Some (s, p)
          | None \<Rightarrow>
              let (s, p) = createClusterNode env s junk (Some name) in
              do { (s, _) \<leftarrow> clusterAddNode env s p; Some (s, p) } }"

definition config_line :: "busenv \<Rightarrow> (nat \<Rightarrow> char) \<Rightarrow> string \<Rightarrow> clusterState \<Rightarrow> fault + clusterState" where
  "config_line env junk line s =
     (case sdssplitargs line of
        None \<Rightarrow> Inl (Exit 1)
      | Some [] \<Rightarrow> Inl Out_Of_Bounds
      | Some (name # args) \<Rightarrow>
          (case config_node env junk name s of
             None \<Rightarrow> Inl Null_Deref
           | Some (s, p) \<Rightarrow>
               let me = strcaseeq (cstr name) (be_name env);
                   s = (if me then s\<lparr>cl_myself := Some p\<rparr> else s)
               in (case args of
                    [] \<Rightarrow> Inl Out_Of_Bounds
                  | addr # _ \<Rightarrow>
                      let i = length (takeWhile (\<lambda>c. c \<noteq> CHR '':'') (cstr addr)) in
                      if i = strlen addr then Inl (Exit 1)
                      else if i \<ge> PREZ_IP_STR_LEN \<or> i + 2 > length addr then Inl Out_Of_Bounds
                      else
                        (case set_node s p (\<lambda>n. n\<lparr>cn_flags := (if me then cn_flags n OR PREZ_NODE_MYSELF else cn_flags n),
                                 cn_ip := take i addr @ NUL # drop (Suc i) (cn_ip n),
                                 cn_port := c_atoi (cstr (drop (i + 2) addr))\<rparr>) of
                           None \<Rightarrow> Inl Null_Deref
                         | Some s \<Rightarrow> Inr s))))"

lemma fgets_1024: "fgets 1024 f = Some (b, r) \<Longrightarrow> length r < length f"
  by (cases f) (auto simp: fgets_def Let_def numeral_eq_Suc)

function load_nodes :: "busenv \<Rightarrow> (nat \<Rightarrow> nat \<Rightarrow> char) \<Rightarrow> nat \<Rightarrow> string \<Rightarrow> clusterState \<Rightarrow> fault + clusterState" where
  "load_nodes env junk k f s =
     (case fgets 1024 f of
        None \<Rightarrow> Inr s
      | Some (line, f') \<Rightarrow>
          if hd line = LF then load_nodes env junk (Suc k) f' s
          else (case config_line env (junk k) line s of
                  Inl err \<Rightarrow> Inl err
                | Inr s \<Rightarrow> load_nodes env junk (Suc k) f' s))"
  by pat_completeness auto
termination
  by (relation "measure (\<lambda>(env, junk, k, f, s). length f)") (auto dest: fgets_1024)

declare load_nodes.simps [simp del]

text \<open>\<open>conf\<close> is the content of the file, \<open>None\<close> when there is no such file.\<close>

definition clusterLoadConfig :: "busenv \<Rightarrow> (nat \<Rightarrow> nat \<Rightarrow> char) \<Rightarrow> string option \<Rightarrow> clusterState \<Rightarrow> fault + (clusterState \<times> int)" where
  "clusterLoadConfig env junk conf s =
     (case conf of
        None \<Rightarrow> Inr (s, PREZ_ERR)
      | Some f \<Rightarrow>
          (case load_nodes env junk 0 f s of
             Inl err \<Rightarrow> Inl err
           | Inr s \<Rightarrow> if cl_myself s = None then Inl Assert_Failed else Inr (s, PREZ_OK)))"

definition initClusterConfig :: "clusterState \<Rightarrow> clusterState" where
  "initClusterConfig s =
     s\<lparr>cl_myself := None, cl_sent := 0, cl_received := 0, cl_election_timeout := 150, cl_heartbeat_interval := 10\<rparr>"

text \<open>\<open>listening\<close> says that the port of the bus could be opened; the log file is \<^const>\<open>log_file\<close>.\<close>

definition clusterInit :: "busenv \<Rightarrow> (nat \<Rightarrow> nat \<Rightarrow> char) \<Rightarrow> logEntry \<Rightarrow> bool \<Rightarrow> string option \<Rightarrow> clusterState \<Rightarrow> fault + clusterState" where
  "clusterInit env junk uninit listening conf s =
     (let s = s\<lparr>cl_nodes := dictCreate, cl_state := PREZ_FOLLOWER, cl_leader := SdsName [], cl_voted_for := SdsName [],
                cl_proc_clients := dictCreate, cl_current_term := 0, commit_index := 0, last_applied := 0,
                cl_votes_granted := 0, log_entries := [], cl_max_entries := int PREZ_LOG_MAX_ENTRIES_PER_REQUEST\<rparr>;
          (t, s) = mstime env s;
          s = s\<lparr>cl_last_activity_time := t\<rparr>
      in case clusterLoadConfig env junk conf s of
           Inl err \<Rightarrow> Inl err
         | Inr (s, rc) \<Rightarrow>
             (case (if rc = PREZ_ERR
                    then let (s, p) = createClusterNode env s (junk 0) None in
                         map_option fst (clusterAddNode env (s\<lparr>cl_myself := Some p\<rparr>) p)
                    else Some s) of
                None \<Rightarrow> Inl Null_Deref
              | Some s \<Rightarrow>
                  if \<not> listening then Inl (Exit 1)
                  else
                    (case do { p \<leftarrow> cl_myself s; set_node s p (\<lambda>n. n\<lparr>cn_port := be_port env\<rparr>) } of
                       None \<Rightarrow> Inl Null_Deref
                     | Some s \<Rightarrow>
                         (case loadLogFile (junk 0) uninit s of
                            Inl err \<Rightarrow> Inl err
                          | Inr s \<Rightarrow> Inr (s\<lparr>cl_current_term := logCurrentTerm s\<rparr>)))))"

section \<open>Sending\<close>

definition nodes_ok :: "busenv \<Rightarrow> clusterState \<Rightarrow> bool" where
  "nodes_ok env s \<longleftrightarrow> dict_ok (clusterNodesDictType (be_seed env)) (\<lambda>_. True) (cl_nodes s)"

text \<open>The bytes that wait on a link, and the part of a state that the election depends on.\<close>

definition sndbuf :: "clusterState \<Rightarrow> nat \<Rightarrow> string" where
  "sndbuf s a = (case cl_link_mem s a of None \<Rightarrow> [] | Some l \<Rightarrow> lk_sndbuf l)"

type_synonym ballot = "role \<times> int \<times> name_ptr \<times> int"

definition ballot :: "clusterState \<Rightarrow> ballot" where
  "ballot s = (cl_state s, cl_current_term s, cl_voted_for s, cl_votes_granted s)"

text \<open>A step that keeps the identity of the node and its table, and one that the election does not
  notice either.\<close>

definition same_id :: "clusterState \<Rightarrow> clusterState \<Rightarrow> bool" where
  "same_id s s' \<longleftrightarrow> same_tables (cl_nodes s) (cl_nodes s') \<and> iterators (cl_nodes s) \<le> iterators (cl_nodes s') \<and>
     cl_myself s' = cl_myself s \<and>
     (\<forall>p. map_option cn_name (cl_node_mem s' p) = map_option cn_name (cl_node_mem s p))"

definition quiet :: "clusterState \<Rightarrow> clusterState \<Rightarrow> bool" where
  "quiet s s' \<longleftrightarrow> ballot s' = ballot s \<and> same_id s s'"

lemma same_tables_refl [simp]: "same_tables d d"
  by (simp add: same_tables_def)

lemma same_id_refl: "same_id s s"
  by (simp add: same_id_def)

lemma same_id_trans: "same_id s t \<Longrightarrow> same_id t u \<Longrightarrow> same_id s u"
  by (simp add: same_id_def same_tables_def)

lemma same_id_nodes:
  assumes "same_id s s'"
  shows "nodes_ok env s \<Longrightarrow> nodes_ok env s'" "dictSize (cl_nodes s') = dictSize (cl_nodes s)" "dents (cl_nodes s') = dents (cl_nodes s)"
proof -
  show sz: "dictSize (cl_nodes s') = dictSize (cl_nodes s)" "dents (cl_nodes s') = dents (cl_nodes s)"
    using assms by (simp_all add: same_id_def same_tables_def dictSize_def dents_def)
  show "nodes_ok env s \<Longrightarrow> nodes_ok env s'"
    using assms sz unfolding nodes_ok_def dict_ok_def same_id_def same_tables_def by auto
qed

lemma quiet_refl: "quiet s s"
  by (simp add: quiet_def same_id_refl)

lemma quiet_trans: "quiet s t \<Longrightarrow> quiet t u \<Longrightarrow> quiet s u"
  using same_id_trans by (auto simp: quiet_def)

lemma same_id_name: "same_id s s' \<Longrightarrow> myself_name s' = myself_name s"
proof -
  have "myself_name s = Option.bind (cl_myself s) (\<lambda>p. map_option cn_name (cl_node_mem s p))" for s
    by (cases "cl_myself s") (auto simp: myself_name_def map_option_case split: option.splits)
  then show "same_id s s' \<Longrightarrow> myself_name s' = myself_name s" by (simp add: same_id_def)
qed

lemma visit_nodes_ok:
  assumes "nodes_ok env s"
  shows "\<exists>ps. visit_nodes r s = Some (ps, if r then s else s\<lparr>cl_nodes := cl_nodes s\<lparr>iterators := iterators (cl_nodes s) + 1\<rparr>\<rparr>) \<and>
    mset ps = image_mset snd (dents (cl_nodes s))"
proof -
  obtain es d it where e: "iterate_all (Suc (dictSize (cl_nodes s))) 0 0 (cl_nodes s) (dictGetSafeIterator 0) = Some (es, d, it)"
    "mset es = dents (cl_nodes s)" "dictReleaseIterator 0 0 d it = Some (cl_nodes s)"
    "d = cl_nodes s\<lparr>iterators := iterators (cl_nodes s) + 1\<rparr>"
    using iterate_release [OF assms [unfolded nodes_ok_def], of 0 0 True 0] unfolding if_True by blast
  then show ?thesis by (auto simp: visit_nodes_def simp del: iterate_all.simps)
qed

lemma send_effect:
  assumes "cl_link_mem s a = Some l"
  shows "\<exists>s'. clusterSendMessage env s a m = Some s' \<and> quiet s s' \<and> sndbuf s' = (sndbuf s)(a := sndbuf s a @ m) \<and>
    cl_node_mem s' = cl_node_mem s \<and> log_entries s' = log_entries s \<and> commit_index s' = commit_index s"
  using assms by (auto simp: clusterSendMessage_def quiet_def same_id_def ballot_def sndbuf_def fun_eq_iff)

section \<open>The vote\<close>

text \<open>When a node grants its vote, as the handler decides it.\<close>

definition vote_allowed :: "busenv \<Rightarrow> clusterMsgDataRequestVote \<Rightarrow> clusterState \<Rightarrow> bool" where
  "vote_allowed env v s \<longleftrightarrow> rv_term v \<ge> cl_current_term s \<and>
     (rv_term v = cl_current_term s \<longrightarrow>
        name_len env (cl_voted_for s) = 0 \<or> \<not> name_differs env (cl_voted_for s) (cstr (rv_candidateid v))) \<and>
     logCurrentIndex s \<le> rv_last_log_index v \<and> logCurrentTerm s \<le> rv_last_log_term v"

definition vote_reply :: "busenv \<Rightarrow> clusterMsgDataRequestVote \<Rightarrow> clusterState \<Rightarrow> msg" where
  "vote_reply env v s = ResponseVote \<lparr>rvr_term = max (cl_current_term s) (rv_term v),
     vote_granted = (if vote_allowed env v s then GRANT_VOTE else DENY_VOTE)\<rparr>"

definition after_vote :: "busenv \<Rightarrow> clusterMsgDataRequestVote \<Rightarrow> clusterState \<Rightarrow> ballot" where
  "after_vote env v s =
     (if rv_term v > cl_current_term s then PREZ_FOLLOWER else cl_state s,
      max (cl_current_term s) (rv_term v),
      if vote_allowed env v s then SdsName (cstr (rv_candidateid v))
      else if rv_term v > cl_current_term s then SdsName [] else cl_voted_for s,
      cl_votes_granted s)"

lemma send_vote:
  assumes "myself_name s = Some me" "cl_link_mem s a = Some l"
  shows "\<exists>s'. clusterSendResponseVote env s a g = Some s' \<and> quiet s s' \<and>
    sndbuf s' = (sndbuf s)(a := sndbuf s a @ enc_msg me (be_port env) (ResponseVote \<lparr>rvr_term = cl_current_term s, vote_granted = g\<rparr>)) \<and>
    log_entries s' = log_entries s \<and> commit_index s' = commit_index s"
proof -
  have "packet env s m = Some (enc_msg me (be_port env) m)" for m using assms(1) by (simp add: packet_def)
  then show ?thesis using send_effect [OF assms(2)] by (fastforce simp: clusterSendResponseVote_def)
qed

lemma step_down_simps [simp]:
  "cl_link_mem (step_down s t) = cl_link_mem s" "cl_node_mem (step_down s t) = cl_node_mem s"
  "log_entries (step_down s t) = log_entries s" "cl_current_term (step_down s t) = t"
  "commit_index (step_down s t) = commit_index s" "sndbuf (step_down s t) = sndbuf s"
  "logCurrentIndex (step_down s t) = logCurrentIndex s" "logCurrentTerm (step_down s t) = logCurrentTerm s"
  "cl_nodes (step_down s t) = cl_nodes s"
  "ballot (step_down s t) = (PREZ_FOLLOWER, t, SdsName [], cl_votes_granted s)" "same_id s (step_down s t)"
  by (simp_all add: step_down_def sndbuf_def logCurrentIndex_def logCurrentTerm_def ballot_def same_id_def fun_eq_iff)

lemma vote_grant:
  assumes "myself_name s = Some me" "cl_link_mem s a = Some l"
  shows "\<exists>s'. do { s \<leftarrow> clusterSendResponseVote env (s\<lparr>cl_voted_for := SdsName c\<rparr>) a GRANT_VOTE;
                  let (now, s) = mstime env s; Some (s\<lparr>cl_last_activity_time := now\<rparr>) } = Some s' \<and>
    ballot s' = (cl_state s, cl_current_term s, SdsName c, cl_votes_granted s) \<and> same_id s s' \<and>
    sndbuf s' = (sndbuf s)(a := sndbuf s a @ enc_msg me (be_port env) (ResponseVote \<lparr>rvr_term = cl_current_term s, vote_granted = GRANT_VOTE\<rparr>)) \<and>
    log_entries s' = log_entries s \<and> commit_index s' = commit_index s"
proof -
  let ?s = "s\<lparr>cl_voted_for := SdsName c\<rparr>"
  have "myself_name ?s = Some me" "cl_link_mem ?s a = Some l" using assms by (simp_all add: myself_name_def)
  from send_vote [OF this, of env GRANT_VOTE] obtain s1 where s1: "clusterSendResponseVote env ?s a GRANT_VOTE = Some s1" "quiet ?s s1"
    "sndbuf s1 = (sndbuf ?s)(a := sndbuf ?s a @ enc_msg me (be_port env) (ResponseVote \<lparr>rvr_term = cl_current_term ?s, vote_granted = GRANT_VOTE\<rparr>))"
    "log_entries s1 = log_entries ?s" "commit_index s1 = commit_index ?s" by blast
  let ?t = "s1\<lparr>cl_ticks := Suc (cl_ticks s1), cl_last_activity_time := be_mstime env (cl_ticks s1)\<rparr>"
  have "sndbuf ?t = sndbuf s1" "sndbuf ?s = sndbuf s" by (simp_all add: sndbuf_def fun_eq_iff)
  moreover have "ballot ?t = (cl_state s, cl_current_term s, SdsName c, cl_votes_granted s)" "same_id s ?t"
    using s1(2) by (simp_all add: quiet_def ballot_def same_id_def)
  ultimately show ?thesis using s1 by (simp add: mstime_def)
qed

lemma request_vote_effect:
  assumes "strlen (rv_candidateid v) < 40" "myself_name s = Some me" "cl_link_mem s a = Some l"
  shows "\<exists>s'. clusterProcessRequestVote env a v s = Some s' \<and> ballot s' = after_vote env v s \<and> same_id s s' \<and>
    sndbuf s' = (sndbuf s)(a := sndbuf s a @ enc_msg me (be_port env) (vote_reply env v s)) \<and>
    log_entries s' = log_entries s \<and> commit_index s' = commit_index s"
proof -
  let ?d = "step_down s (rv_term v)"
  have me: "myself_name ?d = Some me" using same_id_name [of s ?d] assms(2) by simp
  note deny = send_vote [OF assms(2,3), of env DENY_VOTE] send_vote [OF me, of a l env DENY_VOTE]
  note grant = vote_grant [OF assms(2,3), of env "cstr (rv_candidateid v)"] vote_grant [OF me, of a l env "cstr (rv_candidateid v)"]
  have bs: "ballot s = (cl_state s, cl_current_term s, cl_voted_for s, cl_votes_granted s)" by (simp add: ballot_def)
  have cd: "cl_state ?d = PREZ_FOLLOWER" "cl_votes_granted ?d = cl_votes_granted s" by (simp_all add: step_down_def)
  consider "rv_term v < cl_current_term s" | "rv_term v > cl_current_term s" | "rv_term v = cl_current_term s" by linarith
  then show ?thesis
  proof cases
    case 1
    then show ?thesis using deny(1) assms(1)
      by (auto simp: clusterProcessRequestVote_def Let_def after_vote_def vote_reply_def vote_allowed_def quiet_def bs)
  next
    case 2
    then show ?thesis using deny(2) grant(2) assms(1,3) same_id_trans [of s ?d]
      by (cases "vote_allowed env v s")
        (force simp: clusterProcessRequestVote_def Let_def after_vote_def vote_reply_def vote_allowed_def quiet_def cd)+
  next
    case 3
    then show ?thesis using deny(1) grant(1) assms(1)
      by (cases "vote_allowed env v s")
        (force simp: clusterProcessRequestVote_def Let_def after_vote_def vote_reply_def vote_allowed_def quiet_def bs)+
  qed
qed

section \<open>The commit index\<close>

lemma reverse_prefix:
  fixes xs :: "int list"
  assumes "k \<le> length xs div 2"
  defines "f \<equiv> \<lambda>i (xs :: int list). let j = length xs - 1 - i; temp = xs ! j in xs[j := xs ! i, i := temp]"
  shows "length (fold f [0..<k] xs) = length xs \<and>
    (\<forall>j < length xs. fold f [0..<k] xs ! j = (if j < k \<or> length xs - k \<le> j then xs ! (length xs - 1 - j) else xs ! j))"
  using assms(1)
proof (induction k)
  case (Suc k)
  let ?y = "fold f [0..<k] xs"
  have y: "length ?y = length xs" "\<And>j. j < length xs \<Longrightarrow> ?y ! j = (if j < k \<or> length xs - k \<le> j then xs ! (length xs - 1 - j) else xs ! j)"
    using Suc by auto
  have k: "k < length xs - 1 - k" "length xs - 1 - k < length xs - k" using Suc.prems by auto
  have "f i zs = zs[length zs - 1 - i := zs ! i, i := zs ! (length zs - 1 - i)]" for i zs by (simp add: f_def Let_def)
  then have st: "fold f [0..<Suc k] xs = ?y[length xs - 1 - k := ?y ! k, k := ?y ! (length xs - 1 - k)]"
    using y(1) by simp
  have v: "?y ! k = xs ! k" "?y ! (length xs - 1 - k) = xs ! (length xs - 1 - k)" using y(2) [of k] y(2) [of "length xs - 1 - k"] k by auto
  have "?y[length xs - 1 - k := xs ! k, k := xs ! (length xs - 1 - k)] ! j =
      (if j < Suc k \<or> length xs - Suc k \<le> j then xs ! (length xs - 1 - j) else xs ! j)" if "j < length xs" for j
  proof -
    consider "j = k" | "j = length xs - 1 - k" | "j \<noteq> k" "j \<noteq> length xs - 1 - k" by blast
    then show ?thesis
    proof cases
      case 2
      with k have "j \<noteq> k" "length xs - 1 - j = k" by auto
      with 2 k y(1) show ?thesis by simp
    next
      case 3
      then have "(j < Suc k \<or> length xs - Suc k \<le> j) = (j < k \<or> length xs - k \<le> j)" using that by auto
      with 3 y that show ?thesis by simp
    qed (use k y(1) in simp)
  qed
  with y(1) show ?case unfolding st v by simp
qed simp

lemma reverseIndices_rev: "reverseIndices xs = rev xs"
proof (rule nth_equalityI)
  note r = reverse_prefix [of "length xs div 2" xs]
  show "length (reverseIndices xs) = length (rev xs)" using r by (simp add: reverseIndices_def)
  fix j assume "j < length (reverseIndices xs)"
  then have j: "j < length xs" using r by (simp add: reverseIndices_def)
  then have "reverseIndices xs ! j =
      (if j < length xs div 2 \<or> length xs - length xs div 2 \<le> j then xs ! (length xs - 1 - j) else xs ! j)"
    using r unfolding reverseIndices_def by blast
  moreover have "\<not> (j < length xs div 2 \<or> length xs - length xs div 2 \<le> j) \<Longrightarrow> length xs - 1 - j = j" by arith
  ultimately show "reverseIndices xs ! j = rev xs ! j" using j by (auto simp: rev_nth)
qed

text \<open>Indices whose differences fit an \<open>int\<close>, so that the comparison tells their order.\<close>

definition index_range :: "int \<Rightarrow> bool" where
  "index_range i \<longleftrightarrow> 0 \<le> i \<and> i < 2147483648"

lemma compareIndices_le: "index_range a \<Longrightarrow> index_range b \<Longrightarrow> compareIndices a b \<le> 0 \<longleftrightarrow> a \<le> b"
  by (simp add: compareIndices_def index_range_def c_int32_id)

lemma insert_by_sorted:
  assumes "\<forall>y \<in> set ys. index_range y" "index_range x" "sorted ys"
  shows "sorted (insert_by compareIndices x ys) \<and> mset (insert_by compareIndices x ys) = add_mset x (mset ys)"
  using assms
proof (induction ys)
  case (Cons y ys)
  then have "set (insert_by compareIndices x ys) = insert x (set ys)" by (metis list.set_intros(2) set_mset_add_mset_insert set_mset_mset sorted_simps(2))
  with Cons show ?case by (auto simp: compareIndices_le)
qed simp

lemma qsort_sorted:
  assumes "\<forall>x \<in> set xs. index_range x"
  shows "sorted (qsort compareIndices xs) \<and> mset (qsort compareIndices xs) = mset xs"
  using assms
proof (induction xs)
  case (Cons x xs)
  then have "sorted (qsort compareIndices xs)" and m: "mset (qsort compareIndices xs) = mset xs" by auto
  moreover have "set (qsort compareIndices xs) = set xs" using m by (metis set_mset_mset)
  ultimately show ?case using insert_by_sorted [of "qsort compareIndices xs" x] Cons.prems by (simp add: qsort_def)
qed (simp add: qsort_def)

lemma desc_count:
  assumes "sorted_wrt (\<ge>) (D :: int list)" "i < length D"
  shows "Suc i \<le> length (filter (\<lambda>x. D ! i \<le> x) D)" "D ! i < n \<Longrightarrow> length (filter (\<lambda>x. n \<le> x) D) \<le> i"
proof -
  have le: "j \<le> k \<Longrightarrow> k < length D \<Longrightarrow> D ! k \<le> D ! j" for j k
    using sorted_wrt_nth_less [OF assms(1), of j k] by (cases "j = k") auto
  have sp: "length (filter P D) = length (filter P (take k D)) + length (filter P (drop k D))" for P k
    by (metis append_take_drop_id filter_append length_append)
  have "\<forall>x \<in> set (take (Suc i) D). D ! i \<le> x"
    using le assms(2) by (auto simp: in_set_conv_nth)
  then have "filter (\<lambda>x. D ! i \<le> x) (take (Suc i) D) = take (Suc i) D" by simp
  then show "Suc i \<le> length (filter (\<lambda>x. D ! i \<le> x) D)" using sp [of _ "Suc i"] assms(2) by simp
  assume n: "D ! i < n"
  have "\<forall>x \<in> set (drop i D). \<not> n \<le> x"
  proof
    fix x assume "x \<in> set (drop i D)"
    then obtain j where "j < length D - i" "x = D ! (i + j)" by (auto simp: in_set_conv_nth)
    then show "\<not> n \<le> x" using le [of i "i + j"] n by (simp add: less_diff_conv add.commute)
  qed
  then have "filter (\<lambda>x. n \<le> x) (drop i D) = []" by simp
  then show "length (filter (\<lambda>x. n \<le> x) D) \<le> i"
    using sp [of _ i] length_filter_le [of "\<lambda>x. n \<le> x" "take i D"] by simp
qed

definition match_of :: "clusterState \<Rightarrow> int multiset" where
  "match_of s = image_mset (\<lambda>e. case cl_node_mem s (snd e) of Some n \<Rightarrow> cn_match_index n | None \<Rightarrow> 0) (dents (cl_nodes s))"

definition nodes_live :: "clusterState \<Rightarrow> bool" where
  "nodes_live s \<longleftrightarrow> dents (cl_nodes s) \<noteq> {#} \<and> (\<forall>e \<in># dents (cl_nodes s). cl_node_mem s (snd e) \<noteq> None)"

lemma match_indices_ok:
  "(\<And>p. p \<in> set ps \<Longrightarrow> cl_node_mem s p \<noteq> None) \<Longrightarrow>
   match_indices s ps = Some (map (\<lambda>p. case cl_node_mem s p of Some n \<Rightarrow> cn_match_index n | None \<Rightarrow> 0) ps)"
  by (induction ps) force+

lemma nodes_size: "nodes_ok env s \<Longrightarrow> size (dents (cl_nodes s)) = dictSize (cl_nodes s)"
  using ht_ok_used [of _ _ "ht0 (cl_nodes s)"] ht_ok_used [of _ _ "ht1 (cl_nodes s)"]
  by (auto simp: nodes_ok_def dict_ok_def dictSize_def dents_def)

text \<open>
  C2: the commit rule.  On a table of live nodes the update never faults, and the index it considers
  is the largest one that more than half of the match indices have reached; it becomes the commit index
  exactly when it is above the old one and its entry is of the current term.  Nothing else changes.
\<close>

theorem commit_rule:
  assumes ok: "nodes_ok env s" and live: "nodes_live s" and small: "\<forall>m \<in># match_of s. index_range m"
  shows "\<exists>ci. clusterUpdateCommitIndex env s =
      Some (if ci > commit_index s \<and> cl_current_term s = logGetTerm s ci then s\<lparr>commit_index := ci\<rparr> else s) \<and>
    size (match_of s) < 2 * size (filter_mset (\<lambda>m. ci \<le> m) (match_of s)) \<and>
    (\<forall>n. size (match_of s) < 2 * size (filter_mset (\<lambda>m. n \<le> m) (match_of s)) \<longrightarrow> n \<le> ci)"
proof -
  obtain ps where ps: "visit_nodes True s = Some (ps, s)" "mset ps = image_mset snd (dents (cl_nodes s))"
    using visit_nodes_ok [OF ok, of True] by auto
  let ?g = "\<lambda>p. case cl_node_mem s p of Some n \<Rightarrow> cn_match_index n | None \<Rightarrow> 0"
  let ?ms = "map ?g ps"
  have "set ps = snd ` set_mset (dents (cl_nodes s))" using ps(2) by (metis set_image_mset set_mset_mset)
  then have mi: "match_indices s ps = Some ?ms" using match_indices_ok [of ps s] live by (auto simp: nodes_live_def)
  have mm: "mset ?ms = match_of s" using ps(2) by (simp add: match_of_def image_mset.compositionality comp_def)
  define D where "D = reverseIndices (qsort compareIndices ?ms)"
  have "\<forall>x \<in> set ?ms. index_range x" using small mm by (metis set_mset_mset)
  from qsort_sorted [OF this, unfolded mm] have D: "sorted_wrt (\<ge>) D" "mset D = match_of s"
    unfolding D_def reverseIndices_rev by (auto simp: sorted_wrt_rev)
  have sz: "size (match_of s) = dictSize (cl_nodes s)" using nodes_size [OF ok] by (simp add: match_of_def)
  then have maj: "size (match_of s) < 2 * n \<longleftrightarrow> quorumSize s \<le> n" for n by (auto simp: quorumSize_def)
  note sz moreover have "0 < size (match_of s)" using live by (simp add: match_of_def nodes_live_def nonempty_has_size)
  ultimately have q: "quorumSize s - 1 < length D" "Suc (quorumSize s - 1) = quorumSize s"
    using D(2) by (auto simp: quorumSize_def size_mset [symmetric])
  have cnt: "length (filter P D) = size (filter_mset P (match_of s))" for P using D(2) by (metis mset_filter size_mset)
  let ?ci = "D ! (quorumSize s - 1)"
  have "clusterUpdateCommitIndex env s =
      Some (if ?ci > commit_index s \<and> cl_current_term s = logGetTerm s ?ci then s\<lparr>commit_index := ?ci\<rparr> else s)"
    using q(1) by (simp add: clusterUpdateCommitIndex_def ps(1) mi D_def [symmetric] Let_def)
  moreover have "n \<le> ?ci" if "quorumSize s \<le> size (filter_mset (\<lambda>m. n \<le> m) (match_of s))" for n
    using desc_count(2) [OF D(1) q(1), of n, unfolded cnt] that q(2) by linarith
  ultimately show ?thesis using desc_count(1) [OF D(1) q(1), unfolded q(2) cnt] unfolding maj by blast
qed

section \<open>A small cluster\<close>

lemma table_exists:
  "distinct (map fst kvs) \<Longrightarrow> length kvs < 1000 \<Longrightarrow>
   \<exists>d :: (string, 'v) dict. dict_ok (clusterNodesDictType seed) (\<lambda>_. True) d \<and> dents d = mset kvs"
proof (induction kvs)
  case Nil
  have "dents dictCreate = {#}" by (simp add: dictCreate_def dictReset_def dents_def ents_def)
  then show ?case using dict_ok_create by force
next
  case (Cons e kvs)
  then obtain d :: "(string, 'v) dict" where d: "dict_ok (dbDictType seed) (\<lambda>_. True) d" "dents d = mset kvs"
    by (auto simp: nodes_type_eq)
  have "dict_map (dbDictType seed) d (fst e) = None"
  proof -
    have s: "set (table_list (ht0 d) @ table_list (ht1 d)) = set kvs" using mset_table_list [of d] d(2) by (metis set_mset_mset)
    have "List.find (\<lambda>x. dictCompareKeys (dbDictType seed) (fst e) (fst x)) (table_list (ht0 d) @ table_list (ht1 d)) = None"
      unfolding find_None_iff s using Cons.prems(1) by (auto simp: rev_image_eqI)
    then show ?thesis by (simp add: dict_map_def)
  qed
  then obtain d' where "dict_ok (dbDictType seed) (\<lambda>_. True) d'" "dents d' = add_mset e (mset kvs)"
    using dbt.dictAdd_ok [OF d(1) TrueI, of True "snd e" "fst e" "snd e"] d(2) Cons.prems(2) by auto
  then show ?case by (auto simp: nodes_type_eq)
qed

text \<open>Three servers whose tables agree; the first has a link to the second and the others one to the first.\<close>

definition demo_env :: "string \<Rightarrow> busenv" where
  "demo_env nm = \<lparr>be_os = os_ideal, be_seed = 5381, be_can = True, be_mstime = (\<lambda>_. 1000), be_random = (\<lambda>_. 7),
     be_connect = (\<lambda>_ _ _. 5), be_event = (\<lambda>_. True), be_hdr = (\<lambda>n. Suc (length n)),
     be_uninit = (\<lambda>_. \<lparr>cn_name = [], cn_flags = 0, cn_last_activity_time = 0, cn_last_sent_entry = None,
        cn_next_index = 0, cn_match_index = 0, cn_ip = [], cn_port = 0, cn_link = None\<rparr>),
     be_hex = replicate 40 (CHR ''f''), be_name = nm, be_port = 7000\<rparr>"

definition demo_node :: "string \<Rightarrow> nat \<Rightarrow> nat option \<Rightarrow> clusterNode" where
  "demo_node nm fl link = \<lparr>cn_name = char_array 40 nm, cn_flags = fl, cn_last_activity_time = 0, cn_last_sent_entry = None,
        cn_next_index = 0, cn_match_index = 0, cn_ip = [], cn_port = 0, cn_link = link\<rparr>"

definition demo_mem :: "nat \<Rightarrow> nat \<Rightarrow> clusterNode option" where
  "demo_mem me = [0 \<mapsto> demo_node ''a'' (if me = 0 then 16 else 0) None,
     1 \<mapsto> demo_node ''b'' (if me = 1 then 16 else 0) (if me = 0 then Some 3 else None),
     2 \<mapsto> demo_node ''c'' (if me = 2 then 16 else 0) None]"

definition demo_link :: "nat \<Rightarrow> clusterLink" where
  "demo_link me = \<lparr>lk_fd = 9, lk_sndbuf = [], lk_rcvbuf = [], lk_node = (if me = 0 then Some 1 else None), lk_writable = False\<rparr>"

definition demo_server :: "(string, nat) dict \<Rightarrow> nat \<Rightarrow> clusterState" where
  "demo_server d me =
     \<lparr>log_entries = [], log_file = [], log_current_size = 0, commit_index = 0, last_applied = 0,
      cl_myself = Some me, cl_nodes = d, cl_state = PREZ_FOLLOWER, cl_leader = SdsName [], cl_voted_for = SdsName [],
      cl_votes_granted = 0, cl_election_timeout = 150, cl_heartbeat_interval = 10, cl_last_activity_time = 0,
      cl_proc_clients = dictCreate, cl_current_term = 0, cl_max_entries = 50, cl_sent = 0, cl_received = 0,
      cl_node_mem = demo_mem me, cl_link_mem = [3 \<mapsto> demo_link me], cl_fresh = 4, cl_ticks = 0, cl_rnd = 0\<rparr>"

definition demo_table :: "(string, nat) dict \<Rightarrow> bool" where
  "demo_table d \<longleftrightarrow> dict_ok (clusterNodesDictType 5381) (\<lambda>_. True) d \<and>
     dents d = mset [(char_array 40 ''a'', 0), (char_array 40 ''b'', 1), (char_array 40 ''c'', 2)]"

lemma demo_table_ex: "\<exists>d. demo_table d"
  unfolding demo_table_def by (rule table_exists) (simp_all add: char_array_def)

lemma demo_name: "myself_name (demo_server d me) = Some (char_array 40 (if me = 0 then ''a'' else if me = 1 then ''b'' else ''c''))"
  if "me < 3"
  using that by (auto simp: myself_name_def demo_server_def demo_mem_def demo_node_def)

text \<open>
  C3: the vote of a server.  A request with a terminated candidate name is always answered, on the
  link it came from, with the later of the two terms; the vote is granted exactly when the request
  is not of an old term, no other candidate has the vote of that term, and neither the index nor the
  term of the voter's last entry is above the candidate's.  A granted vote is remembered, a later
  term makes the server a follower, and the log and the commit index stay.
\<close>

theorem request_vote_rule:
  assumes "strlen (rv_candidateid v) < 40" "myself_name s = Some me" "cl_link_mem s a = Some l"
  shows "\<exists>s'. clusterProcessRequestVote env a v s = Some s' \<and>
    sndbuf s' = (sndbuf s)(a := sndbuf s a @ enc_msg me (be_port env) (ResponseVote \<lparr>rvr_term = max (cl_current_term s) (rv_term v),
      vote_granted = (if vote_allowed env v s then GRANT_VOTE else DENY_VOTE)\<rparr>)) \<and>
    cl_current_term s' = max (cl_current_term s) (rv_term v) \<and>
    cl_state s' = (if rv_term v > cl_current_term s then PREZ_FOLLOWER else cl_state s) \<and>
    cl_voted_for s' = (if vote_allowed env v s then SdsName (cstr (rv_candidateid v))
      else if rv_term v > cl_current_term s then SdsName [] else cl_voted_for s) \<and>
    log_entries s' = log_entries s \<and> commit_index s' = commit_index s"
  using request_vote_effect [OF assms, of env] by (auto simp: after_vote_def vote_reply_def ballot_def)

text \<open>A vote of term 1 is kept from a second candidate.\<close>

definition voted_server :: clusterState where
  "voted_server = (demo_server dictCreate 1)\<lparr>cl_current_term := 1, cl_voted_for := SdsName ''a''\<rparr>"

theorem request_vote_rule_witness:
  "\<exists>s'. clusterProcessRequestVote (demo_env ''b'') 3 \<lparr>rv_term = 1, rv_candidateid = char_array 40 ''c'', rv_last_log_index = 0, rv_last_log_term = 0\<rparr>
      voted_server = Some s' \<and> cl_voted_for s' = SdsName ''a'' \<and>
    sndbuf s' 3 = enc_msg (char_array 40 ''b'') 7000 (ResponseVote \<lparr>rvr_term = 1, vote_granted = DENY_VOTE\<rparr>)"
proof -
  let ?v = "\<lparr>rv_term = 1, rv_candidateid = char_array 40 ''c'', rv_last_log_index = 0, rv_last_log_term = 0\<rparr>"
  have c: "cstr (char_array 40 ''c'') = ''c''" by (simp add: cstr_char_array)
  have m: "myself_name voted_server = Some (char_array 40 ''b'')"
    using demo_name [of 1 dictCreate] by (simp add: myself_name_def voted_server_def)
  have l: "cl_link_mem voted_server 3 = Some (demo_link 1)" by (simp add: voted_server_def demo_server_def)
  have "\<not> vote_allowed (demo_env ''b'') ?v voted_server"
    by (simp add: vote_allowed_def voted_server_def c name_len_def name_differs_def name_bytes_def)
  moreover have "cl_current_term voted_server = 1" "cl_voted_for voted_server = SdsName ''a''" "sndbuf voted_server 3 = []"
    "be_port (demo_env ''b'') = 7000" by (simp_all add: voted_server_def sndbuf_def demo_server_def demo_link_def demo_env_def)
  ultimately show ?thesis
    using request_vote_rule [OF _ m l, of ?v "demo_env ''b''"] by (auto simp: c strlen_def)
qed

text \<open>A leader of term 1 with two entries, of which the followers have two and one.\<close>

definition leading_server :: "(string, nat) dict \<Rightarrow> clusterState" where
  "leading_server d = (demo_server d 0)\<lparr>cl_state := PREZ_LEADER, cl_current_term := 1,
     log_entries := map (\<lambda>i. \<lparr>log_entry = \<lparr>le_index = i, le_term = 1, le_commandName = [], le_command = []\<rparr>, position = 0\<rparr>) [1, 2],
     cl_node_mem := [0 \<mapsto> demo_node ''a'' 16 None, 1 \<mapsto> demo_node ''b'' 0 None\<lparr>cn_match_index := 2\<rparr>,
       2 \<mapsto> demo_node ''c'' 0 None\<lparr>cn_match_index := 1\<rparr>]\<rparr>"

theorem commit_rule_witness:
  "\<exists>d. demo_table d \<and>
     clusterUpdateCommitIndex (demo_env ''a'') (leading_server d) = Some ((leading_server d)\<lparr>commit_index := 1\<rparr>)"
proof -
  obtain d where d: "demo_table d" using demo_table_ex by blast
  let ?s = "leading_server d"
  have ok: "nodes_ok (demo_env ''a'') ?s" using d by (simp add: nodes_ok_def demo_table_def leading_server_def demo_server_def demo_env_def)
  have live: "nodes_live ?s" using d by (simp add: nodes_live_def demo_table_def leading_server_def demo_server_def)
  have ms: "match_of ?s = {#0, 2, 1#}" using d
    by (simp add: match_of_def demo_table_def leading_server_def demo_server_def demo_node_def)
  have "\<forall>m \<in># match_of ?s. index_range m" by (simp add: ms index_range_def)
  from commit_rule [OF ok live this] obtain ci where ci: "clusterUpdateCommitIndex (demo_env ''a'') ?s =
      Some (if ci > commit_index ?s \<and> cl_current_term ?s = logGetTerm ?s ci then ?s\<lparr>commit_index := ci\<rparr> else ?s)"
    "size {#0 :: int, 2, 1#} < 2 * size (filter_mset (\<lambda>m. ci \<le> m) {#0, 2, 1#})"
    "\<forall>n. size {#0 :: int, 2, 1#} < 2 * size (filter_mset (\<lambda>m. n \<le> m) {#0, 2, 1#}) \<longrightarrow> n \<le> ci" unfolding ms by blast
  from ci(3) [rule_format, of 1] have "1 \<le> ci" by simp
  with ci(2) have "ci = 1" by (simp split: if_splits)
  moreover have "logGetTerm ?s 1 = 1" "commit_index ?s = 0" "cl_current_term ?s = 1"
    by (simp_all add: logGetTerm_def getLogNode_def logLength_def list_index_def ll_def leading_server_def demo_server_def)
  ultimately show ?thesis using ci(1) d by auto
qed

end
