(* ===== verification/Prez_Ballot.thy ===== *)
theory Prez_Ballot
  imports Prez_Cluster
begin

text \<open>
  What each step of a cluster node does to the part of its state that an election depends on
  (role, term, vote and number of votes) and to the send buffers of its links.  Most steps are
  \<^emph>\<open>quiet\<close>: they leave that part and the table of nodes alone.
\<close>

section \<open>What the other steps do to the ballot\<close>

text \<open>The writes of the log touch the log only.\<close>

definition log_step :: "clusterState \<Rightarrow> clusterState \<Rightarrow> bool" where
  "log_step s s' \<longleftrightarrow> logState.more s' = logState.more s \<and> commit_index s' = commit_index s \<and> last_applied s' = last_applied s"

lemma log_step_refl: "log_step s s"
  by (simp add: log_step_def)

lemma log_step_trans: "log_step s t \<Longrightarrow> log_step t u \<Longrightarrow> log_step s u"
  by (simp add: log_step_def)

lemma log_step_persist: "log_persist env s e = Some s' \<Longrightarrow> log_step s s'"
  by (auto simp: log_persist_def log_step_def bind_eq_Some_conv Let_def split: if_splits)

lemma log_step_truncate: "logTruncate env s i = Some s' \<Longrightarrow> log_step s s'"
  by (auto simp: logTruncate_def log_step_def bind_eq_Some_conv Let_def split: if_splits)

lemma log_step_fields:
  assumes "log_step s s'"
  shows "ballot s' = ballot s" "same_id s s'" "sndbuf s' = sndbuf s" "cl_link_mem s' = cl_link_mem s" "cl_node_mem s' = cl_node_mem s"
proof -
  have eq: "s' = s\<lparr>log_entries := log_entries s', log_file := log_file s', log_current_size := log_current_size s'\<rparr>"
    by (rule logState.equality) (use assms in \<open>simp_all add: log_step_def\<close>)
  show "ballot s' = ballot s" "same_id s s'" "sndbuf s' = sndbuf s" "cl_link_mem s' = cl_link_mem s" "cl_node_mem s' = cl_node_mem s"
    by (subst eq, simp add: ballot_def same_id_def sndbuf_def fun_eq_iff)+
qed

lemma log_step_write:
  assumes "logWriteEntry env s e = Some (s', rc)"
  shows "log_step s s'"
proof -
  consider "s' = s" | s1 where "s1 = s \<or> logTruncate env s (le_index e) = Some s1" "log_persist env s1 e = Some s'"
    using assms by (auto simp: logWriteEntry_def bind_eq_Some_conv split: option.splits if_splits)
  then show ?thesis
  proof cases
    case (2 s1)
    then have "log_step s s1" using log_step_truncate log_step_refl by blast
    with 2(2) show ?thesis using log_step_persist log_step_trans by blast
  qed (simp add: log_step_refl)
qed

lemma log_step_loop: "logAppend_loop env s n es = Some (s', rc) \<Longrightarrow> log_step s s'"
proof (induction n arbitrary: s es)
  case (Suc n)
  then obtain e es' s1 rc1 where w: "logWriteEntry env s e = Some (s1, rc1)"
    "s' = s1 \<or> logAppend_loop env s1 n es' = Some (s', rc)"
    by (cases es) (auto simp: bind_eq_Some_conv split: if_splits)
  from w(2) Suc.IH have "log_step s1 s'" using log_step_refl by blast
  with log_step_write [OF w(1)] show ?case by (rule log_step_trans)
qed (simp add: log_step_refl)

lemma log_step_append: "logAppendEntries env s m = Some (s', rc) \<Longrightarrow> log_step s s'"
  using log_step_loop by (auto simp: logAppendEntries_def bind_eq_Some_conv split: if_splits)

lemma quiet_log_step: "log_step s s' \<Longrightarrow> quiet s s'"
  by (simp add: quiet_def log_step_fields)

text \<open>The bytes a step appends to the send buffer of a link.\<close>

definition new_bytes :: "clusterState \<Rightarrow> clusterState \<Rightarrow> nat \<Rightarrow> string" where
  "new_bytes s s' a = drop (length (sndbuf s a)) (sndbuf s' a)"

lemma send_append_reply:
  assumes "clusterSendResponseAppendEntries env s a ok = Some s'"
  shows "quiet s s' \<and> (\<exists>me r. myself_name s = Some me \<and>
    sndbuf s' = (sndbuf s)(a := sndbuf s a @ enc_msg me (be_port env) (ResponseAppendEntries r)))"
proof -
  obtain me buf where b: "myself_name s = Some me" "clusterSendMessage env s a buf = Some s'"
    "\<exists>r. buf = enc_msg me (be_port env) (ResponseAppendEntries r)"
    using assms by (auto simp: clusterSendResponseAppendEntries_def packet_def bind_eq_Some_conv)
  then obtain l where "cl_link_mem s a = Some l" by (auto simp: clusterSendMessage_def bind_eq_Some_conv)
  from send_effect [OF this, of env buf] b show ?thesis by auto
qed

text \<open>The ballot after a term was seen in AppendEntries.\<close>

definition seen_term :: "int \<Rightarrow> clusterState \<Rightarrow> ballot" where
  "seen_term t s =
     (if t < cl_current_term s then ballot s
      else if t = cl_current_term s then
        (if cl_state s = PREZ_CANDIDATE then PREZ_FOLLOWER else cl_state s, t, cl_voted_for s, cl_votes_granted s)
      else (PREZ_FOLLOWER, t, SdsName [], cl_votes_granted s))"

lemma append_entries_effect:
  assumes "clusterProcessAppendEntries env a e s = Some s'"
  shows "ballot s' = seen_term (ae_term e) s \<and> same_id s s' \<and> (\<exists>me r. myself_name s = Some me \<and>
    sndbuf s' = (sndbuf s)(a := sndbuf s a @ enc_msg me (be_port env) (ResponseAppendEntries r)))"
proof (cases "ae_term e < cl_current_term s")
  case True
  with assms have "clusterSendResponseAppendEntries env s a PREZ_ERR = Some s'"
    by (simp add: clusterProcessAppendEntries_def)
  from send_append_reply [OF this] True show ?thesis by (auto simp: quiet_def seen_term_def)
next
  case False
  define s1 where "s1 = follow_leader env e s"
  have s1: "ballot s1 = seen_term (ae_term e) s" "same_id s s1" "sndbuf s1 = sndbuf s"
    using False by (auto simp: s1_def follow_leader_def mstime_def Let_def seen_term_def ballot_def same_id_def sndbuf_def fun_eq_iff)
  have commit: "quiet t (fst (logCommitIndex t c))" "sndbuf (fst (logCommitIndex t c)) = sndbuf t"
    "snd (logCommitIndex t c) = 0" for t :: clusterState and c
    by (auto simp: logCommitIndex_def quiet_def ballot_def same_id_def sndbuf_def fun_eq_iff)
  consider "clusterSendResponseAppendEntries env s1 a PREZ_ERR = Some s'"
    | t rc where "logAppendEntries (be_os env) s1 e = Some (t, rc)"
        "\<exists>ok. clusterSendResponseAppendEntries env t a ok = Some s' \<or>
           clusterSendResponseAppendEntries env (fst (logCommitIndex t (ae_leader_commit_index e))) a ok = Some s'"
    using assms False
    by (auto simp: clusterProcessAppendEntries_def bind_eq_Some_conv s1_def [symmetric] case_prod_unfold Let_def commit(3) split: if_splits)
  then have "\<exists>s2 ok. quiet s1 s2 \<and> sndbuf s2 = sndbuf s1 \<and> clusterSendResponseAppendEntries env s2 a ok = Some s'"
  proof cases
    case (2 t rc)
    note st = log_step_append [OF 2(1)]
    from 2(2) st show ?thesis using commit [of t] quiet_log_step [OF st] quiet_trans [of s1 t] log_step_fields(3) [OF st] by metis
  qed (use quiet_refl in blast)
  then obtain s2 ok where s2: "quiet s1 s2" "sndbuf s2 = sndbuf s1" "clusterSendResponseAppendEntries env s2 a ok = Some s'" by blast
  note r = send_append_reply [OF s2(3)]
  have id: "same_id s s2" using same_id_trans [OF s1(2), of s2] s2(1) by (simp add: quiet_def)
  have "same_id s s'" using same_id_trans [OF id, of s'] r by (simp add: quiet_def)
  moreover have "ballot s' = seen_term (ae_term e) s" using r s1(1) s2(1) by (simp add: quiet_def)
  ultimately show ?thesis using r unfolding s2(2) s1(3) same_id_name [OF id] by blast
qed

lemma response_vote_effect:
  "ballot (clusterProcessResponseVote v s) =
     (if vote_granted v \<noteq> 0 \<and> rvr_term v = cl_current_term s
      then (cl_state s, cl_current_term s, cl_voted_for s, c_int32 (cl_votes_granted s + 1))
      else if rvr_term v > cl_current_term s then (PREZ_FOLLOWER, rvr_term v, SdsName [], cl_votes_granted s)
      else ballot s)"
  "same_id s (clusterProcessResponseVote v s)" "sndbuf (clusterProcessResponseVote v s) = sndbuf s"
  by (auto simp: clusterProcessResponseVote_def same_id_def ballot_def sndbuf_def step_down_def fun_eq_iff)

lemma set_node_effect:
  assumes "set_node s p f = Some s'" "\<And>n. cn_name (f n) = cn_name n"
  shows "quiet s s'" "sndbuf s' = sndbuf s"
  using assms by (auto simp: set_node_def quiet_def same_id_def ballot_def bind_eq_Some_conv sndbuf_def fun_eq_iff)

lemma append_response_effect:
  assumes "clusterProcessResponseAppendEntries a e s = Some s'"
  shows "(ballot s' = ballot s \<or> aer_term e > cl_current_term s \<and> ballot s' = (PREZ_FOLLOWER, aer_term e, SdsName [], cl_votes_granted s)) \<and>
    same_id s s' \<and> sndbuf s' = sndbuf s"
proof -
  consider "s' = s" | "aer_term e > cl_current_term s" "s' = step_down s (aer_term e)"
    | p f where "set_node s p f = Some s'" "\<And>n. cn_name (f n) = cn_name n"
    using assms
    by (auto simp: clusterProcessResponseAppendEntries_def bind_eq_Some_conv split: if_splits option.splits)
  then show ?thesis
  proof cases
    case (3 p f)
    from set_node_effect [OF this] show ?thesis by (simp add: quiet_def)
  qed (simp_all add: same_id_refl)
qed

text \<open>Steps that neither the election nor a peer notices, and steps that only send AppendEntries.\<close>

definition silent :: "clusterState \<Rightarrow> clusterState \<Rightarrow> bool" where
  "silent s s' \<longleftrightarrow> quiet s s' \<and> (\<forall>a. \<exists>n. sndbuf s' a = drop n (sndbuf s a))"

definition replicating :: "busenv \<Rightarrow> clusterState \<Rightarrow> clusterState \<Rightarrow> bool" where
  "replicating env s s' \<longleftrightarrow> quiet s s' \<and> (\<forall>a. \<exists>es. sndbuf s' a = sndbuf s a @
     concat (map (\<lambda>e. case myself_name s of Some me \<Rightarrow> enc_msg me (be_port env) (AppendEntries e) | None \<Rightarrow> []) es))"

lemma silentI: "quiet s s' \<Longrightarrow> sndbuf s' = sndbuf s \<Longrightarrow> silent s s'"
  unfolding silent_def by (auto intro: exI [of _ 0])

lemma silent_trans: "silent s t \<Longrightarrow> silent t u \<Longrightarrow> silent s u"
  unfolding silent_def using quiet_trans [of s t u] by (metis drop_drop)

lemma replicatingI: "quiet s s' \<Longrightarrow> sndbuf s' = sndbuf s \<Longrightarrow> replicating env s s'"
  unfolding replicating_def by (auto intro: exI [of _ "[]"])

lemma replicating_trans:
  assumes st: "replicating env s t" and tu: "replicating env t u"
  shows "replicating env s u"
proof -
  have me: "myself_name t = myself_name s" using st same_id_name [of s t] by (simp add: replicating_def quiet_def)
  let ?enc = "\<lambda>e. case myself_name s of Some me \<Rightarrow> enc_msg me (be_port env) (AppendEntries e) | None \<Rightarrow> []"
  have "\<exists>es. sndbuf u a = sndbuf s a @ concat (map ?enc es)" for a
  proof -
    obtain es es' where "sndbuf t a = sndbuf s a @ concat (map ?enc es)" "sndbuf u a = sndbuf t a @ concat (map ?enc es')"
      using st tu unfolding replicating_def me by blast
    then show ?thesis by (intro exI [of _ "es @ es'"]) simp
  qed
  then show ?thesis using st tu quiet_trans [of s t u] unfolding replicating_def by blast
qed

lemma fold_opt_rel:
  assumes "\<And>x s s'. f x s = Some s' \<Longrightarrow> R s s'" "\<And>s. R s s" "\<And>s t u. R s t \<Longrightarrow> R t u \<Longrightarrow> R s u"
  shows "fold_opt f xs s = Some s' \<Longrightarrow> R s s'"
proof (induction xs arbitrary: s)
  case (Cons x xs)
  then obtain t where "f x s = Some t" "fold_opt f xs t = Some s'" by (auto simp: bind_eq_Some_conv)
  with Cons.IH assms show ?case by blast
qed (simp add: assms(2))

lemma visit_effect:
  assumes "nodes_ok env s" "visit_nodes r s = Some (ps, s')"
  shows "quiet s s'" "sndbuf s' = sndbuf s" "cl_node_mem s' = cl_node_mem s" "cl_link_mem s' = cl_link_mem s"
    "mset ps = image_mset snd (dents (cl_nodes s))"
  using visit_nodes_ok [OF assms(1), of r] assms(2)
  by (auto simp: quiet_def ballot_def same_id_def same_tables_def sndbuf_def split: if_splits)

lemma silent_refl: "silent s s"
  by (simp add: silentI quiet_refl)

lemma replicating_refl: "replicating env s s"
  by (simp add: replicatingI quiet_refl)

lemma mstime_effect:
  assumes "mstime env s = (t, s')"
  shows "quiet s s'" "sndbuf s' = sndbuf s" "cl_node_mem s' = cl_node_mem s" "cl_link_mem s' = cl_link_mem s"
  using assms by (auto simp: mstime_def quiet_def same_id_def ballot_def sndbuf_def fun_eq_iff)

lemma candidate_effect:
  assumes "nodes_ok env s" "cron_candidate env s = Some s'"
  shows "same_id s s' \<and> sndbuf s' = sndbuf s \<and>
    ballot s' = (if cl_state s = PREZ_CANDIDATE \<and> ull (cl_votes_granted s) \<ge> quorumSize s then PREZ_LEADER else cl_state s,
      cl_current_term s, cl_voted_for s, cl_votes_granted s)"
proof (cases "cl_state s = PREZ_CANDIDATE \<and> ull (cl_votes_granted s) \<ge> quorumSize s")
  case False
  with assms show ?thesis by (auto simp: cron_candidate_def ballot_def same_id_refl)
next
  case True
  let ?s = "s\<lparr>cl_state := PREZ_LEADER, cl_leader := ZName (be_name env)\<rparr>"
  obtain ps t f where t: "visit_nodes False ?s = Some (ps, t)" "fold_opt f ps t = Some s'"
    and f: "\<And>p s s'. f p s = Some s' \<Longrightarrow> quiet s s' \<and> sndbuf s' = sndbuf s"
  proof -
    from assms True obtain ps t where pt: "visit_nodes False ?s = Some (ps, t)"
      "fold_opt (\<lambda>p s. do { n \<leftarrow> cl_node_mem s p;
         if has_flag n PREZ_NODE_MYSELF \<or> has_flag n PREZ_NODE_NOADDR then Some s
         else set_node s p (\<lambda>n. n\<lparr>cn_next_index := ll (logCurrentIndex ?s + 1), cn_match_index := 0\<rparr>) }) ps t = Some s'"
      by (auto simp: cron_candidate_def Let_def bind_eq_Some_conv)
    show ?thesis
      by (rule that [OF pt]) (auto simp: bind_eq_Some_conv quiet_refl set_node_effect split: if_splits)
  qed
  have "nodes_ok env ?s" using assms(1) by (simp add: nodes_ok_def)
  note v = visit_effect [OF this t(1)]
  have "quiet t s' \<and> sndbuf s' = sndbuf t"
    by (rule fold_opt_rel [OF f _ _ t(2)]) (auto simp: quiet_refl intro: quiet_trans)
  moreover have "sndbuf ?s = sndbuf s" "same_id s ?s" by (simp_all add: sndbuf_def same_id_def fun_eq_iff)
  ultimately show ?thesis
    using v(1,2) True same_id_trans [of s ?s t] same_id_trans [of s t s'] by (simp add: quiet_def ballot_def)
qed

lemma send_append_effect:
  assumes "clusterSendAppendEntries env s a = Some s'"
  shows "replicating env s s'"
proof -
  obtain p f t me e where u: "set_node s p f = Some t" "\<And>n. cn_name (f n) = cn_name n" and me: "myself_name s = Some me"
    and m: "clusterSendMessage env t a (enc_msg me (be_port env) (AppendEntries e)) = Some s'"
  proof -
    from assms obtain l p n me es t buf where x: "myself_name s = Some me"
      "set_node s p (\<lambda>n. n\<lparr>cn_last_sent_entry := (if es = [] then None else Some (last es))\<rparr>) = Some t"
      "\<exists>e. packet env t (AppendEntries e) = Some buf" "clusterSendMessage env t a buf = Some s'"
      by (auto simp: clusterSendAppendEntries_def bind_eq_Some_conv Let_def) blast
    then have "myself_name t = Some me" using set_node_effect(1) [OF x(2)] same_id_name [of s t] by (simp add: quiet_def)
    with x(3) obtain e where "buf = enc_msg me (be_port env) (AppendEntries e)" by (auto simp: packet_def)
    with x show ?thesis using that [OF x(2) _ x(1)] by simp
  qed
  from m obtain l where "cl_link_mem t a = Some l" by (auto simp: clusterSendMessage_def bind_eq_Some_conv)
  from send_effect [OF this, of env "enc_msg me (be_port env) (AppendEntries e)"] m
  have s': "quiet t s'" "sndbuf s' = (sndbuf t)(a := sndbuf t a @ enc_msg me (be_port env) (AppendEntries e))"
    by auto
  note t = set_node_effect [OF u]
  have "\<exists>es. sndbuf s' b = sndbuf s b @ concat (map (\<lambda>e. enc_msg me (be_port env) (AppendEntries e)) es)" for b
    unfolding s'(2) t(2) by (cases "b = a") (auto intro: exI [of _ "[e]"] exI [of _ "[]"])
  then show ?thesis unfolding replicating_def me using quiet_trans [OF t(1) s'(1)] by simp
qed

lemma commit_effect:
  assumes "nodes_ok env s" "clusterUpdateCommitIndex env s = Some s'"
  shows "quiet s s'" "sndbuf s' = sndbuf s"
proof -
  obtain ps t where t: "visit_nodes True s = Some (ps, t)" "s' = t \<or> (\<exists>c. s' = t\<lparr>commit_index := c\<rparr>)"
    using assms(2) by (auto simp: clusterUpdateCommitIndex_def bind_eq_Some_conv Let_def split: if_splits)
  note v = visit_effect [OF assms(1) t(1)]
  have "quiet t (t\<lparr>commit_index := c\<rparr>)" "sndbuf (t\<lparr>commit_index := c\<rparr>) = sndbuf t" for c
    by (simp_all add: quiet_def ballot_def same_id_def sndbuf_def fun_eq_iff)
  with t(2) v show "quiet s s'" "sndbuf s' = sndbuf s" using quiet_trans [OF v(1)] by auto
qed

lemma leader_effect:
  assumes "nodes_ok env s" "cron_leader env s = Some s'"
  shows "replicating env s s'"
proof (cases "cl_state s = PREZ_LEADER")
  case False
  with assms show ?thesis by (simp add: cron_leader_def replicating_refl)
next
  case True
  let ?f = "\<lambda>p s. do { n \<leftarrow> cl_node_mem s p;
        if has_flag n PREZ_NODE_MYSELF \<or> has_flag n PREZ_NODE_NOADDR then Some s
        else case cn_link n of None \<Rightarrow> Some s
             | Some a \<Rightarrow> let (t, s) = mstime env s in
                 if t - cn_last_activity_time n > cl_heartbeat_interval s then
                   let (t, s) = mstime env s in
                   do { s \<leftarrow> set_node s p (\<lambda>n. n\<lparr>cn_last_activity_time := t\<rparr>); clusterSendHeartbeat env s a }
                 else Some s }"
  obtain t ps u where t: "clusterUpdateCommitIndex env s = Some t" "visit_nodes True t = Some (ps, u)" "fold_opt ?f ps u = Some s'"
    using assms(2) True by (auto simp: cron_leader_def bind_eq_Some_conv)
  note c = commit_effect [OF assms(1) t(1)]
  have "nodes_ok env t" using same_id_nodes(1) [of s t] c(1) assms(1) by (simp add: quiet_def)
  note v = visit_effect [OF this t(2)]
  have tick: "replicating env x y" if "mstime env x = (m, y)" for x y m
    using mstime_effect [OF that] by (intro replicatingI)
  have f: "replicating env x y" if xy: "?f p x = Some y" for p x y
  proof -
    consider "y = x" | m where "mstime env x = (m, y)"
      | m1 x1 m2 x2 x3 a where "mstime env x = (m1, x1)" "mstime env x1 = (m2, x2)"
          "set_node x2 p (\<lambda>n. n\<lparr>cn_last_activity_time := m2\<rparr>) = Some x3" "clusterSendAppendEntries env x3 a = Some y"
      using xy by (auto simp: bind_eq_Some_conv clusterSendHeartbeat_def mstime_def Let_def split: if_splits option.splits)
    then show ?thesis
    proof cases
      case (3 m1 x1 m2 x2 x3 a)
      have "replicating env x2 x3" using set_node_effect [OF 3(3)] by (intro replicatingI) simp_all
      with tick [OF 3(1)] tick [OF 3(2)] send_append_effect [OF 3(4)] show ?thesis using replicating_trans by blast
    qed (simp_all add: replicating_refl tick)
  qed
  have "replicating env u s'"
    by (rule fold_opt_rel [OF f replicating_refl replicating_trans t(3)])
  moreover have "replicating env s u" using quiet_trans [OF c(1) v(1)] c(2) v(2) by (intro replicatingI) simp_all
  ultimately show ?thesis using replicating_trans by blast
qed

section \<open>Starting an election\<close>

definition targets :: "clusterState \<Rightarrow> nat list \<Rightarrow> nat list" where
  "targets s ps = concat (map (\<lambda>p. case cl_node_mem s p of
       None \<Rightarrow> []
     | Some n \<Rightarrow> (case cn_link n of None \<Rightarrow> [] | Some a \<Rightarrow> if has_flag n PREZ_NODE_MYSELF then [] else [a])) ps)"

lemma broadcast_fold:
  assumes "fold_opt (\<lambda>p s. do { n \<leftarrow> cl_node_mem s p;
      case cn_link n of None \<Rightarrow> Some s
      | Some a \<Rightarrow> if has_flag n PREZ_NODE_MYSELF then Some s else clusterSendMessage env s a buf }) ps s = Some s'"
  shows "quiet s s' \<and> cl_node_mem s' = cl_node_mem s \<and>
    (\<forall>b. sndbuf s' b = sndbuf s b @ concat (replicate (count_list (targets s ps) b) buf))"
  using assms
proof (induction ps arbitrary: s)
  case (Cons p ps)
  then obtain n where n: "cl_node_mem s p = Some n" by (auto simp: bind_eq_Some_conv)
  show ?case
  proof (cases "cn_link n = None \<or> has_flag n PREZ_NODE_MYSELF")
    case True
    with Cons n show ?thesis by (auto simp: targets_def split: option.splits)
  next
    case False
    then obtain a where a: "cn_link n = Some a" "\<not> has_flag n PREZ_NODE_MYSELF" by auto
    with Cons.prems n obtain t where t: "clusterSendMessage env s a buf = Some t"
      "fold_opt (\<lambda>p s. do { n \<leftarrow> cl_node_mem s p;
      case cn_link n of None \<Rightarrow> Some s
      | Some a \<Rightarrow> if has_flag n PREZ_NODE_MYSELF then Some s else clusterSendMessage env s a buf }) ps t = Some s'"
      by (auto simp: bind_eq_Some_conv)
    then obtain l where "cl_link_mem s a = Some l" by (auto simp: clusterSendMessage_def bind_eq_Some_conv)
    from send_effect [OF this, of env buf] t(1)
    have e: "quiet s t" "sndbuf t = (sndbuf s)(a := sndbuf s a @ buf)" "cl_node_mem t = cl_node_mem s" by auto
    from Cons.IH [OF t(2)] have ih: "quiet t s'" "cl_node_mem s' = cl_node_mem t"
      "\<And>b. sndbuf s' b = sndbuf t b @ concat (replicate (count_list (targets t ps) b) buf)" by auto
    have "targets t ps = targets s ps" by (simp add: targets_def e(3))
    then show ?thesis using quiet_trans [OF e(1) ih(1)] ih(2,3) e(2,3) n a by (simp add: targets_def)
  qed
qed (simp add: targets_def quiet_refl)

lemma election_effect:
  assumes ok: "nodes_ok env s" and el: "cron_election env now s = Some s'"
  shows "silent s s' \<or> (\<exists>me r ps. myself_name s = Some me \<and> cl_state s \<noteq> PREZ_LEADER \<and> same_id s s' \<and>
    ballot s' = (PREZ_CANDIDATE, ll (cl_current_term s + 1), ZName (be_name env), 1) \<and>
    rv_term r = ll (cl_current_term s + 1) \<and> rv_candidateid r = me \<and> mset ps = image_mset snd (dents (cl_nodes s)) \<and>
    (\<forall>b. sndbuf s' b = sndbuf s b @ concat (replicate (count_list (targets s ps) b) (enc_msg me (be_port env) (RequestVote r)))))"
proof (cases "s' = s\<lparr>cl_rnd := Suc (cl_rnd s)\<rparr>")
  case True
  then have "quiet s s'" "sndbuf s' = sndbuf s" by (simp_all add: quiet_def ballot_def same_id_def sndbuf_def fun_eq_iff)
  then show ?thesis using silentI by blast
next
  case False
  define t where "t = s\<lparr>cl_rnd := Suc (cl_rnd s), cl_ticks := Suc (cl_ticks s), cl_last_activity_time := be_mstime env (cl_ticks s),
    cl_state := PREZ_CANDIDATE, cl_leader := SdsName [], cl_voted_for := ZName (be_name env), cl_votes_granted := 1,
    cl_current_term := ll (cl_current_term s + 1)\<rparr>"
  have t: "same_id s t" "sndbuf t = sndbuf s" "cl_node_mem t = cl_node_mem s" "cl_nodes t = cl_nodes s"
    "ballot t = (PREZ_CANDIDATE, ll (cl_current_term s + 1), ZName (be_name env), 1)" "cl_current_term t = ll (cl_current_term s + 1)"
    by (simp_all add: t_def same_id_def sndbuf_def ballot_def fun_eq_iff)
  have nl: "cl_state s \<noteq> PREZ_LEADER" using el False by (auto simp: cron_election_def Let_def mstime_def split: if_splits)
  obtain me r buf where r: "myself_name t = Some me" "packet env t (RequestVote r) = Some buf" "rv_term r = cl_current_term t"
    "rv_candidateid r = me" "clusterBroadcastMessage env t buf = Some s'"
    using el False by (auto simp: cron_election_def Let_def mstime_def clusterSendRequestVote_def bind_eq_Some_conv t_def split: if_splits)
  have me: "myself_name s = Some me" using r(1) same_id_name [OF t(1)] by simp
  have buf: "buf = enc_msg me (be_port env) (RequestVote r)" using r(1,2) by (simp add: packet_def)
  obtain ps u where u: "visit_nodes True t = Some (ps, u)"
    "fold_opt (\<lambda>p s. do { n \<leftarrow> cl_node_mem s p;
      case cn_link n of None \<Rightarrow> Some s
      | Some a \<Rightarrow> if has_flag n PREZ_NODE_MYSELF then Some s else clusterSendMessage env s a buf }) ps u = Some s'"
    using r(5) by (auto simp: clusterBroadcastMessage_def bind_eq_Some_conv)
  note v = visit_effect [OF same_id_nodes(1) [OF t(1) ok] u(1)] and f = broadcast_fold [OF u(2)]
  have "targets u ps = targets s ps" using v(3) t(3) by (simp add: targets_def)
  then have sb: "\<forall>b. sndbuf s' b = sndbuf s b @ concat (replicate (count_list (targets s ps) b) (enc_msg me (be_port env) (RequestVote r)))"
    using f v(2) t(2) buf by simp
  have "same_id s s'" "ballot s' = (PREZ_CANDIDATE, ll (cl_current_term s + 1), ZName (be_name env), 1)"
    using same_id_trans [OF t(1), of s'] quiet_trans [OF v(1), of s'] f t(5) by (simp_all add: quiet_def)
  with nl me sb r(3,4) v(5) t(4,6) show ?thesis by metis
qed

section \<open>Steps on links\<close>

lemma create_link_effect:
  assumes "createClusterLink env s node = (s', a)"
  shows "silent s s' \<and> cl_node_mem s' = cl_node_mem s \<and> sndbuf s' a = []"
proof -
  have "quiet s s'" using assms by (auto simp: createClusterLink_def mstime_def Let_def quiet_def ballot_def same_id_def)
  moreover have "\<exists>n. sndbuf s' b = drop n (sndbuf s b)" for b
    using assms by (cases "b = a") (auto simp: createClusterLink_def mstime_def Let_def sndbuf_def intro: exI [of _ 0] exI [of _ "length (sndbuf s a)"])
  ultimately show ?thesis using assms by (auto simp: silent_def createClusterLink_def mstime_def Let_def sndbuf_def)
qed

lemma set_fd_effect: "silent s (s\<lparr>cl_link_mem := (cl_link_mem s)(a := map_option (\<lambda>l. l\<lparr>lk_fd := fd\<rparr>) (cl_link_mem s a))\<rparr>)"
  by (intro silentI) (auto simp: quiet_def ballot_def same_id_def sndbuf_def fun_eq_iff split: option.splits)

lemma accept_effect: "silent s (clusterAcceptHandler env fds s)"
proof -
  have "silent s (accept_loop env n fds s)" for n
  proof (induction n arbitrary: fds s)
    case (Suc n)
    show ?case
    proof (cases fds)
      case (Cons fd fds')
      obtain t a where t: "createClusterLink env s None = (t, a)" by fastforce
      let ?u = "t\<lparr>cl_link_mem := (cl_link_mem t)(a := map_option (\<lambda>l. l\<lparr>lk_fd := fd\<rparr>) (cl_link_mem t a))\<rparr>"
      have "silent s ?u" using silent_trans [OF _ set_fd_effect] create_link_effect [OF t] by blast
      from silent_trans [OF this Suc.IH] show ?thesis using Cons t silent_refl by simp
    qed (simp add: silent_refl)
  qed (simp add: silent_refl)
  then show ?thesis by (simp add: clusterAcceptHandler_def)
qed

lemma free_link_effect:
  assumes "freeClusterLink s a = Some s'"
  shows "silent s s'"
proof -
  obtain t where t: "s' = t\<lparr>cl_link_mem := (cl_link_mem t)(a := None)\<rparr>"
    "t = s \<or> (\<exists>p. set_node s p (\<lambda>n. n\<lparr>cn_link := None\<rparr>) = Some t)"
    using assms by (auto simp: freeClusterLink_def bind_eq_Some_conv split: option.splits)
  have "silent s t"
    using t(2)
  proof
    assume "\<exists>p. set_node s p (\<lambda>n. n\<lparr>cn_link := None\<rparr>) = Some t"
    then obtain p where "set_node s p (\<lambda>n. n\<lparr>cn_link := None\<rparr>) = Some t" by blast
    from set_node_effect [OF this] show ?thesis by (intro silentI) simp_all
  qed (simp add: silent_refl)
  moreover have "quiet t s'" by (simp add: t(1) quiet_def ballot_def same_id_def)
  moreover have "sndbuf s' b = drop (if b = a then length (sndbuf t b) else 0) (sndbuf t b)" for b
    by (simp add: t(1) sndbuf_def)
  ultimately have "silent s t" "silent t s'" unfolding silent_def by blast+
  then show ?thesis by (rule silent_trans)
qed

lemma write_handler_effect:
  assumes "clusterWriteHandler s a n = Some (s', out)"
  shows "silent s s'"
proof (cases "n \<le> 0")
  case True
  with assms show ?thesis by (auto simp: clusterWriteHandler_def handleLinkIOError_def bind_eq_Some_conv free_link_effect)
next
  case False
  then have "quiet s s'" using assms by (auto simp: clusterWriteHandler_def bind_eq_Some_conv Let_def quiet_def ballot_def same_id_def)
  moreover have "sndbuf s' b = drop (if b = a then nat n else 0) (sndbuf s b)" for b
    using assms False by (auto simp: clusterWriteHandler_def bind_eq_Some_conv Let_def sndbuf_def)
  ultimately show ?thesis unfolding silent_def by blast
qed

lemma reconnect_effect:
  assumes ok: "nodes_ok env s" and c: "cron_reconnect env s = Some s'"
  shows "silent s s'"
proof -
  let ?f = "\<lambda>p s. do { n \<leftarrow> cl_node_mem s p;
        if has_flag n PREZ_NODE_MYSELF \<or> has_flag n PREZ_NODE_NOADDR \<or> cn_link n \<noteq> None then Some s
        else let fd = be_connect env (cl_ticks s) (cstr (cn_ip n)) (cn_port n + PREZ_CLUSTER_PORT_INCR) in
             if fd = -1 then Some (s\<lparr>cl_ticks := Suc (cl_ticks s)\<rparr>)
             else let (s, a) = createClusterLink env s (Some p);
                      s = s\<lparr>cl_link_mem := (cl_link_mem s)(a := map_option (\<lambda>l. l\<lparr>lk_fd := fd\<rparr>) (cl_link_mem s a))\<rparr>;
                      (now, s) = mstime env s
                  in set_node s p (\<lambda>n. n\<lparr>cn_link := Some a, cn_last_activity_time := now\<rparr>) }"
  obtain ps t where t: "visit_nodes True s = Some (ps, t)" "fold_opt ?f ps t = Some s'"
    using c by (auto simp: cron_reconnect_def bind_eq_Some_conv)
  have f: "silent x y" if xy: "?f p x = Some y" for p x y
  proof -
    consider "y = x \<or> y = x\<lparr>cl_ticks := Suc (cl_ticks x)\<rparr>"
      | x1 a fd now x2 where "createClusterLink env x (Some p) = (x1, a)"
          "mstime env (x1\<lparr>cl_link_mem := (cl_link_mem x1)(a := map_option (\<lambda>l. l\<lparr>lk_fd := fd\<rparr>) (cl_link_mem x1 a))\<rparr>) = (now, x2)"
          "set_node x2 p (\<lambda>n. n\<lparr>cn_link := Some a, cn_last_activity_time := now\<rparr>) = Some y"
      using xy by (auto simp: bind_eq_Some_conv Let_def split: if_splits prod.splits)
    then show ?thesis
    proof cases
      case 1
      have "silent x (x\<lparr>cl_ticks := Suc (cl_ticks x)\<rparr>)"
        by (intro silentI) (simp_all add: quiet_def ballot_def same_id_def sndbuf_def fun_eq_iff)
      with 1 silent_refl show ?thesis by blast
    next
      case (2 x1 a fd now x2)
      have "silent x2 y" using set_node_effect [OF 2(3)] by (intro silentI) simp_all
      moreover have "silent x1 x2" using silent_trans [OF set_fd_effect silentI [OF mstime_effect(1,2) [OF 2(2)]]] .
      ultimately show ?thesis using create_link_effect [OF 2(1)] silent_trans by blast
    qed
  qed
  note v = visit_effect [OF ok t(1)]
  have "silent t s'" by (rule fold_opt_rel [OF f silent_refl silent_trans t(2)])
  then show ?thesis using silentI [OF v(1,2)] silent_trans by blast
qed

end
