(* ===== verification/Prez_Raft.thy ===== *)
theory Prez_Raft
  imports Prez_Ballot
begin

text \<open>
  The cluster as a whole: every server runs the code of \<open>Prez_Cluster\<close>, and the packets they put
  into the send buffers of their links travel through a network that may lose and reorder them.  A
  step is one call of a handler or of a part of the cron job at one server.  The theorem is that
  no term ever has two leaders, as long as servers are not restarted: neither the term nor the vote
  survives a restart of this program.
\<close>

section \<open>Packets of the two vote messages\<close>

lemma div_mod_digit:
  fixes x m :: int
  assumes "0 < m"
  shows "x mod (256 * m) mod 256 = x mod 256" "x mod (256 * m) div 256 = x div 256 mod m"
proof -
  have "x mod (256 * m) = 256 * (x div 256 mod m) + x mod 256" using assms by (simp add: zmod_zmult2_eq)
  then show "x mod (256 * m) mod 256 = x mod 256" "x mod (256 * m) div 256 = x div 256 mod m" by simp_all
qed

lemma le_bytes_mod: "le_bytes n (x mod 256 ^ n) = le_bytes n x"
proof (induction n arbitrary: x)
  case (Suc n)
  then show ?case using div_mod_digit [of "256 ^ n" x] by simp
qed simp

lemma le_bytes_ll: "le_bytes 8 (ll x) = le_bytes 8 x"
proof -
  have "ll x mod 18446744073709551616 = x mod 18446744073709551616" by (simp add: ll_def mod_diff_left_eq)
  then show ?thesis using le_bytes_mod [of 8 "ll x"] le_bytes_mod [of 8 x] by simp
qed

lemma packet_request:
  assumes "length sender = 40" "length (rv_candidateid v) = 40" "is_ll (rv_term v)"
  shows "\<exists>r. packet_msg (enc_msg sender port (RequestVote v)) = Some (RequestVote r) \<and>
    rv_term r = rv_term v \<and> rv_candidateid r = rv_candidateid v"
proof -
  let ?r = "v\<lparr>rv_last_log_index := ll (rv_last_log_index v), rv_last_log_term := ll (rv_last_log_term v)\<rparr>"
  have "enc_msg sender port (RequestVote ?r) = enc_msg sender port (RequestVote v)"
    by (simp add: enc_msg_def enc_body_def enc_requestVote_def msg_type_def build_totlen_def le_bytes_ll)
  moreover have "valid_msg (RequestVote ?r)" using assms by (simp add: valid_msg_def is_ll_ll)
  ultimately have "packet_msg (enc_msg sender port (RequestVote v)) = Some (RequestVote ?r)"
    using packet_msg_enc [of "RequestVote ?r" sender port] assms(1) by simp
  then show ?thesis by simp
qed

lemma packet_vote:
  assumes "length sender = 40" "is_ll t" "g = 0 \<or> g = 1"
  shows "packet_msg (enc_msg sender port (ResponseVote \<lparr>rvr_term = t, vote_granted = g\<rparr>)) = Some (ResponseVote \<lparr>rvr_term = t, vote_granted = g\<rparr>)"
  using assms by (intro packet_msg_enc) (auto simp: valid_msg_def)

text \<open>A packet is of the type that its header says.\<close>

lemma packet_type:
  assumes "length sender = 40" "packet_msg (enc_msg sender port m @ r) = Some m'"
  shows "msg_type m' = msg_type m"
proof -
  have "0 \<le> msg_type m" "msg_type m < 65536" by (auto simp: msg_type_def split: msg.split)
  then have "hdr_type (enc_msg sender port m @ r) = msg_type m"
    using assms(1) w_net16.dec_enc [of "msg_type m"]
    by (simp add: hdr_type_def enc_msg_def clusterBuildMessageHdr_def slice_skip slice_here(1))
  moreover have "hdr_type (enc_msg sender port m @ r) = msg_type m'"
    using assms(2) by (auto simp: packet_msg_def Let_def msg_type_def split: if_splits)
  ultimately show ?thesis by simp
qed

lemma packet_term_ll:
  "packet_msg p = Some (RequestVote r) \<Longrightarrow> is_ll (rv_term r)" "packet_msg p = Some (ResponseVote v) \<Longrightarrow> is_ll (rvr_term v)"
  "packet_msg p = Some (AppendEntries e) \<Longrightarrow> is_ll (ae_term e)" "packet_msg p = Some (ResponseAppendEntries a) \<Longrightarrow> is_ll (aer_term a)"
  by (auto simp: packet_msg_def Let_def dec_requestVote_def dec_responseVote_def dec_appendEntries_def dec_responseAppendEntries_def
      get_ll_def is_ll_ll split: if_splits)

section \<open>The cluster\<close>

text \<open>The servers, their environments, and the server at the other end of each link.\<close>

record raftcfg =
  rc_nodes :: "string set"
  rc_env :: "string \<Rightarrow> busenv"
  rc_peer :: "string \<Rightarrow> nat \<Rightarrow> string"

text \<open>
  The state of the cluster: the servers and the packets in transit (sender, receiver, bytes).  The
  last three fields are its history: every vote \<open>(voter, term, candidate)\<close> that a server ever held,
  every vote \<open>(candidate, term, voter)\<close> that was counted, and every leader with its term.
\<close>

record world =
  w_node :: "string \<Rightarrow> clusterState"
  w_net :: "(string \<times> string \<times> string) multiset"
  w_votes :: "(string \<times> int \<times> string) set"
  w_counted :: "(string \<times> int \<times> string) set"
  w_leaders :: "(int \<times> string) set"

definition name_of :: "name_ptr \<Rightarrow> string" where
  "name_of p = (case p of SdsName s \<Rightarrow> s | ZName s \<Rightarrow> s)"

definition sent_packets :: "raftcfg \<Rightarrow> string \<Rightarrow> clusterState \<Rightarrow> clusterState \<Rightarrow> (string \<times> string \<times> string) multiset" where
  "sent_packets C i s s' =
     mset (concat (map (\<lambda>a. let b = new_bytes s s' a in if b = [] then [] else [(i, rc_peer C i a, b)]) [0..<cl_fresh s']))"

definition w_step :: "raftcfg \<Rightarrow> string \<Rightarrow> clusterState \<Rightarrow> (string \<times> string \<times> string) multiset \<Rightarrow> (string \<times> int \<times> string) set \<Rightarrow> world \<Rightarrow> world" where
  "w_step C i s' taken counted w =
     w\<lparr>w_node := (w_node w)(i := s'),
       w_net := w_net w - taken + sent_packets C i (w_node w i) s',
       w_votes := w_votes w \<union> (if name_of (cl_voted_for s') = [] then {} else {(i, cl_current_term s', name_of (cl_voted_for s'))}),
       w_counted := w_counted w \<union> counted,
       w_leaders := w_leaders w \<union> (if cl_state s' = PREZ_LEADER then {(cl_current_term s', i)} else {})\<rparr>"

text \<open>The steps of a server on its own, and the vote that the delivery of a packet counts.\<close>

inductive local_step :: "busenv \<Rightarrow> clusterState \<Rightarrow> clusterState \<Rightarrow> bool" where
  reconnect: "cron_reconnect env s = Some s' \<Longrightarrow> local_step env s s'"
| election: "cl_current_term s < LLONG_MAX \<Longrightarrow> cron_election env now s = Some s' \<Longrightarrow> local_step env s s'"
| candidate: "cron_candidate env s = Some s' \<Longrightarrow> local_step env s s'"
| leader: "cron_leader env s = Some s' \<Longrightarrow> local_step env s s'"
| accept: "local_step env s (clusterAcceptHandler env fds s)"
| flush: "clusterWriteHandler s a n = Some (s', out) \<Longrightarrow> local_step env s s'"
| close: "handleLinkIOError s a = Some s' \<Longrightarrow> local_step env s s'"
| command: "logWriteEntry (be_os env) s e = Some (s', rc) \<Longrightarrow> local_step env s s'"

definition counted_by :: "string \<Rightarrow> string \<Rightarrow> clusterState \<Rightarrow> string \<Rightarrow> (string \<times> int \<times> string) set" where
  "counted_by i j s pkt =
     (case packet_msg pkt of
        Some (ResponseVote v) \<Rightarrow> if vote_granted v \<noteq> 0 \<and> rvr_term v = cl_current_term s then {(i, rvr_term v, j)} else {}
      | _ \<Rightarrow> {})"

text \<open>The links over which a server broadcasts lead to different servers.\<close>

definition wired :: "raftcfg \<Rightarrow> string \<Rightarrow> clusterState \<Rightarrow> bool" where
  "wired C i s \<longleftrightarrow> (\<forall>ps. mset ps = image_mset snd (dents (cl_nodes s)) \<longrightarrow> distinct (map (rc_peer C i) (targets s ps)))"

inductive raft_step :: "raftcfg \<Rightarrow> world \<Rightarrow> world \<Rightarrow> bool" for C where
  act: "i \<in> rc_nodes C \<Longrightarrow> wired C i (w_node w i) \<Longrightarrow> local_step (rc_env C i) (w_node w i) s' \<Longrightarrow>
    raft_step C w (w_step C i s' {#} {} w)"
| deliver: "i \<in> rc_nodes C \<Longrightarrow> (j, i, pkt) \<in># w_net w \<Longrightarrow> rc_peer C i a = j \<Longrightarrow>
    clusterProcessPacket (rc_env C i) a (w_node w i) pkt = Some s' \<Longrightarrow>
    raft_step C w (w_step C i s' {#(j, i, pkt)#} (counted_by i j (w_node w i) pkt) w)"
| lose: "raft_step C w (w\<lparr>w_net := w_net w - {#x#}\<rparr>)"

text \<open>
  A configuration: every server knows its own name and the number of servers, no link leads back
  to its owner, and the bytes in front of a copied name read as a length above the name's.
\<close>

definition config_ok :: "raftcfg \<Rightarrow> bool" where
  "config_ok C \<longleftrightarrow> finite (rc_nodes C) \<and> card (rc_nodes C) < 2147483647 \<and>
     (\<forall>i \<in> rc_nodes C. i \<noteq> [] \<and> be_name (rc_env C i) = i \<and> (\<forall>a. rc_peer C i a \<noteq> i) \<and>
        (\<forall>n. length n < be_hdr (rc_env C i) n))"

definition node_inv :: "raftcfg \<Rightarrow> string \<Rightarrow> clusterState \<Rightarrow> bool" where
  "node_inv C i s \<longleftrightarrow> nodes_ok (rc_env C i) s \<and> is_ll (cl_current_term s) \<and> dictSize (cl_nodes s) = card (rc_nodes C) \<and>
     (\<exists>me. myself_name s = Some me \<and> length me = 40 \<and> cstr me = i)"

definition start :: "raftcfg \<Rightarrow> world \<Rightarrow> bool" where
  "start C w \<longleftrightarrow> w_net w = {#} \<and> w_votes w = {} \<and> w_counted w = {} \<and> w_leaders w = {} \<and>
     (\<forall>i \<in> rc_nodes C. node_inv C i (w_node w i) \<and> cl_state (w_node w i) = PREZ_FOLLOWER \<and> cl_voted_for (w_node w i) = SdsName [])"

inductive reachable :: "raftcfg \<Rightarrow> world \<Rightarrow> bool" for C where
  init: "start C w \<Longrightarrow> reachable C w"
| step: "reachable C w \<Longrightarrow> raft_step C w w' \<Longrightarrow> reachable C w'"


section \<open>The invariant\<close>

type_synonym transit = "string \<times> string \<times> string"

definition is_req :: "string \<Rightarrow> string \<Rightarrow> int \<Rightarrow> transit \<Rightarrow> bool" where
  "is_req c v t x \<longleftrightarrow> fst x = c \<and> fst (snd x) = v \<and> (\<exists>r. packet_msg (snd (snd x)) = Some (RequestVote r) \<and> rv_term r = t)"

definition is_grant :: "string \<Rightarrow> string \<Rightarrow> int \<Rightarrow> transit \<Rightarrow> bool" where
  "is_grant v c t x \<longleftrightarrow> fst x = v \<and> fst (snd x) = c \<and>
     (\<exists>r. packet_msg (snd (snd x)) = Some (ResponseVote r) \<and> vote_granted r \<noteq> 0 \<and> rvr_term r = t)"

abbreviation wterm :: "world \<Rightarrow> string \<Rightarrow> int" where "wterm w i \<equiv> cl_current_term (w_node w i)"
abbreviation wvote :: "world \<Rightarrow> string \<Rightarrow> string" where "wvote w i \<equiv> name_of (cl_voted_for (w_node w i))"

definition how_many :: "(transit \<Rightarrow> bool) \<Rightarrow> transit multiset \<Rightarrow> nat" where
  "how_many P M = size (filter_mset P M)"

text \<open>The ways in which the vote of \<open>v\<close> for \<open>c\<close> in term \<open>t\<close> is still to be counted or was counted:
  a request under way, a grant under way, or an entry of the history.\<close>

definition tokens :: "transit multiset \<Rightarrow> (string \<times> int \<times> string) set \<Rightarrow> string \<Rightarrow> string \<Rightarrow> int \<Rightarrow> nat" where
  "tokens net counted c v t = how_many (is_req c v t) net + how_many (is_grant v c t) net +
     (if (c, t, v) \<in> counted then 1 else 0)"

definition votes_inv :: "raftcfg \<Rightarrow> world \<Rightarrow> bool" where
  "votes_inv C w \<longleftrightarrow>
     (\<forall>v t c. (v, t, c) \<in> w_votes w \<longrightarrow> v \<in> rc_nodes C \<and> c \<in> rc_nodes C \<and> t \<le> wterm w v \<and> t \<le> wterm w c \<and> (t = wterm w v \<longrightarrow> wvote w v = c)) \<and>
     (\<forall>v t c c'. (v, t, c) \<in> w_votes w \<longrightarrow> (v, t, c') \<in> w_votes w \<longrightarrow> c = c') \<and>
     (\<forall>v \<in> rc_nodes C. wvote w v \<noteq> [] \<longrightarrow> (v, wterm w v, wvote w v) \<in> w_votes w)"

definition net_inv :: "raftcfg \<Rightarrow> world \<Rightarrow> bool" where
  "net_inv C w \<longleftrightarrow>
     (\<forall>v c t x. x \<in># w_net w \<longrightarrow> is_grant v c t x \<longrightarrow> (v, t, c) \<in> w_votes w \<and> v \<noteq> c) \<and>
     (\<forall>x r. x \<in># w_net w \<longrightarrow> packet_msg (snd (snd x)) = Some (RequestVote r) \<longrightarrow>
        fst x \<in> rc_nodes C \<and> cstr (rv_candidateid r) = fst x \<and> rv_term r \<le> wterm w (fst x)) \<and>
     (\<forall>c \<in> rc_nodes C. \<forall>v. tokens (w_net w) (w_counted w) c v (wterm w c) \<le> 1)"

definition quorum_for :: "raftcfg \<Rightarrow> (string \<times> int \<times> string) set \<Rightarrow> int \<Rightarrow> string \<Rightarrow> bool" where
  "quorum_for C votes t i \<longleftrightarrow> (\<exists>Q \<subseteq> rc_nodes C. card (rc_nodes C) < 2 * card Q \<and> (\<forall>v \<in> Q. (v, t, i) \<in> votes))"

definition count_inv :: "raftcfg \<Rightarrow> world \<Rightarrow> bool" where
  "count_inv C w \<longleftrightarrow>
     (\<forall>c t v. (c, t, v) \<in> w_counted w \<longrightarrow> c \<in> rc_nodes C \<and> t \<le> wterm w c \<and> (v, t, c) \<in> w_votes w \<and> v \<noteq> c) \<and>
     (\<forall>c \<in> rc_nodes C. cl_state (w_node w c) = PREZ_CANDIDATE \<longrightarrow>
        cl_votes_granted (w_node w c) = 1 + int (card {v. (c, wterm w c, v) \<in> w_counted w}) \<and> wvote w c = c) \<and>
     (\<forall>i \<in> rc_nodes C. cl_state (w_node w i) = PREZ_LEADER \<longrightarrow> (wterm w i, i) \<in> w_leaders w) \<and>
     (\<forall>t i. (t, i) \<in> w_leaders w \<longrightarrow> quorum_for C (w_votes w) t i)"

definition raft_inv :: "raftcfg \<Rightarrow> world \<Rightarrow> bool" where
  "raft_inv C w \<longleftrightarrow> (\<forall>i \<in> rc_nodes C. node_inv C i (w_node w i)) \<and> votes_inv C w \<and> net_inv C w \<and> count_inv C w"

text \<open>What a step of server \<open>i\<close> has to satisfy to keep the invariant.\<close>

definition new_vote :: "string \<Rightarrow> clusterState \<Rightarrow> (string \<times> int \<times> string) set" where
  "new_vote i s' = (if name_of (cl_voted_for s') = [] then {} else {(i, cl_current_term s', name_of (cl_voted_for s'))})"

definition sound_ballot :: "raftcfg \<Rightarrow> world \<Rightarrow> string \<Rightarrow> clusterState \<Rightarrow> (string \<times> int \<times> string) set \<Rightarrow> bool" where
  "sound_ballot C w i s' counted \<longleftrightarrow>
     same_id (w_node w i) s' \<and> is_ll (cl_current_term s') \<and> wterm w i \<le> cl_current_term s' \<and>
     (cl_current_term s' = wterm w i \<longrightarrow> wvote w i \<noteq> [] \<longrightarrow> name_of (cl_voted_for s') = wvote w i) \<and>
     (name_of (cl_voted_for s') \<noteq> [] \<longrightarrow> name_of (cl_voted_for s') \<in> rc_nodes C \<and>
        (name_of (cl_voted_for s') = i \<or> cl_current_term s' \<le> wterm w (name_of (cl_voted_for s')))) \<and>
     (cl_state s' = PREZ_CANDIDATE \<longrightarrow> name_of (cl_voted_for s') = i \<and>
        cl_votes_granted s' = 1 + int (card {v. (i, cl_current_term s', v) \<in> w_counted w \<union> counted})) \<and>
     (cl_state s' = PREZ_LEADER \<longrightarrow> quorum_for C (w_votes w \<union> new_vote i s') (cl_current_term s') i)"

definition sound_traffic :: "world \<Rightarrow> string \<Rightarrow> clusterState \<Rightarrow> transit multiset \<Rightarrow> transit multiset \<Rightarrow> (string \<times> int \<times> string) set \<Rightarrow> bool" where
  "sound_traffic w i s' taken sent counted \<longleftrightarrow>
     taken \<subseteq># w_net w \<and> (\<forall>x. x \<in># sent \<longrightarrow> fst x = i) \<and>
     (\<forall>x c t. x \<in># sent \<longrightarrow> is_grant i c t x \<longrightarrow> t = cl_current_term s' \<and> c = name_of (cl_voted_for s') \<and> c \<noteq> [] \<and> c \<noteq> i) \<and>
     (\<forall>x r. x \<in># sent \<longrightarrow> packet_msg (snd (snd x)) = Some (RequestVote r) \<longrightarrow>
        cstr (rv_candidateid r) = i \<and> rv_term r = cl_current_term s' \<and> wterm w i < cl_current_term s') \<and>
     (\<forall>v. how_many (is_req i v (cl_current_term s')) sent \<le> 1) \<and>
     (\<forall>c. how_many (is_grant i c (cl_current_term s')) sent \<le> how_many (is_req c i (cl_current_term s')) taken) \<and>
     (\<forall>c t v. (c, t, v) \<in> counted \<longrightarrow> c = i \<and> t = cl_current_term s' \<and> t = wterm w i \<and> (\<exists>x \<in># taken. is_grant v i t x))"

lemma filter_net:
  fixes P :: "transit \<Rightarrow> bool"
  assumes "taken \<subseteq># net"
  shows "how_many P (net - taken + sent) + how_many P taken = how_many P net + how_many P sent"
    "how_many P taken \<le> how_many P net"
proof -
  obtain r where "net = taken + r" using assms by (auto simp: subset_mset.le_iff_add)
  then show "how_many P (net - taken + sent) + how_many P taken = how_many P net + how_many P sent"
    "how_many P taken \<le> how_many P net" by (auto simp: how_many_def)
qed

lemma filter_none: "(\<And>x. x \<in># M \<Longrightarrow> \<not> P x) \<Longrightarrow> how_many P M = 0"
  by (simp add: how_many_def filter_mset_eq_conv)

lemma sound_trafficD:
  assumes "sound_traffic w i s' taken sent counted"
  shows "taken \<subseteq># w_net w" "\<And>x. x \<in># sent \<Longrightarrow> fst x = i"
    "\<And>x c t. x \<in># sent \<Longrightarrow> is_grant i c t x \<Longrightarrow> t = cl_current_term s' \<and> c = name_of (cl_voted_for s') \<and> c \<noteq> [] \<and> c \<noteq> i"
    "\<And>x r. x \<in># sent \<Longrightarrow> packet_msg (snd (snd x)) = Some (RequestVote r) \<Longrightarrow>
       cstr (rv_candidateid r) = i \<and> rv_term r = cl_current_term s' \<and> wterm w i < cl_current_term s'"
    "\<And>v. how_many (is_req i v (cl_current_term s')) sent \<le> 1"
    "\<And>c. how_many (is_grant i c (cl_current_term s')) sent \<le> how_many (is_req c i (cl_current_term s')) taken"
    "\<And>c t v. (c, t, v) \<in> counted \<Longrightarrow> c = i \<and> t = cl_current_term s' \<and> t = wterm w i \<and> (\<exists>x \<in># taken. is_grant v i t x)"
  using assms unfolding sound_traffic_def by blast+

lemma tokens_step:
  assumes inv: "raft_inv C w" and tr: "sound_traffic w i s' taken sent counted"
    and le: "wterm w i \<le> cl_current_term s'" and c: "c \<in> rc_nodes C"
  shows "tokens (w_net w - taken + sent) (w_counted w \<union> counted) c v (if c = i then cl_current_term s' else wterm w c) \<le> 1"
proof -
  define t where "t = (if c = i then cl_current_term s' else wterm w c)"
  note tr = sound_trafficD [OF tr]
  note R = filter_net(1) [OF tr(1), of "is_req c v t" sent] filter_net(2) [OF tr(1), of "is_req c v t"]
    and G = filter_net(1) [OF tr(1), of "is_grant v c t" sent] filter_net(2) [OF tr(1), of "is_grant v c t"]
  have old: "tokens (w_net w) (w_counted w) c v (wterm w c) \<le> 1" using inv c unfolding raft_inv_def net_inv_def by blast
  consider (other) "c \<noteq> i" | (same) "c = i" "cl_current_term s' = wterm w i" | (newer) "c = i" "wterm w i < cl_current_term s'"
    using le by linarith
  then have "tokens (w_net w - taken + sent) (w_counted w \<union> counted) c v t \<le> 1"
  proof cases
    case other
    have r: "how_many (is_req c v t) sent = 0"
      by (rule filter_none) (use tr(2) other in \<open>auto simp: is_req_def\<close>)
    have g: "how_many (is_grant v c t) sent \<le> how_many (is_req c v t) taken"
    proof (cases "v = i \<and> t = cl_current_term s'")
      case False
      have "how_many (is_grant v c t) sent = 0"
      proof (rule filter_none)
        fix x assume "x \<in># sent"
        then show "\<not> is_grant v c t x" using False tr(2,3) [of x] unfolding is_grant_def by metis
      qed
      then show ?thesis by linarith
    qed (use tr(6) in blast)
    have "(c, t, v) \<notin> counted" using tr(7) other by blast
    then show ?thesis using R G r g old other unfolding tokens_def t_def by (auto split: if_splits)
  next
    case same
    have r: "how_many (is_req c v t) sent = 0"
      by (rule filter_none) (use tr(4) same in \<open>auto simp: is_req_def\<close>)
    have g: "how_many (is_grant v c t) sent = 0"
    proof (rule filter_none)
      fix x assume "x \<in># sent"
      then show "\<not> is_grant v c t x" using same tr(2,3) [of x] unfolding is_grant_def by metis
    qed
    have k: "1 \<le> how_many (is_grant v c t) taken" if mem: "(c, t, v) \<in> counted"
    proof -
      obtain x where "x \<in># taken" "is_grant v c t x" using tr(7) [OF mem] same by auto
      then have "filter_mset (is_grant v c t) taken \<noteq> {#}" by (cases x) auto
      then have "size (filter_mset (is_grant v c t) taken) \<noteq> 0" unfolding size_eq_0_iff_empty .
      then show ?thesis unfolding how_many_def by linarith
    qed
    then show ?thesis using R G r g old same unfolding tokens_def t_def by (auto split: if_splits)
  next
    case newer
    have o: "how_many (is_req c v t) (w_net w) = 0"
    proof (rule filter_none)
      fix x assume "x \<in># w_net w"
      then have "is_req c v t x \<Longrightarrow> t \<le> wterm w c" using inv unfolding raft_inv_def net_inv_def is_req_def by blast
      then show "\<not> is_req c v t x" using newer by (auto simp: t_def)
    qed
    have "how_many (is_grant v c t) (w_net w) = 0"
    proof (rule filter_none)
      fix x assume "x \<in># w_net w"
      then have "is_grant v c t x \<Longrightarrow> t \<le> wterm w c" using inv unfolding raft_inv_def net_inv_def votes_inv_def by blast
      then show "\<not> is_grant v c t x" using newer by (auto simp: t_def)
    qed
    moreover have "how_many (is_grant v c t) sent = 0"
    proof (rule filter_none)
      fix x assume "x \<in># sent"
      then show "\<not> is_grant v c t x" using newer tr(2,3) [of x] unfolding is_grant_def by metis
    qed
    moreover have "(c, t, v) \<notin> w_counted w"
    proof
      assume "(c, t, v) \<in> w_counted w"
      then have "t \<le> wterm w c" using inv unfolding raft_inv_def count_inv_def by blast
      then show False using newer by (simp add: t_def)
    qed
    moreover have "(c, t, v) \<notin> counted"
    proof
      assume "(c, t, v) \<in> counted"
      from tr(7) [OF this] newer show False by linarith
    qed
    moreover have "how_many (is_req c v t) sent \<le> 1" using tr(5) newer by (simp add: t_def)
    ultimately show ?thesis using R G o unfolding tokens_def by auto
  qed
  then show ?thesis by (simp add: t_def)
qed

section \<open>Preservation\<close>

lemma w_step_simps [simp]:
  "w_node (w_step C i s' taken counted w) = (w_node w)(i := s')"
  "w_net (w_step C i s' taken counted w) = w_net w - taken + sent_packets C i (w_node w i) s'"
  "w_votes (w_step C i s' taken counted w) = w_votes w \<union> new_vote i s'"
  "w_counted (w_step C i s' taken counted w) = w_counted w \<union> counted"
  "w_leaders (w_step C i s' taken counted w) = w_leaders w \<union> (if cl_state s' = PREZ_LEADER then {(cl_current_term s', i)} else {})"
  by (simp_all add: w_step_def new_vote_def)

lemma sound_ballotD:
  assumes "sound_ballot C w i s' counted"
  shows "same_id (w_node w i) s'" "is_ll (cl_current_term s')" "wterm w i \<le> cl_current_term s'"
    "cl_current_term s' = wterm w i \<Longrightarrow> wvote w i \<noteq> [] \<Longrightarrow> name_of (cl_voted_for s') = wvote w i"
    "name_of (cl_voted_for s') \<noteq> [] \<Longrightarrow> name_of (cl_voted_for s') \<in> rc_nodes C \<and>
        (name_of (cl_voted_for s') = i \<or> cl_current_term s' \<le> wterm w (name_of (cl_voted_for s')))"
    "cl_state s' = PREZ_CANDIDATE \<Longrightarrow> name_of (cl_voted_for s') = i \<and>
        cl_votes_granted s' = 1 + int (card {v. (i, cl_current_term s', v) \<in> w_counted w \<union> counted})"
    "cl_state s' = PREZ_LEADER \<Longrightarrow> quorum_for C (w_votes w \<union> new_vote i s') (cl_current_term s') i"
  using assms unfolding sound_ballot_def by blast+

lemma votes_invD:
  assumes "votes_inv C w"
  shows "\<And>v t c. (v, t, c) \<in> w_votes w \<Longrightarrow> v \<in> rc_nodes C \<and> c \<in> rc_nodes C \<and> t \<le> wterm w v \<and> t \<le> wterm w c \<and> (t = wterm w v \<longrightarrow> wvote w v = c)"
    "\<And>v t c c'. (v, t, c) \<in> w_votes w \<Longrightarrow> (v, t, c') \<in> w_votes w \<Longrightarrow> c = c'"
    "\<And>v. v \<in> rc_nodes C \<Longrightarrow> wvote w v \<noteq> [] \<Longrightarrow> (v, wterm w v, wvote w v) \<in> w_votes w"
  using assms unfolding votes_inv_def by blast+

lemma new_vote_iff: "(v, t, c) \<in> new_vote i s' \<longleftrightarrow> v = i \<and> t = cl_current_term s' \<and> c = name_of (cl_voted_for s') \<and> c \<noteq> []"
  by (auto simp: new_vote_def)

lemma votes_step:
  assumes C: "config_ok C" and inv: "votes_inv C w" and i: "i \<in> rc_nodes C" and bal: "sound_ballot C w i s' counted"
  shows "votes_inv C (w_step C i s' taken counted w)"
proof -
  let ?w = "w_step C i s' taken counted w"
  note b = sound_ballotD [OF bal] and I = votes_invD [OF inv]
  have mono: "wterm w j \<le> wterm ?w j" for j using b(3) by simp
  have ne: "j \<in> rc_nodes C \<Longrightarrow> j \<noteq> []" for j using C by (auto simp: config_ok_def)
  have held: "name_of (cl_voted_for s') = c" if "(i, cl_current_term s', c) \<in> w_votes w" for c
  proof -
    from I(1) [OF that] b(3) have t: "cl_current_term s' = wterm w i" by linarith
    with I(1) [OF that] have "wvote w i = c" "c \<in> rc_nodes C" by auto
    with b(4) [OF t] ne show ?thesis by auto
  qed
  have 1: "v \<in> rc_nodes C \<and> c \<in> rc_nodes C \<and> t \<le> wterm ?w v \<and> t \<le> wterm ?w c \<and> (t = wterm ?w v \<longrightarrow> wvote ?w v = c)"
    if vt: "(v, t, c) \<in> w_votes ?w" for v t c
  proof (cases "(v, t, c) \<in> w_votes w")
    case True
    note h = I(1) [OF True]
    have "t = wterm ?w v \<longrightarrow> wvote ?w v = c" using h held True by (cases "v = i") auto
    with h mono [of v] mono [of c] show ?thesis by auto
  next
    case False
    then have n: "v = i" "t = cl_current_term s'" "c = name_of (cl_voted_for s')" "c \<noteq> []" using vt by (auto simp: new_vote_iff)
    with b(5) i show ?thesis by auto
  qed
  have 2: "c = c'" if "(v, t, c) \<in> w_votes ?w" "(v, t, c') \<in> w_votes ?w" for v t c c'
  proof -
    have "(v, t, c) \<in> w_votes w \<or> (v, t, c) \<in> new_vote i s'" "(v, t, c') \<in> w_votes w \<or> (v, t, c') \<in> new_vote i s'"
      using that by auto
    then show ?thesis using I(2) held new_vote_iff by metis
  qed
  have 3: "(v, wterm ?w v, wvote ?w v) \<in> w_votes ?w" if "v \<in> rc_nodes C" "wvote ?w v \<noteq> []" for v
    using that I(3) [of v] by (cases "v = i") (auto simp: new_vote_iff)
  show ?thesis unfolding votes_inv_def using 1 2 3 by blast
qed

lemma net_step:
  assumes inv: "raft_inv C w" and i: "i \<in> rc_nodes C" and bal: "sound_ballot C w i s' counted"
    and tr: "sound_traffic w i s' taken (sent_packets C i (w_node w i) s') counted"
  shows "net_inv C (w_step C i s' taken counted w)"
proof -
  let ?w = "w_step C i s' taken counted w" and ?sent = "sent_packets C i (w_node w i) s'"
  note b = sound_ballotD [OF bal] and T = sound_trafficD [OF tr]
  have sub: "x \<in># w_net w \<or> x \<in># ?sent" if "x \<in># w_net ?w" for x using that by (auto dest: in_diffD)
  have mono: "wterm w j \<le> wterm ?w j" for j using b(3) by simp
  have "(v, t, c) \<in> w_votes ?w \<and> v \<noteq> c" if x: "x \<in># w_net ?w" "is_grant v c t x" for v c t x
    using sub [OF x(1)]
  proof
    assume "x \<in># w_net w"
    then have "(v, t, c) \<in> w_votes w \<and> v \<noteq> c" using inv x(2) unfolding raft_inv_def net_inv_def by blast
    then show ?thesis by simp
  next
    assume s: "x \<in># ?sent"
    then have v: "v = i" using T(2) [OF s] x(2) by (simp add: is_grant_def)
    with T(3) [OF s] x(2) show ?thesis by (auto simp: new_vote_iff)
  qed
  moreover have "fst x \<in> rc_nodes C \<and> cstr (rv_candidateid r) = fst x \<and> rv_term r \<le> wterm ?w (fst x)"
    if x: "x \<in># w_net ?w" "packet_msg (snd (snd x)) = Some (RequestVote r)" for x r
    using sub [OF x(1)]
  proof
    assume "x \<in># w_net w"
    then have "fst x \<in> rc_nodes C \<and> cstr (rv_candidateid r) = fst x \<and> rv_term r \<le> wterm w (fst x)"
      using inv x(2) unfolding raft_inv_def net_inv_def by blast
    with mono [of "fst x"] show ?thesis by linarith
  next
    assume s: "x \<in># ?sent"
    with T(2) [OF s] T(4) [OF s x(2)] i show ?thesis by simp
  qed
  moreover have "tokens (w_net ?w) (w_counted ?w) c v (wterm ?w c) \<le> 1" if "c \<in> rc_nodes C" for c v
    using tokens_step [OF inv tr b(3) that, of v] by (cases "c = i") simp_all
  ultimately show ?thesis unfolding net_inv_def by blast
qed

lemma quorum_mono: "quorum_for C V t i \<Longrightarrow> V \<subseteq> V' \<Longrightarrow> quorum_for C V' t i"
  unfolding quorum_for_def by blast

lemma count_step:
  assumes inv: "raft_inv C w" and i: "i \<in> rc_nodes C" and bal: "sound_ballot C w i s' counted"
    and tr: "sound_traffic w i s' taken sent counted"
  shows "count_inv C (w_step C i s' taken counted w)"
proof -
  let ?w = "w_step C i s' taken counted w"
  note b = sound_ballotD [OF bal] and T = sound_trafficD [OF tr]
  have ci: "count_inv C w" and ni: "net_inv C w" using inv by (auto simp: raft_inv_def)
  have mono: "wterm w j \<le> wterm ?w j" for j using b(3) by simp
  have "c \<in> rc_nodes C \<and> t \<le> wterm ?w c \<and> (v, t, c) \<in> w_votes ?w \<and> v \<noteq> c" if k: "(c, t, v) \<in> w_counted ?w" for c t v
  proof (cases "(c, t, v) \<in> w_counted w")
    case True
    then have "c \<in> rc_nodes C \<and> t \<le> wterm w c \<and> (v, t, c) \<in> w_votes w \<and> v \<noteq> c" using ci unfolding count_inv_def by blast
    with mono [of c] show ?thesis by auto
  next
    case False
    with k have k: "(c, t, v) \<in> counted" by simp
    from T(7) [OF k] obtain x where x: "c = i" "t = cl_current_term s'" "x \<in># taken" "is_grant v i t x" by blast
    then have "x \<in># w_net w" using T(1) by (meson mset_subset_eqD)
    then have "(v, t, i) \<in> w_votes w \<and> v \<noteq> i" using ni x(4) unfolding net_inv_def by blast
    with x i show ?thesis by simp
  qed
  moreover have "cl_votes_granted (w_node ?w c) = 1 + int (card {v. (c, wterm ?w c, v) \<in> w_counted ?w}) \<and> wvote ?w c = c"
    if c: "c \<in> rc_nodes C" "cl_state (w_node ?w c) = PREZ_CANDIDATE" for c
  proof (cases "c = i")
    case True
    with c(2) b(6) show ?thesis by simp
  next
    case False
    then have "{v. (c, wterm w c, v) \<in> w_counted w \<union> counted} = {v. (c, wterm w c, v) \<in> w_counted w}" using T(7) by blast
    moreover have "cl_votes_granted (w_node w c) = 1 + int (card {v. (c, wterm w c, v) \<in> w_counted w}) \<and> wvote w c = c"
      using ci c False unfolding count_inv_def by simp
    ultimately show ?thesis using False by simp
  qed
  moreover have "(wterm ?w j, j) \<in> w_leaders ?w" if "j \<in> rc_nodes C" "cl_state (w_node ?w j) = PREZ_LEADER" for j
    using that ci by (cases "j = i") (auto simp: count_inv_def)
  moreover have "quorum_for C (w_votes ?w) t j" if l: "(t, j) \<in> w_leaders ?w" for t j
  proof (cases "(t, j) \<in> w_leaders w")
    case True
    then have "quorum_for C (w_votes w) t j" using ci unfolding count_inv_def by blast
    then show ?thesis by (rule quorum_mono) simp
  next
    case False
    with l have "cl_state s' = PREZ_LEADER" "t = cl_current_term s'" "j = i" by (auto split: if_splits)
    with b(7) show ?thesis by simp
  qed
  ultimately show ?thesis unfolding count_inv_def by blast
qed

lemma node_inv_same_id: "node_inv C i s \<Longrightarrow> same_id s s' \<Longrightarrow> is_ll (cl_current_term s') \<Longrightarrow> node_inv C i s'"
  using same_id_nodes(1) [of s s' "rc_env C i"] same_id_nodes(2) [of s s'] same_id_name [of s s'] by (simp add: node_inv_def)

lemma inv_step:
  assumes "config_ok C" "raft_inv C w" "i \<in> rc_nodes C" "sound_ballot C w i s' counted"
    "sound_traffic w i s' taken (sent_packets C i (w_node w i) s') counted"
  shows "raft_inv C (w_step C i s' taken counted w)"
proof -
  have "node_inv C j (w_node (w_step C i s' taken counted w) j)" if "j \<in> rc_nodes C" for j
    using that assms(2,3) node_inv_same_id [of C i "w_node w i" s'] sound_ballotD(1,2) [OF assms(4)]
    by (cases "j = i") (auto simp: raft_inv_def)
  then show ?thesis
    using votes_step [OF assms(1) _ assms(3,4)] net_step [OF assms(2-5)] count_step [OF assms(2-5)] assms(2)
    unfolding raft_inv_def by blast
qed

section \<open>The packets a step sends\<close>

lemma sent_mem: "x \<in># sent_packets C i s s' \<Longrightarrow> \<exists>a. new_bytes s s' a \<noteq> [] \<and> x = (i, rc_peer C i a, new_bytes s s' a)"
  by (auto simp: sent_packets_def Let_def split: if_splits)

lemma sum_at_most_one:
  fixes g :: "'a \<Rightarrow> nat"
  assumes "distinct xs" "\<And>a. g a \<le> 1" "\<And>a b. g a \<noteq> 0 \<Longrightarrow> g b \<noteq> 0 \<Longrightarrow> a = b"
  shows "sum_list (map g xs) \<le> 1"
  using assms(1)
proof (induction xs)
  case (Cons x xs)
  show ?case
  proof (cases "g x = 0")
    case False
    then have "\<forall>b \<in> set xs. g b = 0" using assms(3) [of x] Cons.prems by (metis distinct.simps(2))
    then have z: "sum_list (map g xs) = 0" by simp
    show ?thesis unfolding list.map sum_list.Cons z using assms(2) [of x] by linarith
  qed (use Cons in simp)
qed simp

lemma sent_at_most_one:
  assumes "\<And>a b. new_bytes s s' a \<noteq> [] \<Longrightarrow> P (i, rc_peer C i a, new_bytes s s' a) \<Longrightarrow>
      new_bytes s s' b \<noteq> [] \<Longrightarrow> P (i, rc_peer C i b, new_bytes s s' b) \<Longrightarrow> a = b"
  shows "how_many P (sent_packets C i s s') \<le> 1"
proof -
  let ?f = "\<lambda>a. let b = new_bytes s s' a in if b = [] then [] else [(i, rc_peer C i a, b)]"
  let ?g = "\<lambda>a. how_many P (mset (?f a))"
  have "how_many P (mset (concat (map ?f xs))) = sum_list (map ?g xs)" for xs
    by (induction xs) (simp_all add: how_many_def)
  then have "how_many P (sent_packets C i s s') = sum_list (map ?g [0..<cl_fresh s'])" by (simp add: sent_packets_def)
  also have "\<dots> \<le> 1"
  proof (rule sum_at_most_one)
    show "?g a \<le> 1" for a by (simp add: how_many_def Let_def)
    show "a = b" if "?g a \<noteq> 0" "?g b \<noteq> 0" for a b
      using that assms [of a b] by (simp add: how_many_def Let_def split: if_splits)
  qed simp
  finally show ?thesis .
qed

text \<open>A step that sends neither requests nor votes.\<close>

definition no_vote_traffic :: "raftcfg \<Rightarrow> string \<Rightarrow> clusterState \<Rightarrow> clusterState \<Rightarrow> bool" where
  "no_vote_traffic C i s s' \<longleftrightarrow> (\<forall>x m. x \<in># sent_packets C i s s' \<longrightarrow> packet_msg (snd (snd x)) = Some m \<longrightarrow> msg_type m = 3 \<or> msg_type m = 4)"

lemma no_vote_sound:
  assumes nv: "no_vote_traffic C i (w_node w i) s'" and sub: "taken \<subseteq># w_net w"
    and k: "\<And>c t v. (c, t, v) \<in> counted \<Longrightarrow> c = i \<and> t = cl_current_term s' \<and> t = wterm w i \<and> (\<exists>x \<in># taken. is_grant v i t x)"
  shows "sound_traffic w i s' taken (sent_packets C i (w_node w i) s') counted"
proof -
  let ?sent = "sent_packets C i (w_node w i) s'"
  have rv: "packet_msg (snd (snd x)) \<noteq> Some (RequestVote r)" if "x \<in># ?sent" for x r
  proof
    assume "packet_msg (snd (snd x)) = Some (RequestVote r)"
    with nv that have "msg_type (RequestVote r) = 3 \<or> msg_type (RequestVote r) = 4" unfolding no_vote_traffic_def by blast
    then show False by (simp add: msg_type_def)
  qed
  have gr: "\<not> is_grant v c t x" if x: "x \<in># ?sent" for v c t x
  proof
    assume "is_grant v c t x"
    then obtain r where "packet_msg (snd (snd x)) = Some (ResponseVote r)" by (auto simp: is_grant_def)
    with nv x have "msg_type (ResponseVote r) = 3 \<or> msg_type (ResponseVote r) = 4" unfolding no_vote_traffic_def by blast
    then show False by (simp add: msg_type_def)
  qed
  have "how_many (is_grant v c t) ?sent = 0" for v c t by (rule filter_none) (rule gr)
  then have "how_many (is_grant v c t) ?sent \<le> n" for v c t n by simp
  moreover have "how_many (is_req c v t) ?sent = 0" for v c t by (rule filter_none) (use rv in \<open>simp add: is_req_def\<close>)
  then have "how_many (is_req c v t) ?sent \<le> 1" for v c t by simp
  moreover have "fst x = i" if "x \<in># ?sent" for x using sent_mem [OF that] by auto
  ultimately show ?thesis unfolding sound_traffic_def using sub rv gr k by blast
qed

lemma silent_no_vote: "silent s s' \<Longrightarrow> no_vote_traffic C i s s'"
proof -
  assume s: "silent s s'"
  have "new_bytes s s' a = []" for a
  proof -
    obtain n where "sndbuf s' a = drop n (sndbuf s a)" using s unfolding silent_def by blast
    then show ?thesis by (simp add: new_bytes_def)
  qed
  then show ?thesis unfolding no_vote_traffic_def using sent_mem by blast
qed

lemma append_no_vote:
  assumes me: "length me = 40" and nb: "\<And>a. new_bytes s s' a = [] \<or>
    (\<exists>m r. (msg_type m = 3 \<or> msg_type m = 4) \<and> new_bytes s s' a = enc_msg me port m @ r)"
  shows "no_vote_traffic C i s s'"
  unfolding no_vote_traffic_def
proof (intro allI impI)
  fix x m assume x: "x \<in># sent_packets C i s s'" and m: "packet_msg (snd (snd x)) = Some m"
  from sent_mem [OF x] obtain a where a: "new_bytes s s' a \<noteq> []" "snd (snd x) = new_bytes s s' a" by auto
  then obtain m' r where "msg_type m' = 3 \<or> msg_type m' = 4" "snd (snd x) = enc_msg me port m' @ r" using nb [of a] by auto
  then show "msg_type m = 3 \<or> msg_type m = 4" using packet_type [OF me, of port m' r m] m by simp
qed

lemma replicating_no_vote:
  assumes me: "myself_name s = Some me" "length me = 40" and r: "replicating env s s'"
  shows "no_vote_traffic C i s s'"
proof (rule append_no_vote [OF me(2)])
  fix a
  obtain es where es: "sndbuf s' a = sndbuf s a @ concat (map (\<lambda>e. enc_msg me (be_port env) (AppendEntries e)) es)"
    using r me(1) unfolding replicating_def by auto
  show "new_bytes s s' a = [] \<or> (\<exists>m r. (msg_type m = 3 \<or> msg_type m = 4) \<and> new_bytes s s' a = enc_msg me (be_port env) m @ r)"
  proof (cases es)
    case (Cons e es')
    have "msg_type (AppendEntries e) = 3" by (simp add: msg_type_def)
    then show ?thesis using es Cons by (auto simp: new_bytes_def)
  qed (use es in \<open>simp add: new_bytes_def\<close>)
qed

lemma one_link_new_bytes: "sndbuf s' = (sndbuf s)(a := sndbuf s a @ p) \<Longrightarrow> new_bytes s s' b = (if b = a then p else [])"
  by (simp add: new_bytes_def)

section \<open>The ballots a step leaves behind\<close>

lemma raft_invD:
  assumes "raft_inv C w" "i \<in> rc_nodes C"
  shows "node_inv C i (w_node w i)" "votes_inv C w" "net_inv C w" "count_inv C w"
    "cl_state (w_node w i) = PREZ_CANDIDATE \<Longrightarrow>
       cl_votes_granted (w_node w i) = 1 + int (card {v. (i, wterm w i, v) \<in> w_counted w}) \<and> wvote w i = i"
    "cl_state (w_node w i) = PREZ_LEADER \<Longrightarrow> quorum_for C (w_votes w) (wterm w i) i"
    "wvote w i \<noteq> [] \<Longrightarrow> wvote w i \<in> rc_nodes C \<and> wterm w i \<le> wterm w (wvote w i)"
  using assms unfolding raft_inv_def count_inv_def votes_inv_def by blast+

text \<open>The ballot is the same, or the server went back to being a follower in the same term.\<close>

lemma calm_ballot:
  assumes inv: "raft_inv C w" and i: "i \<in> rc_nodes C" and id: "same_id (w_node w i) s'"
    and b: "cl_current_term s' = wterm w i" "cl_voted_for s' = cl_voted_for (w_node w i)" "cl_votes_granted s' = cl_votes_granted (w_node w i)"
      "cl_state s' = cl_state (w_node w i) \<or> cl_state s' = PREZ_FOLLOWER"
  shows "sound_ballot C w i s' {}"
proof -
  note I = raft_invD [OF inv i]
  have "is_ll (wterm w i)" using I(1) by (simp add: node_inv_def)
  moreover have "cl_state s' = PREZ_LEADER \<Longrightarrow> quorum_for C (w_votes w \<union> new_vote i s') (wterm w i) i"
    using b(4) quorum_mono [OF I(6)] by auto
  ultimately show ?thesis unfolding sound_ballot_def using id b I(5,7) by auto
qed

text \<open>The server saw a newer term and forgot its vote.\<close>

lemma down_ballot:
  assumes "same_id (w_node w i) s'" "is_ll t" "wterm w i < t" "ballot s' = (PREZ_FOLLOWER, t, SdsName [], k)"
  shows "sound_ballot C w i s' {}"
  using assms by (simp add: sound_ballot_def ballot_def name_of_def)

lemma candidate_ballot:
  assumes C: "config_ok C" and inv: "raft_inv C w" and i: "i \<in> rc_nodes C" and id: "same_id (w_node w i) s'" and top: "wterm w i < LLONG_MAX"
    and b: "ballot s' = (PREZ_CANDIDATE, ll (wterm w i + 1), ZName i, 1)"
  shows "sound_ballot C w i s' {}" "cl_current_term s' = wterm w i + 1"
proof -
  note I = raft_invD [OF inv i]
  have "is_ll (wterm w i + 1)" using I(1) top by (auto simp: node_inv_def is_ll_def)
  then have t: "cl_current_term s' = wterm w i + 1" "is_ll (cl_current_term s')" using b by (auto simp: ballot_def ll_id)
  have "(i, wterm w i + 1, v) \<notin> w_counted w" for v
  proof
    assume "(i, wterm w i + 1, v) \<in> w_counted w"
    then have "wterm w i + 1 \<le> wterm w i" using I(4) unfolding count_inv_def by blast
    then show False by simp
  qed
  then have "{v. (i, cl_current_term s', v) \<in> w_counted w \<union> {}} = {}" by (simp add: t(1))
  then show "sound_ballot C w i s' {}" using b id i t by (simp add: sound_ballot_def ballot_def name_of_def)
  show "cl_current_term s' = wterm w i + 1" by (rule t(1))
qed

lemma leader_ballot:
  assumes C: "config_ok C" and inv: "raft_inv C w" and i: "i \<in> rc_nodes C" and id: "same_id (w_node w i) s'"
    and st: "cl_state (w_node w i) = PREZ_CANDIDATE" and q: "ull (cl_votes_granted (w_node w i)) \<ge> quorumSize (w_node w i)"
    and b: "ballot s' = (PREZ_LEADER, wterm w i, cl_voted_for (w_node w i), cl_votes_granted (w_node w i))"
  shows "sound_ballot C w i s' {}"
proof -
  note I = raft_invD [OF inv i] and V = votes_invD [OF raft_invD(2) [OF inv i]]
  let ?K = "{v. (i, wterm w i, v) \<in> w_counted w}"
  have K: "v \<noteq> i \<and> v \<in> rc_nodes C \<and> (v, wterm w i, i) \<in> w_votes w" if "v \<in> ?K" for v
  proof -
    have "(v, wterm w i, i) \<in> w_votes w \<and> v \<noteq> i" using that I(4) unfolding count_inv_def by blast
    then show ?thesis using V(1) by blast
  qed
  have fin: "finite (rc_nodes C)" using C by (simp add: config_ok_def)
  then have fK: "finite ?K" using K by (auto intro: finite_subset [of ?K])
  have own: "(i, wterm w i, i) \<in> w_votes w" using V(3) [OF i] I(5) [OF st] C i by (auto simp: config_ok_def)
  have ck: "card (insert i ?K) = Suc (card ?K)" using fK K by (subst card_insert_disjoint) auto
  have "insert i ?K \<subseteq> rc_nodes C" using K i by blast
  from card_mono [OF fin this] have "card ?K < card (rc_nodes C)" unfolding ck by simp
  then have "ull (cl_votes_granted (w_node w i)) = Suc (card ?K)"
    using I(5) [OF st] C ull_of_nat [of "Suc (card ?K)"] by (simp add: config_ok_def)
  then have "card (rc_nodes C) < 2 * card (insert i ?K)"
    using q ck I(1) by (simp add: quorumSize_def node_inv_def)
  then have "quorum_for C (w_votes w) (wterm w i) i"
    unfolding quorum_for_def using K own i by (intro exI [of _ "insert i ?K"]) auto
  then have "quorum_for C (w_votes w \<union> new_vote i s') (wterm w i) i" by (rule quorum_mono) simp
  moreover have "is_ll (wterm w i)" using I(1) by (simp add: node_inv_def)
  ultimately show ?thesis unfolding sound_ballot_def using id b I(7) by (auto simp: ballot_def)
qed

text \<open>A vote for this server was counted: it was not counted before.\<close>

lemma counted_ballot:
  assumes C: "config_ok C" and inv: "raft_inv C w" and i: "i \<in> rc_nodes C" and id: "same_id (w_node w i) s'"
    and x: "x \<in># w_net w" "is_grant j i (wterm w i) x"
    and b: "ballot s' = (cl_state (w_node w i), wterm w i, cl_voted_for (w_node w i), c_int32 (cl_votes_granted (w_node w i) + 1))"
  shows "sound_ballot C w i s' {(i, wterm w i, j)}"
proof -
  note I = raft_invD [OF inv i] and V = votes_invD [OF raft_invD(2) [OF inv i]]
  let ?K = "{v. (i, wterm w i, v) \<in> w_counted w}"
  have K: "(v, wterm w i, i) \<in> w_votes w \<and> v \<noteq> i" if "v \<in> ?K" for v
    using that I(4) unfolding count_inv_def by blast
  have j: "(j, wterm w i, i) \<in> w_votes w \<and> j \<noteq> i" using I(3) x unfolding net_inv_def by blast
  have fin: "finite (rc_nodes C)" using C by (simp add: config_ok_def)
  have sub: "insert i (insert j ?K) \<subseteq> rc_nodes C" using K j V(1) i by blast
  have fK: "finite ?K" using finite_subset [OF sub fin] by simp
  have "x \<in># filter_mset (is_grant j i (wterm w i)) (w_net w)" using x by (cases x) simp
  then have "size (filter_mset (is_grant j i (wterm w i)) (w_net w)) \<noteq> 0" unfolding size_eq_0_iff_empty by (metis empty_iff set_mset_empty)
  then have "1 \<le> how_many (is_grant j i (wterm w i)) (w_net w)" unfolding how_many_def by linarith
  moreover have "tokens (w_net w) (w_counted w) i j (wterm w i) \<le> 1" using I(3) i unfolding net_inv_def by blast
  ultimately have nj: "j \<notin> ?K" by (auto simp: tokens_def split: if_splits)
  have cj: "card (insert j ?K) = Suc (card ?K)" using fK nj by simp
  have "card (insert i (insert j ?K)) = Suc (Suc (card ?K))" using fK nj j K cj by (subst card_insert_disjoint) auto
  with card_mono [OF fin sub] C have small: "Suc (Suc (card ?K)) < 2147483647" by (simp add: config_ok_def)
  have "{v. (i, wterm w i, v) \<in> w_counted w \<union> {(i, wterm w i, j)}} = insert j ?K" by auto
  then have cand: "cl_votes_granted s' = 1 + int (card {v. (i, wterm w i, v) \<in> w_counted w \<union> {(i, wterm w i, j)}})"
    if "cl_state (w_node w i) = PREZ_CANDIDATE"
    using I(5) [OF that] b small cj by (simp add: ballot_def c_int32_id)
  have "cl_state s' = PREZ_LEADER \<Longrightarrow> quorum_for C (w_votes w \<union> new_vote i s') (wterm w i) i"
    using b quorum_mono [OF I(6)] by (auto simp: ballot_def)
  moreover have "is_ll (wterm w i)" using I(1) by (simp add: node_inv_def)
  ultimately show ?thesis unfolding sound_ballot_def using id b I(5,7) cand by (auto simp: ballot_def)
qed

text \<open>A server that holds a vote grants no other one in the same term.\<close>

lemma vote_once:
  assumes hdr: "\<forall>n. length n < be_hdr env n" and ne: "name_of p \<noteq> []"
    and ok: "name_len env p = 0 \<or> \<not> name_differs env p (cstr c)"
  shows "p = SdsName (cstr c)"
proof (cases p)
  case (SdsName n)
  with ne ok show ?thesis by (auto simp: name_of_def name_len_def name_differs_def name_bytes_def Let_def)
next
  case (ZName n)
  with hdr have h: "length n < be_hdr env n" by blast
  with ok ZName have eq: "take (be_hdr env n) (n @ [NUL]) = take (be_hdr env n) (cstr c)" "be_hdr env n = length (cstr c)"
    by (auto simp: name_len_def name_differs_def name_bytes_def Let_def)
  then have "cstr c = n @ [NUL]" using h by simp
  then show ?thesis using cstr_no_nul [of c] by simp
qed

lemma vote_ballot:
  assumes C: "config_ok C" and inv: "raft_inv C w" and i: "i \<in> rc_nodes C" and id: "same_id (w_node w i) s'"
    and x: "(j, i, pkt) \<in># w_net w" "packet_msg pkt = Some (RequestVote v)" and ji: "j \<noteq> i"
    and b: "ballot s' = after_vote (rc_env C i) v (w_node w i)"
  shows "sound_ballot C w i s' {}"
proof -
  note I = raft_invD [OF inv i]
  have j: "j \<in> rc_nodes C" "cstr (rv_candidateid v) = j" "rv_term v \<le> wterm w j"
    using I(3) x unfolding net_inv_def by (metis fst_conv snd_conv)+
  have hdr: "\<forall>n. length n < be_hdr (rc_env C i) n" using C i by (simp add: config_ok_def)
  have ll: "is_ll (rv_term v)" "is_ll (wterm w i)" using packet_term_ll(1) [OF x(2)] I(1) by (auto simp: node_inv_def)
  let ?g = "vote_allowed (rc_env C i) v (w_node w i)"
  consider (calm) "rv_term v \<le> wterm w i" "\<not> ?g" | (down) "rv_term v > wterm w i" "\<not> ?g"
    | (up) "rv_term v > wterm w i" ?g | (same) "rv_term v = wterm w i" ?g
    by (metis not_le order_le_less vote_allowed_def)
  then show ?thesis
  proof cases
    case calm
    then show ?thesis using b by (intro calm_ballot [OF inv i id]) (auto simp: after_vote_def ballot_def)
  next
    case down
    then show ?thesis using b by (intro down_ballot [OF id ll(1)]) (auto simp: after_vote_def)
  next
    case up
    then show ?thesis using b id ll j by (simp add: after_vote_def sound_ballot_def ballot_def name_of_def)
  next
    case same
    have keep: "wvote w i \<noteq> [] \<Longrightarrow> wvote w i = j"
      using vote_once [OF hdr, of "cl_voted_for (w_node w i)" "rv_candidateid v"] same j(2) by (auto simp: vote_allowed_def name_of_def)
    have "cl_state (w_node w i) \<noteq> PREZ_CANDIDATE" using I(5) keep ji i C by (auto simp: config_ok_def)
    moreover have "cl_state s' = PREZ_LEADER \<Longrightarrow> quorum_for C (w_votes w \<union> new_vote i s') (wterm w i) i"
      using b same quorum_mono [OF I(6)] by (auto simp: ballot_def after_vote_def)
    ultimately show ?thesis using b id ll j same keep
      unfolding sound_ballot_def by (auto simp: after_vote_def ballot_def name_of_def)
  qed
qed

section \<open>Every step keeps the invariant\<close>

lemma distinct_count_list: "distinct xs \<Longrightarrow> count_list xs x = (if x \<in> set xs then 1 else 0)"
  by (induction xs) (auto simp: count_list_0_iff)

lemma vote_traffic:
  assumes C: "config_ok C" and inv: "raft_inv C w" and i: "i \<in> rc_nodes C" and x: "(j, i, pkt) \<in># w_net w" "packet_msg pkt = Some (RequestVote v)"
    and ji: "j \<noteq> i" "rc_peer C i a = j" and me: "length me = 40"
    and b: "ballot s' = after_vote (rc_env C i) v (w_node w i)"
    and sb: "sndbuf s' = (sndbuf (w_node w i))(a := sndbuf (w_node w i) a @ enc_msg me port (vote_reply (rc_env C i) v (w_node w i)))"
  shows "sound_traffic w i s' {#(j, i, pkt)#} (sent_packets C i (w_node w i) s') {}"
proof -
  note I = raft_invD [OF inv i]
  let ?g = "vote_allowed (rc_env C i) v (w_node w i)" and ?sent = "sent_packets C i (w_node w i) s'"
  let ?p = "enc_msg me port (vote_reply (rc_env C i) v (w_node w i))"
  have j: "cstr (rv_candidateid v) = j" "j \<in> rc_nodes C" using I(3) x unfolding net_inv_def by (metis fst_conv snd_conv)+
  have t: "cl_current_term s' = max (wterm w i) (rv_term v)" using b by (simp add: ballot_def after_vote_def)
  have ll: "is_ll (max (wterm w i) (rv_term v))" using packet_term_ll(1) [OF x(2)] I(1) by (auto simp: node_inv_def max_def)
  have p: "packet_msg ?p = Some (vote_reply (rc_env C i) v (w_node w i))"
    unfolding vote_reply_def by (rule packet_vote [OF me ll]) auto
  have only: "y = (i, j, ?p)" if "y \<in># ?sent" for y
    using sent_mem [OF that] one_link_new_bytes [OF sb] ji(2) by (auto split: if_splits)
  have gr: "?g \<and> c = j \<and> t = cl_current_term s'" if "y \<in># ?sent" "is_grant u c t y" for y u c t
    using that only [OF that(1)] p t by (auto simp: is_grant_def vote_reply_def split: if_splits)
  have rq: "packet_msg (snd (snd y)) \<noteq> Some (RequestVote r)" if "y \<in># ?sent" for y r
    using only [OF that] p by (simp add: vote_reply_def)
  have gt: "cl_current_term s' = rv_term v" "name_of (cl_voted_for s') = j" "j \<noteq> []" if ?g
    using that b t j C by (auto simp: ballot_def after_vote_def vote_allowed_def name_of_def config_ok_def)
  have one: "how_many P ?sent \<le> 1" for P
    by (rule sent_at_most_one) (use one_link_new_bytes [OF sb] in \<open>auto split: if_splits\<close>)
  have sw: "how_many (is_grant i c (cl_current_term s')) ?sent \<le> how_many (is_req c i (cl_current_term s')) {#(j, i, pkt)#}" for c
  proof (cases "?g \<and> c = j")
    case True
    then have "is_req c i (cl_current_term s') (j, i, pkt)" using gt(1) x(2) by (simp add: is_req_def)
    then have "how_many (is_req c i (cl_current_term s')) {#(j, i, pkt)#} = 1" by (simp add: how_many_def)
    with one show ?thesis by simp
  next
    case False
    have "how_many (is_grant i c (cl_current_term s')) ?sent = 0" by (rule filter_none) (use gr False in blast)
    then show ?thesis by simp
  qed
  have "{#(j, i, pkt)#} \<subseteq># w_net w" using x(1) by simp
  moreover have "fst y = i" if "y \<in># ?sent" for y using only [OF that] by simp
  moreover have "t = cl_current_term s' \<and> c = name_of (cl_voted_for s') \<and> c \<noteq> [] \<and> c \<noteq> i" if "y \<in># ?sent" "is_grant i c t y" for y c t
    using gr [OF that] gt ji(1) by auto
  ultimately show ?thesis unfolding sound_traffic_def using rq one sw by blast
qed

lemma election_traffic:
  assumes inv: "raft_inv C w" and i: "i \<in> rc_nodes C" and wired: "wired C i (w_node w i)"
    and me: "myself_name (w_node w i) = Some me" and r: "rv_term r = cl_current_term s'" "rv_candidateid r = me"
    and t: "wterm w i < cl_current_term s'" "is_ll (cl_current_term s')"
    and ps: "mset ps = image_mset snd (dents (cl_nodes (w_node w i)))"
    and sb: "\<And>b. sndbuf s' b = sndbuf (w_node w i) b @ concat (replicate (count_list (targets (w_node w i) ps) b) (enc_msg me port (RequestVote r)))"
  shows "sound_traffic w i s' {#} (sent_packets C i (w_node w i) s') {}"
proof -
  let ?s = "w_node w i" and ?sent = "sent_packets C i (w_node w i) s'"
  let ?T = "targets ?s ps" and ?p = "enc_msg me port (RequestVote r)"
  have d: "distinct (map (rc_peer C i) ?T)" using wired ps unfolding wired_def by blast
  then have dT: "distinct ?T" and inj: "inj_on (rc_peer C i) (set ?T)" by (simp_all add: distinct_map)
  have nb: "new_bytes ?s s' b = (if b \<in> set ?T then ?p else [])" for b
    using sb [of b] distinct_count_list [OF dT, of b] by (simp add: new_bytes_def)
  have me40: "length me = 40" "cstr me = i" using raft_invD(1) [OF inv i] me by (auto simp: node_inv_def)
  obtain r' where p: "packet_msg ?p = Some (RequestVote r')" "rv_term r' = cl_current_term s'" "rv_candidateid r' = me"
    using packet_request [of me r port] me40 r t(2) by auto
  have only: "fst y = i \<and> packet_msg (snd (snd y)) = Some (RequestVote r')" if "y \<in># ?sent" for y
    using sent_mem [OF that] nb p(1) by (auto split: if_splits)
  have ng: "\<not> is_grant u c t y" if "y \<in># ?sent" for u c t y using only [OF that] by (simp add: is_grant_def)
  have "how_many (is_grant i c t) ?sent = 0" for c t by (rule filter_none) (rule ng)
  then have "how_many (is_grant i c t) ?sent \<le> n" for c t n by simp
  moreover have "how_many (is_req i v (cl_current_term s')) ?sent \<le> 1" for v
  proof (rule sent_at_most_one)
    fix a b
    assume "new_bytes ?s s' a \<noteq> []" "is_req i v (cl_current_term s') (i, rc_peer C i a, new_bytes ?s s' a)"
      "new_bytes ?s s' b \<noteq> []" "is_req i v (cl_current_term s') (i, rc_peer C i b, new_bytes ?s s' b)"
    then have "a \<in> set ?T" "b \<in> set ?T" "rc_peer C i a = rc_peer C i b" using nb by (auto simp: is_req_def split: if_splits)
    then show "a = b" using inj by (auto dest: inj_onD)
  qed
  moreover have "cstr (rv_candidateid q) = i \<and> rv_term q = cl_current_term s' \<and> wterm w i < cl_current_term s'"
    if "y \<in># ?sent" "packet_msg (snd (snd y)) = Some (RequestVote q)" for y q
    using only [OF that(1)] that(2) p me40 t(1) by auto
  ultimately show ?thesis unfolding sound_traffic_def using only ng by simp
qed

lemma same_sndbuf_no_vote: "sndbuf s' = sndbuf s \<Longrightarrow> no_vote_traffic C i s s'"
  unfolding no_vote_traffic_def using sent_mem [of _ C i s s'] by (force simp: new_bytes_def)

text \<open>Steps without vote traffic that count nothing.\<close>

lemma plain_step:
  assumes "config_ok C" "raft_inv C w" "i \<in> rc_nodes C" "sound_ballot C w i s' {}" "no_vote_traffic C i (w_node w i) s'" "taken \<subseteq># w_net w"
  shows "raft_inv C (w_step C i s' taken {} w)"
  using inv_step [OF assms(1-4)] no_vote_sound [OF assms(5,6), of "{}"] by simp

lemma quiet_ballot: "raft_inv C w \<Longrightarrow> i \<in> rc_nodes C \<Longrightarrow> quiet (w_node w i) s' \<Longrightarrow> sound_ballot C w i s' {}"
  by (rule calm_ballot) (auto simp: quiet_def ballot_def)

lemma act_inv:
  assumes C: "config_ok C" and inv: "raft_inv C w" and i: "i \<in> rc_nodes C"
    and wired: "wired C i (w_node w i)" and st: "local_step (rc_env C i) (w_node w i) s'"
  shows "raft_inv C (w_step C i s' {#} {} w)"
proof -
  let ?s = "w_node w i" and ?e = "rc_env C i"
  note I = raft_invD [OF inv i] and plain = plain_step [OF C inv i _ _ empty_le]
  obtain me where me: "myself_name ?s = Some me" "length me = 40" using I(1) by (auto simp: node_inv_def)
  have ok: "nodes_ok ?e ?s" using I(1) by (simp add: node_inv_def)
  have silent: ?thesis if "silent ?s s'"
    using plain quiet_ballot [OF inv i, of s'] silent_no_vote [OF that] that by (simp add: silent_def)
  show ?thesis
    using st
  proof cases
    case reconnect
    then show ?thesis using silent reconnect_effect [OF ok] by blast
  next
    case (election now)
    from election_effect [OF ok election(2)] show ?thesis
    proof
      assume "\<exists>me r ps. myself_name ?s = Some me \<and> cl_state ?s \<noteq> PREZ_LEADER \<and> same_id ?s s' \<and>
        ballot s' = (PREZ_CANDIDATE, ll (wterm w i + 1), ZName (be_name ?e), 1) \<and>
        rv_term r = ll (wterm w i + 1) \<and> rv_candidateid r = me \<and> mset ps = image_mset snd (dents (cl_nodes ?s)) \<and>
        (\<forall>b. sndbuf s' b = sndbuf ?s b @ concat (replicate (count_list (targets ?s ps) b) (enc_msg me (be_port ?e) (RequestVote r))))"
      then obtain me r ps where e: "myself_name ?s = Some me" "same_id ?s s'"
        "ballot s' = (PREZ_CANDIDATE, ll (wterm w i + 1), ZName (be_name ?e), 1)" "rv_term r = ll (wterm w i + 1)" "rv_candidateid r = me"
        "mset ps = image_mset snd (dents (cl_nodes ?s))"
        "\<And>b. sndbuf s' b = sndbuf ?s b @ concat (replicate (count_list (targets ?s ps) b) (enc_msg me (be_port ?e) (RequestVote r)))"
        by blast
      have nm: "be_name ?e = i" using C i by (simp add: config_ok_def)
      note b = candidate_ballot [OF C inv i e(2) election(1) e(3) [unfolded nm]]
      have t: "cl_current_term s' = ll (wterm w i + 1)" using e(3) by (simp add: ballot_def)
      have "sound_traffic w i s' {#} (sent_packets C i ?s s') {}"
        by (rule election_traffic [OF inv i wired e(1) _ e(5) _ _ e(6,7)])
          (use t e(4) b(2) sound_ballotD(2) [OF b(1)] in auto)
      with inv_step [OF C inv i b(1)] show ?thesis .
    qed (rule silent)
  next
    case candidate
    note e = candidate_effect [OF ok candidate]
    have "sound_ballot C w i s' {}"
    proof (cases "cl_state ?s = PREZ_CANDIDATE \<and> ull (cl_votes_granted ?s) \<ge> quorumSize ?s")
      case True
      then show ?thesis using e by (intro leader_ballot [OF C inv i]) simp_all
    next
      case False
      then show ?thesis using e by (intro calm_ballot [OF inv i]) (auto simp: ballot_def)
    qed
    then show ?thesis using plain same_sndbuf_no_vote e by blast
  next
    case leader
    note e = leader_effect [OF ok leader]
    then show ?thesis using plain quiet_ballot [OF inv i, of s'] replicating_no_vote [OF me e] by (simp add: replicating_def)
  next
    case (accept fds)
    then show ?thesis using silent accept_effect by simp
  next
    case (flush a n out)
    then show ?thesis using silent write_handler_effect by blast
  next
    case (close a)
    then show ?thesis using silent free_link_effect by (simp add: handleLinkIOError_def)
  next
    case (command e rc)
    note l = log_step_write [OF command]
    then show ?thesis using silent silentI [OF quiet_log_step [OF l] log_step_fields(3) [OF l]] by simp
  qed
qed

lemma request_vote_some:
  assumes "clusterProcessRequestVote env a v s = Some s'"
  shows "strlen (rv_candidateid v) < 40" "\<exists>me. myself_name s = Some me" "\<exists>l. cl_link_mem s a = Some l"
proof -
  show "strlen (rv_candidateid v) < 40" using assms by (auto simp: clusterProcessRequestVote_def split: if_splits)
  have "clusterProcessRequestVote env a v s = None" if n: "cl_link_mem s a = None \<or> myself_name s = None"
  proof -
    have "clusterSendResponseVote env s a g = None" "clusterSendResponseVote env (step_down s k) a g = None"
      "clusterSendResponseVote env (s\<lparr>cl_voted_for := p\<rparr>) a g = None"
      "clusterSendResponseVote env ((step_down s k)\<lparr>cl_voted_for := p\<rparr>) a g = None" for g k p
      using n by (auto simp: clusterSendResponseVote_def clusterSendMessage_def packet_def myself_name_def step_down_def split: bind_splits)
    then show ?thesis by (simp add: clusterProcessRequestVote_def Let_def)
  qed
  with assms show "\<exists>me. myself_name s = Some me" "\<exists>l. cl_link_mem s a = Some l" by fastforce+
qed

lemma received_frame:
  fixes s :: clusterState
  defines "t \<equiv> s\<lparr>cl_received := ll (cl_received s + 1)\<rparr>"
  shows "same_id s t" "ballot t = ballot s" "sndbuf t = sndbuf s" "cl_current_term t = cl_current_term s"
    "after_vote env v t = after_vote env v s" "vote_reply env v t = vote_reply env v s" "seen_term n t = seen_term n s"
proof -
  have "logCurrentIndex t = logCurrentIndex s" "logCurrentTerm t = logCurrentTerm s"
    by (simp_all add: t_def logCurrentIndex_def logCurrentTerm_def)
  then have "vote_allowed env v t = vote_allowed env v s" by (simp add: vote_allowed_def t_def)
  then show "after_vote env v t = after_vote env v s" "vote_reply env v t = vote_reply env v s"
    by (simp_all add: after_vote_def vote_reply_def t_def)
qed (simp_all add: t_def same_id_def ballot_def sndbuf_def seen_term_def fun_eq_iff)

lemma seen_ballot:
  assumes inv: "raft_inv C w" and i: "i \<in> rc_nodes C" and id: "same_id (w_node w i) s'" and t: "is_ll t"
    and b: "ballot s' = seen_term t (w_node w i)"
  shows "sound_ballot C w i s' {}"
proof (cases "t > wterm w i")
  case True
  then show ?thesis using b by (intro down_ballot [OF id t]) (auto simp: seen_term_def)
next
  case False
  then show ?thesis using b by (intro calm_ballot [OF inv i id]) (auto simp: seen_term_def ballot_def split: if_splits)
qed

lemma deliver_inv:
  assumes C: "config_ok C" and inv: "raft_inv C w" and i: "i \<in> rc_nodes C" and x: "(j, i, pkt) \<in># w_net w"
    and a: "rc_peer C i a = j" and st: "clusterProcessPacket (rc_env C i) a (w_node w i) pkt = Some s'"
  shows "raft_inv C (w_step C i s' {#(j, i, pkt)#} (counted_by i j (w_node w i) pkt) w)"
proof -
  let ?s = "w_node w i" and ?e = "rc_env C i"
  define t where "t = ?s\<lparr>cl_received := ll (cl_received ?s + 1)\<rparr>"
  note R = received_frame [where s = ?s, folded t_def] and I = raft_invD [OF inv i]
  have sub: "{#(j, i, pkt)#} \<subseteq># w_net w" using x by simp
  note plain = plain_step [OF C inv i _ _ sub]
  obtain me where me: "myself_name ?s = Some me" "length me = 40" using I(1) by (auto simp: node_inv_def)
  have mt: "myself_name t = Some me" using same_id_name [OF R(1)] me(1) by simp
  have ji: "j \<noteq> i" using C i a by (auto simp: config_ok_def)
  have id: "same_id ?s s'" if "same_id t s'" using same_id_trans [OF R(1) that] .
  show ?thesis
  proof (cases "packet_msg pkt")
    case None
    then have s': "s' = t" using st by (simp add: clusterProcessPacket_def t_def Let_def)
    have "sound_ballot C w i s' {}" using R(1,2) quiet_ballot [OF inv i, of s'] by (simp add: quiet_def s')
    then show ?thesis using plain same_sndbuf_no_vote R(3) None by (simp add: s' counted_by_def)
  next
    case (Some m)
    show ?thesis
    proof (cases m)
      case (RequestVote v)
      have h: "clusterProcessRequestVote ?e a v t = Some s'" using st Some RequestVote by (simp add: clusterProcessPacket_def t_def Let_def)
      obtain l where "cl_link_mem t a = Some l" using request_vote_some(3) [OF h] by blast
      from request_vote_effect [OF request_vote_some(1) [OF h] mt this, of ?e] h
      have e: "ballot s' = after_vote ?e v ?s" "same_id t s'"
        "sndbuf s' = (sndbuf ?s)(a := sndbuf ?s a @ enc_msg me (be_port ?e) (vote_reply ?e v ?s))" by (auto simp: R)
      have p: "packet_msg pkt = Some (RequestVote v)" using Some RequestVote by simp
      have "raft_inv C (w_step C i s' {#(j, i, pkt)#} {} w)"
        by (rule inv_step [OF C inv i vote_ballot [OF C inv i id [OF e(2)] x p ji e(1)]
            vote_traffic [OF C inv i x p ji a me(2) e(1,3)]])
      then show ?thesis using p by (simp add: counted_by_def)
    next
      case (AppendEntries e)
      have h: "clusterProcessAppendEntries ?e a e t = Some s'" using st Some AppendEntries by (simp add: clusterProcessPacket_def t_def Let_def)
      from append_entries_effect [OF h] mt obtain r where e: "ballot s' = seen_term (ae_term e) ?s" "same_id t s'"
        "sndbuf s' = (sndbuf ?s)(a := sndbuf ?s a @ enc_msg me (be_port ?e) (ResponseAppendEntries r))" by (auto simp: R)
      have "is_ll (ae_term e)" using packet_term_ll(3) Some AppendEntries by blast
      then have "sound_ballot C w i s' {}" using seen_ballot [OF inv i id [OF e(2)] _ e(1)] by blast
      moreover have "no_vote_traffic C i ?s s'"
      proof (rule append_no_vote [OF me(2)])
        fix b
        have "msg_type (ResponseAppendEntries r) = 4" by (simp add: msg_type_def)
        then show "new_bytes ?s s' b = [] \<or> (\<exists>m r. (msg_type m = 3 \<or> msg_type m = 4) \<and> new_bytes ?s s' b = enc_msg me (be_port ?e) m @ r)"
          using one_link_new_bytes [OF e(3), of b] by (metis append_Nil2)
      qed
      ultimately show ?thesis using plain Some AppendEntries by (simp add: counted_by_def)
    next
      case (ResponseVote v)
      have s': "s' = clusterProcessResponseVote v t" using st Some ResponseVote by (simp add: clusterProcessPacket_def t_def Let_def)
      note e = response_vote_effect [where v = v and s = t, folded s'] and ll = packet_term_ll(2) [of pkt v]
      have nv: "no_vote_traffic C i ?s s'" using e(3) R(3) same_sndbuf_no_vote by simp
      show ?thesis
      proof (cases "vote_granted v \<noteq> 0 \<and> rvr_term v = wterm w i")
        case True
        have b: "ballot s' = (cl_state ?s, wterm w i, cl_voted_for ?s, c_int32 (cl_votes_granted ?s + 1))"
          using e(1) True R(4) by (simp add: t_def)
        have g: "is_grant j i (wterm w i) (j, i, pkt)" using True Some ResponseVote by (simp add: is_grant_def)
        have k: "counted_by i j ?s pkt = {(i, wterm w i, j)}" using True Some ResponseVote by (simp add: counted_by_def)
        have "cl_current_term s' = wterm w i" using b by (simp add: ballot_def)
        then have "sound_traffic w i s' {#(j, i, pkt)#} (sent_packets C i ?s s') {(i, wterm w i, j)}"
          using g by (intro no_vote_sound [OF nv sub]) auto
        from inv_step [OF C inv i counted_ballot [OF C inv i id [OF e(2)] x g b] this] show ?thesis by (simp add: k)
      next
        case False
        have "sound_ballot C w i s' {}"
        proof (cases "rvr_term v > wterm w i")
          case True
          then show ?thesis using e(1) False R(4) ll Some ResponseVote
            by (intro down_ballot [OF id [OF e(2)], of "rvr_term v"]) (auto simp: t_def)
        next
          case less: False
          then have "ballot s' = ballot ?s" using e(1) False R(2,4) by auto
          then show ?thesis using quiet_ballot [OF inv i] id [OF e(2)] by (simp add: quiet_def)
        qed
        moreover have "counted_by i j ?s pkt = {}" using False Some ResponseVote by (auto simp: counted_by_def)
        ultimately show ?thesis using plain nv by simp
      qed
    next
      case (ResponseAppendEntries r)
      have h: "clusterProcessResponseAppendEntries a r t = Some s'"
        using st Some ResponseAppendEntries by (simp add: clusterProcessPacket_def t_def Let_def)
      note e = append_response_effect [OF h] and ll = packet_term_ll(4) [of pkt r]
      have "ballot s' = ballot ?s \<or> aer_term r > wterm w i \<and> ballot s' = (PREZ_FOLLOWER, aer_term r, SdsName [], cl_votes_granted t)"
        using e R(2,4) by auto
      then have "sound_ballot C w i s' {}"
        using quiet_ballot [OF inv i, of s'] down_ballot [of w i s' "aer_term r"] id e ll Some ResponseAppendEntries by (auto simp: quiet_def)
      then show ?thesis using plain same_sndbuf_no_vote e R(3) Some ResponseAppendEntries by (simp add: counted_by_def)
    qed
  qed
qed

lemma lose_inv:
  assumes "raft_inv C w"
  shows "raft_inv C (w\<lparr>w_net := w_net w - {#x#}\<rparr>)" (is "raft_inv C ?w")
proof -
  have le: "how_many P (w_net w - {#x#}) \<le> how_many P (w_net w)" for P
    unfolding how_many_def by (intro size_mset_mono multiset_filter_mono) simp
  have "tokens (w_net w - {#x#}) (w_counted w) c v t \<le> tokens (w_net w) (w_counted w) c v t" for c v t
    using le [of "is_req c v t"] le [of "is_grant v c t"] by (simp add: tokens_def)
  then have "tokens (w_net w - {#x#}) (w_counted w) c v (wterm w c) \<le> 1" if "c \<in> rc_nodes C" for c v
    using that assms unfolding raft_inv_def net_inv_def by (meson le_trans)
  moreover have "y \<in># w_net w" if "y \<in># w_net w - {#x#}" for y using that by (rule in_diffD)
  moreover have sel: "w_net ?w = w_net w - {#x#}" "w_node ?w = w_node w" "w_votes ?w = w_votes w" "w_counted ?w = w_counted w" by simp_all
  ultimately have "net_inv C ?w" using assms unfolding raft_inv_def net_inv_def sel by blast
  then show ?thesis using assms by (simp add: raft_inv_def votes_inv_def count_inv_def)
qed

lemma start_inv: "start C w \<Longrightarrow> raft_inv C w"
  by (auto simp: start_def raft_inv_def votes_inv_def net_inv_def count_inv_def tokens_def how_many_def name_of_def)

lemma reachable_inv:
  assumes C: "config_ok C" and r: "reachable C w"
  shows "raft_inv C w"
  using r
proof induction
  case (step w w')
  from step.hyps(2) step.IH show ?case
    using act_inv [OF C] deliver_inv [OF C] lose_inv by (auto elim!: raft_step.cases)
qed (rule start_inv)

section \<open>A small cluster\<close>

text \<open>A broadcast reaches every link that is alive.\<close>

lemma broadcast_total:
  assumes "\<And>p. p \<in> set ps \<Longrightarrow> \<exists>n. cl_node_mem s p = Some n \<and> (\<forall>a. cn_link n = Some a \<longrightarrow> cl_link_mem s a \<noteq> None)"
  shows "\<exists>s'. fold_opt (\<lambda>p s. do { n \<leftarrow> cl_node_mem s p;
      case cn_link n of None \<Rightarrow> Some s
      | Some a \<Rightarrow> if has_flag n PREZ_NODE_MYSELF then Some s else clusterSendMessage env s a buf }) ps s = Some s' \<and> cl_fresh s' = cl_fresh s"
  using assms
proof (induction ps arbitrary: s)
  case (Cons p ps)
  from Cons.prems [of p] obtain n where n: "cl_node_mem s p = Some n" "\<forall>a. cn_link n = Some a \<longrightarrow> cl_link_mem s a \<noteq> None" by auto
  show ?case
  proof (cases "cn_link n = None \<or> has_flag n PREZ_NODE_MYSELF")
    case True
    then show ?thesis using n(1) Cons by (auto split: option.splits)
  next
    case False
    then obtain a l where a: "cn_link n = Some a" "\<not> has_flag n PREZ_NODE_MYSELF" "cl_link_mem s a = Some l" using n(2) by auto
    define t where "t = the (clusterSendMessage env s a buf)"
    have t: "clusterSendMessage env s a buf = Some t" "cl_node_mem t = cl_node_mem s" "cl_fresh t = cl_fresh s" "\<forall>b. cl_link_mem s b \<noteq> None \<longrightarrow> cl_link_mem t b \<noteq> None"
      using a(3) by (simp_all add: t_def clusterSendMessage_def)
    show ?thesis using Cons.IH [of t] Cons.prems t a n(1) by fastforce
  qed
qed simp

text \<open>Three servers whose tables agree; the first has a link to the second.\<close>

definition demo_cfg :: raftcfg where
  "demo_cfg = \<lparr>rc_nodes = {''a'', ''b'', ''c''}, rc_env = demo_env, rc_peer = (\<lambda>i _. if i = ''a'' then ''b'' else ''a'')\<rparr>"

definition demo_world :: "(string, nat) dict \<Rightarrow> world" where
  "demo_world d = \<lparr>w_node = (\<lambda>i. demo_server d (if i = ''a'' then 0 else if i = ''b'' then 1 else 2)),
     w_net = {#}, w_votes = {}, w_counted = {}, w_leaders = {}\<rparr>"

lemma demo_start: "demo_table d \<Longrightarrow> start demo_cfg (demo_world d)" "config_ok demo_cfg"
proof -
  assume d: "demo_table d"
  have "nodes_ok (demo_env i) (demo_server d me)" for i me
    using d by (simp add: nodes_ok_def demo_table_def demo_server_def demo_env_def)
  moreover from this [of "[]" 0] have "dictSize d = 3" using nodes_size [of "demo_env []" "demo_server d 0"] d
    by (simp add: demo_server_def demo_table_def)
  moreover have "length (char_array 40 n) = 40 \<and> cstr (char_array 40 n) = n" if "n \<in> {''a'', ''b'', ''c''}" for n
    using that by (auto simp: cstr_char_array length_char_array)
  ultimately show "start demo_cfg (demo_world d)"
    using demo_name [of 0 d] demo_name [of 1 d] demo_name [of 2 d]
    by (auto simp: start_def node_inv_def demo_cfg_def demo_world_def demo_server_def is_ll_def)
qed (simp add: config_ok_def demo_cfg_def demo_env_def)

lemma targets_mset:
  "mset (targets s ps) = \<Sum>\<^sub># (image_mset (\<lambda>p. mset (case cl_node_mem s p of
       None \<Rightarrow> []
     | Some n \<Rightarrow> (case cn_link n of None \<Rightarrow> [] | Some a \<Rightarrow> if has_flag n PREZ_NODE_MYSELF then [] else [a]))) (mset ps))"
  unfolding targets_def by (induction ps) simp_all

lemma demo_targets:
  assumes "demo_table d" "cl_node_mem s = demo_mem 0" "mset ps = image_mset snd (dents d)"
  shows "targets s ps = [3]"
proof -
  have "mset (targets s ps) = {#3#}"
    unfolding targets_mset using assms by (simp add: demo_table_def demo_mem_def demo_node_def has_flag_def)
  then show ?thesis by simp
qed

definition demo_req :: string where
  "demo_req = enc_msg (char_array 40 ''a'') 7000 (RequestVote \<lparr>rv_term = 1, rv_candidateid = char_array 40 ''a'',
     rv_last_log_index = 0, rv_last_log_term = 0\<rparr>)"

definition demo_vote :: string where
  "demo_vote = enc_msg (char_array 40 ''b'') 7000 (ResponseVote \<lparr>rvr_term = 1, vote_granted = 1\<rparr>)"

lemma demo_packets:
  "packet_msg demo_req = Some (RequestVote \<lparr>rv_term = 1, rv_candidateid = char_array 40 ''a'', rv_last_log_index = 0, rv_last_log_term = 0\<rparr>)"
  "packet_msg demo_vote = Some (ResponseVote \<lparr>rvr_term = 1, vote_granted = 1\<rparr>)" "demo_req \<noteq> []" "demo_vote \<noteq> []"
proof -
  have l: "length (char_array 40 ''a'') = 40" "length (char_array 40 ''b'') = 40" by (simp_all add: length_char_array)
  show "packet_msg demo_req = Some (RequestVote \<lparr>rv_term = 1, rv_candidateid = char_array 40 ''a'', rv_last_log_index = 0, rv_last_log_term = 0\<rparr>)"
    "packet_msg demo_vote = Some (ResponseVote \<lparr>rvr_term = 1, vote_granted = 1\<rparr>)"
    unfolding demo_req_def demo_vote_def using l by (auto intro!: packet_msg_enc simp: valid_msg_def is_ll_def)
  show "demo_req \<noteq> []" "demo_vote \<noteq> []"
    unfolding demo_req_def demo_vote_def enc_msg_def clusterBuildMessageHdr_def by simp_all
qed

text \<open>The first server stands for election and asks the second, whose link is up.\<close>

lemma demo_elect:
  assumes d: "demo_table d"
  shows "\<exists>s. cron_election (demo_env ''a'') 1000 (demo_server d 0) = Some s \<and> ballot s = (PREZ_CANDIDATE, 1, ZName ''a'', 1) \<and>
    same_id (demo_server d 0) s \<and> cl_node_mem s = demo_mem 0 \<and> cl_fresh s = 4 \<and> (\<forall>b. sndbuf s b = (if b = 3 then demo_req else []))"
proof -
  let ?t = "(demo_server d 0)\<lparr>cl_rnd := 1, cl_ticks := 1, cl_last_activity_time := 1000, cl_state := PREZ_CANDIDATE,
    cl_leader := SdsName [], cl_voted_for := ZName ''a'', cl_votes_granted := 1, cl_current_term := 1\<rparr>"
  have m: "myself_name ?t = Some (char_array 40 ''a'')" using demo_name [of 0 d] by (simp add: myself_name_def)
  have ll1: "ll 1 = 1" by (simp add: ll_def)
  have "cron_election (demo_env ''a'') 1000 (demo_server d 0) = clusterBroadcastMessage (demo_env ''a'') ?t demo_req"
    using m by (simp add: cron_election_def demo_env_def demo_server_def mstime_def clusterSendRequestVote_def packet_def
        demo_req_def logCurrentIndex_def logCurrentTerm_def list_index_def ll1)
  moreover have ok: "nodes_ok (demo_env ''a'') ?t" using d by (simp add: nodes_ok_def demo_table_def demo_server_def demo_env_def)
  obtain ps where ps: "visit_nodes True ?t = Some (ps, ?t)" "mset ps = image_mset snd (dents d)"
    using visit_nodes_ok [OF ok, of True] by (auto simp: demo_server_def)
  have "set ps = {0, 1, 2}" using ps(2) d set_mset_mset [of ps] by (simp add: demo_table_def)
  then obtain s where s: "clusterBroadcastMessage (demo_env ''a'') ?t demo_req = Some s" "cl_fresh s = 4"
    and f: "fold_opt (\<lambda>p s. do { n \<leftarrow> cl_node_mem s p;
      case cn_link n of None \<Rightarrow> Some s
      | Some a \<Rightarrow> if has_flag n PREZ_NODE_MYSELF then Some s else clusterSendMessage (demo_env ''a'') s a demo_req }) ps ?t = Some s"
    using broadcast_total [of ps ?t "demo_env ''a''" demo_req] ps(1)
    by (fastforce simp: clusterBroadcastMessage_def demo_server_def demo_mem_def demo_node_def)
  ultimately show ?thesis
    using broadcast_fold [OF f] demo_targets [OF d _ ps(2), of ?t]
    by (auto simp: demo_server_def sndbuf_def demo_link_def quiet_def ballot_def same_id_def)
qed

text \<open>The second server grants its vote.\<close>

lemma send_vote_fresh: "clusterSendResponseVote env s a g = Some s' \<Longrightarrow> cl_fresh s' = cl_fresh s"
  by (auto simp: clusterSendResponseVote_def clusterSendMessage_def bind_eq_Some_conv)

lemma request_vote_fresh:
  assumes "clusterProcessRequestVote env a v s = Some s'"
  shows "cl_fresh s' = cl_fresh s"
proof -
  have "(\<exists>g. clusterSendResponseVote env t a g = Some s') \<or>
    (\<exists>u g. clusterSendResponseVote env (t\<lparr>cl_voted_for := c\<rparr>) a g = Some u \<and> cl_fresh s' = cl_fresh u) \<Longrightarrow> cl_fresh s' = cl_fresh t" for t c
    using send_vote_fresh [of env t a _ s'] send_vote_fresh [of env "t\<lparr>cl_voted_for := c\<rparr>" a] by fastforce
  note this [of s "SdsName (cstr (rv_candidateid v))"] this [of "step_down s (rv_term v)" "SdsName (cstr (rv_candidateid v))"]
  then show ?thesis
    using assms by (fastforce simp: clusterProcessRequestVote_def step_down_def mstime_def Let_def bind_eq_Some_conv split: if_splits)
qed

lemma demo_grant:
  "\<exists>s. clusterProcessPacket (demo_env ''b'') 3 (demo_server d 1) demo_req = Some s \<and> cl_fresh s = 4 \<and>
     (\<forall>b. sndbuf s b = (if b = 3 then demo_vote else []))"
proof -
  let ?v = "\<lparr>rv_term = 1, rv_candidateid = char_array 40 ''a'', rv_last_log_index = 0, rv_last_log_term = 0\<rparr>"
  let ?t = "(demo_server d 1)\<lparr>cl_received := ll 1\<rparr>"
  have m: "myself_name ?t = Some (char_array 40 ''b'')" using demo_name [of 1 d] by (simp add: myself_name_def)
  have c: "cstr (char_array 40 ''a'') = ''a''" by (simp add: cstr_char_array)
  then have l: "strlen (rv_candidateid ?v) < 40" by (simp add: strlen_def)
  have k: "cl_link_mem ?t 3 = Some (demo_link 1)" by (simp add: demo_server_def)
  have "vote_reply (demo_env ''b'') ?v ?t = ResponseVote \<lparr>rvr_term = 1, vote_granted = 1\<rparr>"
    by (simp add: vote_reply_def vote_allowed_def demo_server_def logCurrentIndex_def logCurrentTerm_def list_index_def)
  then obtain s where s: "clusterProcessRequestVote (demo_env ''b'') 3 ?v ?t = Some s"
    "sndbuf s = (sndbuf ?t)(3 := sndbuf ?t 3 @ enc_msg (char_array 40 ''b'') (be_port (demo_env ''b'')) (ResponseVote \<lparr>rvr_term = 1, vote_granted = 1\<rparr>))"
    using request_vote_effect [OF l m k, of "demo_env ''b''"] by metis
  have "sndbuf ?t b = []" for b by (simp add: sndbuf_def demo_server_def demo_link_def)
  then have "sndbuf s b = (if b = 3 then demo_vote else [])" for b unfolding s(2) by (simp add: demo_vote_def demo_env_def)
  moreover have "cl_fresh s = 4" using request_vote_fresh [OF s(1)] by (simp add: demo_server_def)
  moreover have "clusterProcessPacket (demo_env ''b'') 3 (demo_server d 1) demo_req = Some s"
    using s(1) by (simp add: clusterProcessPacket_def demo_packets demo_server_def)
  ultimately show ?thesis by blast
qed

text \<open>The candidate leads once it has a quorum.\<close>

lemma candidate_total:
  assumes ok: "nodes_ok env s" and live: "\<forall>e \<in># dents (cl_nodes s). cl_node_mem s (snd e) \<noteq> None"
  shows "\<exists>s'. cron_candidate env s = Some s'"
proof -
  let ?s = "s\<lparr>cl_state := PREZ_LEADER, cl_leader := ZName (be_name env)\<rparr>"
  have "nodes_ok env ?s" using ok by (simp add: nodes_ok_def)
  then obtain ps t where ps: "visit_nodes False ?s = Some (ps, t)" "cl_node_mem t = cl_node_mem s" "mset ps = image_mset snd (dents (cl_nodes s))"
    using visit_nodes_ok [of env ?s False] by auto
  have "set ps = snd ` set_mset (dents (cl_nodes s))" using ps(3) set_mset_mset [of ps] by simp
  then have "\<forall>p \<in> set ps. cl_node_mem t p \<noteq> None" using live ps(2) by auto
  then have "\<exists>u. fold_opt (\<lambda>p s. do { n \<leftarrow> cl_node_mem s p;
      if has_flag n PREZ_NODE_MYSELF \<or> has_flag n PREZ_NODE_NOADDR then Some s
      else set_node s p (\<lambda>n. n\<lparr>cn_next_index := ll (logCurrentIndex ?s + 1), cn_match_index := 0\<rparr>) }) ps t = Some u"
    by (induction ps arbitrary: t) (auto simp: set_node_def)
  then show ?thesis using ps(1) by (auto simp: cron_candidate_def)
qed

lemma sent_one:
  assumes "cl_fresh s' = 4" "\<And>b. new_bytes s s' b = (if b = 3 then p else [])"
  shows "sent_packets C i s s' = (if p = [] then {#} else {#(i, rc_peer C i 3, p)#})"
proof -
  have "[0..<cl_fresh s'] = [0, 1, 2, 3]" using assms(1) by (simp add: upt_rec)
  then show ?thesis using assms(2) by (simp add: sent_packets_def)
qed

lemma demo_lead:
  assumes d: "demo_table d" and b: "ballot s1 = (PREZ_CANDIDATE, 1, ZName ''a'', 1)" and id: "same_id (demo_server d 0) s1"
    and m: "cl_node_mem s1 = demo_mem 0"
  shows "\<exists>s3 s4. clusterProcessPacket (demo_env ''a'') 3 s1 demo_vote = Some s3 \<and> cl_node_mem s3 = demo_mem 0 \<and>
    dents (cl_nodes s3) = dents d \<and> cron_candidate (demo_env ''a'') s3 = Some s4 \<and> cl_state s4 = PREZ_LEADER \<and> cl_current_term s4 = 1"
proof -
  define s3 where "s3 = clusterProcessResponseVote \<lparr>rvr_term = 1, vote_granted = 1\<rparr> (s1\<lparr>cl_received := ll (cl_received s1 + 1)\<rparr>)"
  have b1: "cl_state s1 = PREZ_CANDIDATE" "cl_current_term s1 = 1" "cl_votes_granted s1 = 1" using b by (simp_all add: ballot_def)
  have s3: "clusterProcessPacket (demo_env ''a'') 3 s1 demo_vote = Some s3" "cl_state s3 = PREZ_CANDIDATE" "cl_current_term s3 = 1"
    "cl_votes_granted s3 = 2" "cl_node_mem s3 = demo_mem 0" "cl_nodes s3 = cl_nodes s1"
    using b1 m by (simp_all add: s3_def clusterProcessPacket_def demo_packets clusterProcessResponseVote_def c_int32_def)
  have dn: "dents (cl_nodes s1) = dents d" using same_id_nodes(3) [OF id] by (simp add: demo_server_def)
  have ok: "nodes_ok (demo_env ''a'') (demo_server d 0)" using d by (simp add: nodes_ok_def demo_table_def demo_server_def demo_env_def)
  then have ok3: "nodes_ok (demo_env ''a'') s3" using same_id_nodes(1) [OF id] s3(6) by (simp add: nodes_ok_def)
  have "size (dents d) = 3" using d by (simp add: demo_table_def)
  then have q: "quorumSize s3 = 2" using nodes_size [OF ok3] dn s3(6) by (simp add: quorumSize_def)
  obtain s4 where s4: "cron_candidate (demo_env ''a'') s3 = Some s4"
    using candidate_total [OF ok3] dn d s3(5,6) by (auto simp: demo_table_def demo_mem_def)
  have b4: "cl_state s4 = PREZ_LEADER" "cl_current_term s4 = 1"
    using candidate_effect [OF ok3 s4] s3(2,3,4) q by (simp_all add: ballot_def ull_def)
  show ?thesis using s3(1,5,6) dn s4 b4 by auto
qed

lemma demo_run:
  assumes d: "demo_table d"
  shows "\<exists>w. reachable demo_cfg w \<and> (1, ''a'') \<in> w_leaders w"
proof -
  let ?C = demo_cfg and ?w0 = "demo_world d"
  have n: "w_node ?w0 ''a'' = demo_server d 0" "w_node ?w0 ''b'' = demo_server d 1" "''a'' \<in> rc_nodes ?C" "''b'' \<in> rc_nodes ?C"
    "rc_env ?C = demo_env" "rc_peer ?C ''a'' a = ''b''" "rc_peer ?C ''b'' a = ''a''" "w_net ?w0 = {#}" for a
    by (simp_all add: demo_world_def demo_cfg_def)
  have wired: "wired ?C ''a'' s" if "cl_node_mem s = demo_mem 0" "dents (cl_nodes s) = dents d" for s
    using demo_targets [OF d that(1)] that(2) unfolding wired_def by simp
  have z: "sndbuf (demo_server d k) b = []" "cl_nodes (demo_server d k) = d" for k b
    by (simp_all add: sndbuf_def demo_server_def demo_link_def)
  obtain s1 where s1: "cron_election (demo_env ''a'') 1000 (demo_server d 0) = Some s1" "ballot s1 = (PREZ_CANDIDATE, 1, ZName ''a'', 1)"
    "same_id (demo_server d 0) s1" "cl_node_mem s1 = demo_mem 0" "cl_fresh s1 = 4" "\<And>b. sndbuf s1 b = (if b = 3 then demo_req else [])"
    using demo_elect [OF d] by blast
  obtain s2 where s2: "clusterProcessPacket (demo_env ''b'') 3 (demo_server d 1) demo_req = Some s2" "cl_fresh s2 = 4"
    "\<And>b. sndbuf s2 b = (if b = 3 then demo_vote else [])" using demo_grant by blast
  obtain s3 s4 where s3: "clusterProcessPacket (demo_env ''a'') 3 s1 demo_vote = Some s3" "cl_node_mem s3 = demo_mem 0"
    "dents (cl_nodes s3) = dents d" and s4: "cron_candidate (demo_env ''a'') s3 = Some s4"
    and b4: "cl_state s4 = PREZ_LEADER" "cl_current_term s4 = 1" using demo_lead [OF d s1(2-4)] by blast
  let ?w1 = "w_step ?C ''a'' s1 {#} {} ?w0"
  have r1: "reachable ?C ?w1"
    using reachable.step [OF reachable.init [OF demo_start(1) [OF d]] raft_step.act] n(1,3,5) wired s1(1)
      local_step.election [of "demo_server d 0" "demo_env ''a''" 1000 s1] by (simp add: demo_server_def demo_world_def)
  have n1: "(''a'', ''b'', demo_req) \<in># w_net ?w1" "w_node ?w1 ''b'' = demo_server d 1" "w_node ?w1 ''a'' = s1"
    using sent_one [OF s1(5), of "demo_server d 0" demo_req ?C "''a''"] s1(6) n(1,2,6,8) demo_packets(3) z by (auto simp: new_bytes_def)
  let ?w2 = "w_step ?C ''b'' s2 {#(''a'', ''b'', demo_req)#} (counted_by ''b'' ''a'' (demo_server d 1) demo_req) ?w1"
  have r2: "reachable ?C ?w2"
    using reachable.step [OF r1 raft_step.deliver [OF n(4) n1(1) n(7), of 3 s2]] s2(1) n(5) n1(2) by simp
  have n2: "(''b'', ''a'', demo_vote) \<in># w_net ?w2" "w_node ?w2 ''a'' = s1"
    using sent_one [OF s2(2), of "demo_server d 1" demo_vote ?C "''b''"] s2(3) n1 n(7) demo_packets(4) z by (auto simp: new_bytes_def)
  let ?w3 = "w_step ?C ''a'' s3 {#(''b'', ''a'', demo_vote)#} (counted_by ''a'' ''b'' s1 demo_vote) ?w2"
  have r3: "reachable ?C ?w3"
    using reachable.step [OF r2 raft_step.deliver [OF n(3) n2(1) n(6), of 3 s3]] s3(1) n(5) n2(2) by simp
  have "reachable ?C (w_step ?C ''a'' s4 {#} {} ?w3)"
    using reachable.step [OF r3 raft_step.act [OF n(3), of ?w3 s4]] wired [OF s3(2,3)] local_step.candidate [OF s4] n(5) by simp
  moreover have "(1, ''a'') \<in> w_leaders (w_step ?C ''a'' s4 {#} {} ?w3)" using b4 by simp
  ultimately show ?thesis by blast
qed

text \<open>
  C1: election safety.  In every execution of the cluster -- the servers' timer steps, accepted and
  broken links, partial writes, and packets that are delivered in any order or lost -- two servers
  that ever lead in the same term are the same server.
\<close>

theorem election_safety:
  assumes C: "config_ok C" and r: "reachable C w" and l: "(t, i) \<in> w_leaders w" "(t, j) \<in> w_leaders w"
  shows "i = j"
proof -
  have inv: "votes_inv C w" "count_inv C w" using reachable_inv [OF C r] by (simp_all add: raft_inv_def)
  then have "quorum_for C (w_votes w) t i" "quorum_for C (w_votes w) t j" using l by (auto simp: count_inv_def)
  then obtain P Q where q: "P \<subseteq> rc_nodes C" "Q \<subseteq> rc_nodes C" "card (rc_nodes C) < 2 * card P" "card (rc_nodes C) < 2 * card Q"
    "\<forall>v \<in> P. (v, t, i) \<in> w_votes w" "\<forall>v \<in> Q. (v, t, j) \<in> w_votes w" unfolding quorum_for_def by blast
  have "finite (rc_nodes C)" using C by (simp add: config_ok_def)
  from majorities_meet [OF this q(1-4)] obtain v where "v \<in> P" "v \<in> Q" by blast
  then show ?thesis using votes_invD(2) [OF inv(1)] q(5,6) by blast
qed

theorem election_safety_witness:
  "\<exists>w. config_ok demo_cfg \<and> reachable demo_cfg w \<and> (1, ''a'') \<in> w_leaders w \<and> (\<forall>j. (1, j) \<in> w_leaders w \<longrightarrow> ''a'' = j)"
proof -
  obtain d where "demo_table d" using demo_table_ex by blast
  then obtain w where w: "reachable demo_cfg w" "(1, ''a'') \<in> w_leaders w" using demo_run by blast
  then show ?thesis using demo_start(2) election_safety [OF demo_start(2) w] by blast
qed

end
