(* ===== verification/Prez_Server.thy ===== *)
theory Prez_Server
  imports Prez_Command Prez_Cluster
begin

text \<open>
  The server as a whole: the clients of src/src/networking.c with their connections and their input,
  \<open>processCommand\<close> of src/src/prez.c, the path of a write through the log of the cluster
  (\<open>clusterProcessCommand\<close> of src/src/cluster.c and \<open>logApply\<close> of src/src/log.c) and \<open>clusterCron\<close>.
  The state is the cluster node, the key space with the settings, the command table and the clients
  by address.  \<open>None\<close> is a memory fault or a failed assertion.
\<close>

unbundle bit_operations_syntax

section \<open>State\<close>

record server =
  sv_cluster :: clusterState
  sv_db :: keysp
  sv_commands :: "(string, prezCommand) dict"
  sv_clients :: "nat \<Rightarrow> client option"
  sv_order :: "nat list"
  sv_to_close :: "nat list"
  sv_fresh :: nat
  sv_numconnections :: int
  sv_rejected_conn :: int

text \<open>The environment: of the cluster bus and of the commands, the content of fresh memory, the value of
  a fresh entry of the table of waiting clients, and the flags that the allocated memory of a new
  client happens to have.\<close>

record runenv =
  re_bus :: busenv
  re_srv :: srvenv
  re_mem :: "nat \<Rightarrow> char"
  re_junk :: nat
  re_flags :: "nat \<Rightarrow> bool \<times> bool \<times> bool"

text \<open>The output limits are settings, and two periods of the cluster are.\<close>

definition srv_env :: "runenv \<Rightarrow> server \<Rightarrow> srvenv" where
  "srv_env env sv =
     (let cfg = db_cfg (sv_db sv) in
      (re_srv env)\<lparr>se_net := (se_net (re_srv env))\<lparr>ne_hard := cf_hard_limit_bytes cfg, ne_soft := cf_soft_limit_bytes cfg,
         ne_soft_seconds := cf_soft_limit_seconds cfg\<rparr>\<rparr>)"

definition sync_periods :: "server \<Rightarrow> server" where
  "sync_periods sv =
     sv\<lparr>sv_cluster := (sv_cluster sv)\<lparr>cl_election_timeout := cf_election_timeout (db_cfg (sv_db sv)),
          cl_heartbeat_interval := cf_heartbeat_interval (db_cfg (sv_db sv))\<rparr>\<rparr>"

text \<open>A client that was scheduled to be closed enters the queue of such clients.\<close>

definition put_client :: "server \<Rightarrow> nat \<Rightarrow> client \<Rightarrow> server" where
  "put_client sv ca c =
     (let asap = (case sv_clients sv ca of Some c0 \<Rightarrow> c_close_asap c0 | None \<Rightarrow> False) in
      sv\<lparr>sv_clients := (sv_clients sv)(ca \<mapsto> c),
         sv_to_close := (if c_close_asap c \<and> \<not> asap then sv_to_close sv @ [ca] else sv_to_close sv)\<rparr>)"

lemma put_client_sel:
  "sv_cluster (put_client sv ca c) = sv_cluster sv" "sv_db (put_client sv ca c) = sv_db sv"
  "sv_clients (put_client sv ca c) = (sv_clients sv)(ca \<mapsto> c)"
  by (simp_all add: put_client_def Let_def)

section \<open>Connections\<close>

text \<open>Both lists must hold the client, which the code asserts.  The table of the clients that wait for
  an entry is not looked at.\<close>

definition unlink_client :: "server \<Rightarrow> nat \<Rightarrow> client \<Rightarrow> server option" where
  "unlink_client sv ca c =
     (if c_fd c = -1 then Some sv
      else if ca \<notin> set (sv_order sv) then None
      else Some (sv\<lparr>sv_order := remove1 ca (sv_order sv)\<rparr>))"

definition unqueue_client :: "server \<Rightarrow> nat \<Rightarrow> client \<Rightarrow> server option" where
  "unqueue_client sv ca c =
     (if \<not> c_close_asap c then Some sv
      else if ca \<notin> set (sv_to_close sv) then None
      else Some (sv\<lparr>sv_to_close := remove1 ca (sv_to_close sv)\<rparr>))"

definition freeClient :: "server \<Rightarrow> nat \<Rightarrow> server option" where
  "freeClient sv ca =
     do { c \<leftarrow> sv_clients sv ca;
          sv \<leftarrow> unlink_client sv ca c;
          sv \<leftarrow> unqueue_client sv ca c;
          Some (sv\<lparr>sv_clients := (sv_clients sv)(ca := None)\<rparr>) }"

text \<open>A new connection; above the limit it is told so and closed.\<close>

definition acceptCommonHandler :: "runenv \<Rightarrow> server \<Rightarrow> int \<Rightarrow> server option" where
  "acceptCommonHandler env sv fd =
     (case createClient (se_net (srv_env env sv)) fd (re_flags env (sv_fresh sv)) of
        None \<Rightarrow> Some sv
      | Some c \<Rightarrow>
          let ca = sv_fresh sv;
              sv = sv\<lparr>sv_clients := (sv_clients sv)(ca \<mapsto> c), sv_fresh := Suc ca,
                      sv_order := (if fd \<noteq> -1 then sv_order sv @ [ca] else sv_order sv)\<rparr>
          in if length (sv_order sv) > ull (cf_maxclients (db_cfg (sv_db sv))) then
               freeClient (sv\<lparr>sv_rejected_conn := ll (sv_rejected_conn sv + 1)\<rparr>) ca
             else Some (sv\<lparr>sv_numconnections := ll (sv_numconnections sv + 1)\<rparr>))"

text \<open>\<open>fds\<close> are the results of the successive calls of \<open>accept\<close>, of which at most a thousand are made.\<close>

fun accept_clients :: "runenv \<Rightarrow> nat \<Rightarrow> int list \<Rightarrow> server \<Rightarrow> server option" where
  "accept_clients env 0 fds sv = Some sv"
| "accept_clients env (Suc n) [] sv = Some sv"
| "accept_clients env (Suc n) (fd # fds) sv =
     (if fd = -1 then Some sv else do { sv \<leftarrow> acceptCommonHandler env sv fd; accept_clients env n fds sv })"

definition acceptTcpHandler :: "runenv \<Rightarrow> int list \<Rightarrow> server \<Rightarrow> server option" where
  "acceptTcpHandler env fds sv = accept_clients env 1000 fds sv"

fun free_queue :: "nat list \<Rightarrow> server \<Rightarrow> server option" where
  "free_queue [] sv = Some sv"
| "free_queue (ca # cas) sv =
     do { c \<leftarrow> sv_clients sv ca;
          sv \<leftarrow> freeClient (sv\<lparr>sv_clients := (sv_clients sv)(ca \<mapsto> c\<lparr>c_close_asap := False\<rparr>)\<rparr>) ca;
          free_queue cas (sv\<lparr>sv_to_close := cas\<rparr>) }"

definition freeClientsInAsyncFreeQueue :: "server \<Rightarrow> server option" where
  "freeClientsInAsyncFreeQueue sv = free_queue (sv_to_close sv) sv"

section \<open>A write enters the log\<close>

text \<open>
  The text of a request is built by passing each argument as the format of \<open>sdscatprintf\<close>, with its
  length as the only further argument.  A format may hold that argument once, as an unsigned long;
  any other conversion reads an argument of another type or one that was not passed, and is a fault.
\<close>

fun printf_size :: "nat option \<Rightarrow> string \<Rightarrow> string option" where
  "printf_size arg [] = Some []"
| "printf_size arg (c # f) =
     (if c \<noteq> CHR ''%'' then map_option ((#) c) (printf_size arg f)
      else case f of
        [] \<Rightarrow> None
      | d # f' \<Rightarrow>
          if d = CHR ''%'' then map_option ((#) d) (printf_size arg f')
          else if d = CHR ''l'' \<or> d = CHR ''z'' then
            (case (f', arg) of
               (e # f'', Some n) \<Rightarrow>
                 if e = CHR ''u'' then map_option ((@) (show_nat n)) (printf_size None f'') else None
             | _ \<Rightarrow> None)
          else None)"

fun repr_loop :: "(nat \<Rightarrow> char) \<Rightarrow> sdshdr \<Rightarrow> robj list \<Rightarrow> sdshdr option" where
  "repr_loop g s [] = Some s"
| "repr_loop g s (a # as) =
     do { t \<leftarrow> key_sds a;
          out \<leftarrow> printf_size (Some (length t)) (cstr t);
          s \<leftarrow> sdscatvprintf g s t out;
          s \<leftarrow> (if as \<noteq> [] then sdscatlen g s '' '' else Some s);
          repr_loop g s as }"

text \<open>
  The newline is appended with the result of \<open>sdscatlen\<close> thrown away: when the string has no free
  byte it moves, and the copy that follows reads freed memory.  That copy is of as many bytes as the
  string has, into an array of 40.
\<close>

definition command_text :: "(nat \<Rightarrow> char) \<Rightarrow> robj list \<Rightarrow> string option" where
  "command_text g argv =
     do { s \<leftarrow> sdsnew (Some []);
          s \<leftarrow> repr_loop g s argv;
          s \<leftarrow> (if sdsavail s \<ge> 1 then sdscatlen g s [LF] else None);
          if sdslen s > PREZ_COMMAND_LEN then None
          else Some (char_array PREZ_COMMAND_LEN (take (sdslen s) (sh_buf s))) }"

definition index_key :: "runenv \<Rightarrow> int \<Rightarrow> string option" where
  "index_key env i = do { s \<leftarrow> sdsfromlonglong (map (re_mem env) [0..<SDS_LLSTR_SIZE]) i; Some (take (sdslen s) (sh_buf s)) }"

definition clusterProcessCommand :: "runenv \<Rightarrow> server \<Rightarrow> nat \<Rightarrow> server option" where
  "clusterProcessCommand env sv ca =
     do { c \<leftarrow> sv_clients sv ca;
          name \<leftarrow> c_cmd c;
          let cl = sv_cluster sv;
          command \<leftarrow> command_text (re_mem env) (c_argv c);
          let entry = \<lparr>le_index = ll (logCurrentIndex cl + 1), le_term = cl_current_term cl,
                       le_commandName = char_array PREZ_COMMAND_NAMELEN name, le_command = command\<rparr>;
          (cl, _) \<leftarrow> logWriteEntry (be_os (re_bus env)) cl entry;
          let _ = logSync (be_os (re_bus env)) cl;
          cl \<leftarrow> (if dictSize (cl_nodes cl) = 1 then Some (fst (logCommitIndex cl (logCurrentIndex cl)))
                else do { k \<leftarrow> index_key env (le_index entry);
                          (d, _) \<leftarrow> dictAdd (be_can (re_bus env)) (re_junk env)
                                      (clusterProcClientsDictType (be_seed (re_bus env))) (cl_proc_clients cl) k ca;
                          Some (cl\<lparr>cl_proc_clients := d\<rparr>) });
          Some (sv\<lparr>sv_cluster := cl\<rparr>) }"

section \<open>Commands\<close>

definition arity_wrong :: "prezCommand \<Rightarrow> nat \<Rightarrow> bool" where
  "arity_wrong cmd argc \<longleftrightarrow> (cmd_arity cmd > 0 \<and> cmd_arity cmd \<noteq> int argc) \<or> int argc < - cmd_arity cmd"

definition run_call :: "runenv \<Rightarrow> server \<Rightarrow> nat \<Rightarrow> server option" where
  "run_call env sv ca =
     do { c \<leftarrow> sv_clients sv ca;
          (db, c) \<leftarrow> call (srv_env env sv) (sv_db sv) c;
          Some (sync_periods (put_client (sv\<lparr>sv_db := db\<rparr>) ca c)) }"

definition processCommand :: "runenv \<Rightarrow> server \<Rightarrow> nat \<Rightarrow> (server \<times> int) option" where
  "processCommand env sv ca =
     do { c \<leftarrow> sv_clients sv ca;
          let net = se_net (srv_env env sv);
          name \<leftarrow> (case c_argv c of [] \<Rightarrow> None | a # _ \<Rightarrow> key_sds a);
          (d, found) \<leftarrow> lookupCommand (srv_env env sv) (sv_commands sv) name;
          let sv = sv\<lparr>sv_commands := d\<rparr>;
          let c = c\<lparr>c_cmd := map_option cmd_name found\<rparr>;
          case found of
            None \<Rightarrow>
              Some (put_client sv ca (addReplyErrorFormat net c (''unknown command '' @ [CHR 0x27] @ cstr name @ [CHR 0x27])), PREZ_OK)
          | Some cmd \<Rightarrow>
              if arity_wrong cmd (length (c_argv c)) then
                Some (put_client sv ca (addReplyErrorFormat net c
                  (''wrong number of arguments for '' @ [CHR 0x27] @ cmd_name cmd @ [CHR 0x27] @ '' command'')), PREZ_OK)
              else if cmd_flags cmd AND PREZ_CMD_WRITE \<noteq> 0 then
                (case cl_state (sv_cluster sv) of
                   PREZ_CANDIDATE \<Rightarrow>
                     Some (put_client sv ca (addReplySds net c
                       (''-CLUSTERDOWN Leader not elected.Command not accepted'' @ CRLF)), PREZ_OK)
                 | PREZ_FOLLOWER \<Rightarrow>
                     Some (put_client sv ca (addReplySds net c
                       (''-ASK '' @ cstr (name_bytes (cl_leader (sv_cluster sv))) @ CRLF)), PREZ_OK)
                 | PREZ_LEADER \<Rightarrow>
                     do { sv \<leftarrow> clusterProcessCommand env (put_client sv ca c) ca; Some (sv, PREZ_ERR) })
              else do { sv \<leftarrow> run_call env (put_client sv ca c) ca; Some (sv, PREZ_OK) } }"

section \<open>A committed entry is applied\<close>

text \<open>
  The leader runs the request of the client that waits for the entry, which must still be connected.
  Otherwise the text of the entry is split; an empty argument leaves its slot of the argument vector
  uninitialised, which is a fault as soon as the slot is read, at the latest when the vector is freed.
\<close>

definition apply_text :: "runenv \<Rightarrow> server \<Rightarrow> string \<Rightarrow> server option" where
  "apply_text env sv command =
     (if NUL \<notin> set command then None
      else case sdssplitargs (cstr command) of
        None \<Rightarrow> Some sv
      | Some argv \<Rightarrow>
          do { name \<leftarrow> (case argv of [] \<Rightarrow> None | a # _ \<Rightarrow> if a = [] then None else Some a);
               (d, found) \<leftarrow> lookupCommand (srv_env env sv) (sv_commands sv) name;
               let sv = sv\<lparr>sv_commands := d\<rparr>;
               case found of
                 None \<Rightarrow> Some sv
               | Some cmd \<Rightarrow>
                   if arity_wrong cmd (length argv) then Some sv
                   else if [] \<in> set argv then None
                   else do { (db, _) \<leftarrow> run_proc (srv_env env sv) (cmd_proc cmd) (sv_db sv) None
                                          (map (\<lambda>a. createObject (PSds a)) argv);
                             Some (sv\<lparr>sv_db := db\<rparr>) } })"

definition logApply :: "runenv \<Rightarrow> server \<Rightarrow> int \<Rightarrow> server option" where
  "logApply env sv index =
     (case getLogEntry (sv_cluster sv) index of
        None \<Rightarrow> Some sv
      | Some en \<Rightarrow>
          if cl_state (sv_cluster sv) = PREZ_LEADER then
            do { k \<leftarrow> index_key env index;
                 let T = clusterProcClientsDictType (be_seed (re_bus env));
                 (d, waiting) \<leftarrow> dictFetchValue T (cl_proc_clients (sv_cluster sv)) k;
                 let sv = sv\<lparr>sv_cluster := (sv_cluster sv)\<lparr>cl_proc_clients := d\<rparr>\<rparr>;
                 case waiting of
                   None \<Rightarrow> apply_text env sv (le_command (log_entry en))
                 | Some ca \<Rightarrow>
                     do { sv \<leftarrow> run_call env sv ca;
                          (d, _) \<leftarrow> dictDelete T (cl_proc_clients (sv_cluster sv)) k;
                          Some (sv\<lparr>sv_cluster := (sv_cluster sv)\<lparr>cl_proc_clients := d\<rparr>\<rparr>) } }
          else apply_text env sv (le_command (log_entry en)))"

text \<open>Applying an entry leaves the log and its indices alone, so the loop over the committed entries ends.\<close>

definition same_log :: "server \<Rightarrow> server \<Rightarrow> bool" where
  "same_log sv sv' \<longleftrightarrow> log_entries (sv_cluster sv') = log_entries (sv_cluster sv) \<and>
     commit_index (sv_cluster sv') = commit_index (sv_cluster sv) \<and>
     last_applied (sv_cluster sv') = last_applied (sv_cluster sv) \<and> cl_state (sv_cluster sv') = cl_state (sv_cluster sv)"

lemma run_call_frame:
  "run_call env sv ca = Some sv' \<Longrightarrow> same_log sv sv' \<and> sv_commands sv' = sv_commands sv \<and>
     cl_proc_clients (sv_cluster sv') = cl_proc_clients (sv_cluster sv)"
  by (auto simp: run_call_def sync_periods_def put_client_def same_log_def Let_def split: bind_splits)

lemma apply_text_frame: "apply_text env sv t = Some sv' \<Longrightarrow> sv_cluster sv' = sv_cluster sv \<and> sv_clients sv' = sv_clients sv"
  by (auto simp: apply_text_def Let_def split: if_splits option.splits bind_splits list.splits)

lemma logApply_same_log: "logApply env sv i = Some sv' \<Longrightarrow> same_log sv sv'"
  by (auto simp: logApply_def same_log_def Let_def split: if_splits option.splits bind_splits dest!: run_call_frame apply_text_frame)

function apply_committed :: "runenv \<Rightarrow> server \<Rightarrow> server option" where
  "apply_committed env sv =
     (if commit_index (sv_cluster sv) > last_applied (sv_cluster sv) then
        let sv = sv\<lparr>sv_cluster := (sv_cluster sv)\<lparr>last_applied := last_applied (sv_cluster sv) + 1\<rparr>\<rparr> in
        do { sv \<leftarrow> logApply env sv (last_applied (sv_cluster sv)); apply_committed env sv }
      else Some sv)"
  by pat_completeness auto
termination
  by (relation "measure (\<lambda>(env, sv). nat (commit_index (sv_cluster sv) - last_applied (sv_cluster sv)))")
    (auto dest!: logApply_same_log simp: same_log_def)

declare apply_committed.simps [simp del]

section \<open>The cron job\<close>

definition on_cluster :: "(clusterState \<Rightarrow> clusterState option) \<Rightarrow> server \<Rightarrow> server option" where
  "on_cluster f sv = do { cl \<leftarrow> f (sv_cluster sv); Some (sv\<lparr>sv_cluster := cl\<rparr>) }"

definition clusterCron :: "runenv \<Rightarrow> server \<Rightarrow> server option" where
  "clusterCron env sv =
     (let (now, cl) = mstime (re_bus env) (sv_cluster sv) in
      do { sv \<leftarrow> on_cluster (cron_reconnect (re_bus env)) (sv\<lparr>sv_cluster := cl\<rparr>);
           sv \<leftarrow> apply_committed env sv;
           sv \<leftarrow> on_cluster (cron_election (re_bus env) now) sv;
           sv \<leftarrow> on_cluster (cron_candidate (re_bus env)) sv;
           on_cluster (cron_leader (re_bus env)) sv })"

text \<open>The result of the timer event is the time to the next one; the setting \<open>hz\<close> is never zero
  after a load of the configuration.\<close>

definition serverCron :: "runenv \<Rightarrow> server \<Rightarrow> (server \<times> int) option" where
  "serverCron env sv =
     do { sv \<leftarrow> clusterCron env sv;
          let hz = cf_hz (db_cfg (sv_db sv));
          if hz = 0 then None else Some (sv, 1000 div hz) }"

section \<open>Input\<close>

text \<open>
  One round of the loop over the input of a client: \<open>Inl\<close> ends the loop.
\<close>

definition input_round :: "runenv \<Rightarrow> server \<Rightarrow> nat \<Rightarrow> (server + server) option" where
  "input_round env sv ca =
     do { c \<leftarrow> sv_clients sv ca;
          if c_querybuf c = [] \<or> c_blocked c \<or> c_close_after_reply c then Some (Inl sv)
          else
            let net = se_net (srv_env env sv);
                c = (if c_reqtype c = REQ_UNKNOWN
                     then c\<lparr>c_reqtype := (if hd (c_querybuf c) = CHR ''*'' then REQ_MULTIBULK else REQ_INLINE)\<rparr> else c)
            in do { (c, rc) \<leftarrow> (if c_reqtype c = REQ_INLINE then Some (processInlineBuffer net c) else processMultibulkBuffer net c);
                    let sv = put_client sv ca c;
                    if rc \<noteq> PREZ_OK then Some (Inl sv)
                    else if c_argv c = [] then Some (Inr (put_client sv ca (resetClient c)))
                    else do { (sv, rc) \<leftarrow> processCommand env sv ca;
                              c \<leftarrow> sv_clients sv ca;
                              Some (Inr (if rc = PREZ_OK then put_client sv ca (resetClient c) else sv)) } } }"

text \<open>The loop: \<open>None\<close> is a loop that does not end, \<open>Some None\<close> a fault or a failed assertion.\<close>

partial_function (option) processInputBuffer :: "runenv \<Rightarrow> server \<Rightarrow> nat \<Rightarrow> server option option" where
  "processInputBuffer env sv ca =
     (case input_round env sv ca of
        None \<Rightarrow> Some None
      | Some (Inl sv) \<Rightarrow> Some (Some sv)
      | Some (Inr sv) \<Rightarrow> processInputBuffer env sv ca)"

text \<open>
  What \<open>read(2)\<close> has for the server: an error, nothing yet, or bytes, of which at most \<open>readlen\<close>
  are taken; no bytes at all is the end of the stream.
\<close>

datatype input = Read_Error | Read_Again | Read_Bytes string

abbreviation (input) PREZ_IOBUF_LEN :: int where "PREZ_IOBUF_LEN \<equiv> 16384"
abbreviation (input) PREZ_MBULK_BIG_ARG :: int where "PREZ_MBULK_BIG_ARG \<equiv> 32768"
abbreviation (input) PREZ_MAX_QUERYBUF_LEN :: nat where "PREZ_MAX_QUERYBUF_LEN \<equiv> 1073741824"

definition readlen :: "client \<Rightarrow> int" where
  "readlen c =
     (if c_reqtype c = REQ_MULTIBULK \<and> c_multibulklen c \<noteq> 0 \<and> c_bulklen c \<noteq> -1 \<and> c_bulklen c \<ge> PREZ_MBULK_BIG_ARG then
        let remaining = c_int32 ((c_bulklen c + 2) mod 4294967296 - int (length (c_querybuf c)))
        in if remaining < PREZ_IOBUF_LEN then remaining else PREZ_IOBUF_LEN
      else PREZ_IOBUF_LEN)"

definition readQueryFromClient :: "runenv \<Rightarrow> server \<Rightarrow> nat \<Rightarrow> input \<Rightarrow> server option option" where
  "readQueryFromClient env sv ca inp =
     (case sv_clients sv ca of
        None \<Rightarrow> Some None
      | Some c \<Rightarrow>
          if readlen c < 0 then Some None
          else (case inp of
            Read_Error \<Rightarrow> Some (freeClient sv ca)
          | Read_Again \<Rightarrow> Some (Some sv)
          | Read_Bytes bs \<Rightarrow>
              let got = take (nat (readlen c)) bs in
              if got = [] then Some (freeClient sv ca)
              else
                let c = c\<lparr>c_querybuf := c_querybuf c @ got\<rparr>;
                    sv = put_client sv ca c
                in if length (c_querybuf c) > PREZ_MAX_QUERYBUF_LEN then Some (freeClient sv ca)
                   else processInputBuffer env sv ca))"

section \<open>The text of a request\<close>

lemma sdscatvprintf_sdscatlen: "sdscatvprintf g s fmt out = sdscatlen g s (cstr out)"
proof -
  let ?n = "if strlen fmt * 2 > 1024 then strlen fmt * 2 else 1024"
  have "2 \<le> ?n" by auto
  then obtain b where "vprintf_loop g ?n out = Some b" "cstr b = cstr out" using vprintf_loop_ok by blast
  then show ?thesis by (simp add: sdscatvprintf_def sdscat_def Let_def)
qed

text \<open>The free bytes after an append: what was left of them, or as many as the string has when it had to grow.\<close>

lemma sdscatlen_free:
  assumes ok: "sds_ok s" and small: "length (sds_str s) + length d < 524288" and r: "sdscatlen g s d = Some s'"
  shows "sh_free s' = (if int (length d) \<le> sh_free s then sh_free s - int (length d) else int (length (sds_str s) + length d))"
proof -
  let ?m = "sdsMakeRoomFor g s (length d)"
  have f: "0 \<le> sh_free s" "sh_free s < 2147483647" using ok by (auto simp: sds_ok_def)
  have av: "sdsavail s = nat (sh_free s)" using f by (simp add: sdsavail_def ull_nonneg)
  have len: "sdslen s = length (sds_str s)" using ok length_sds_str [OF ok] by (auto simp: sdslen_ok)
  have "sh_free ?m = (if int (length d) \<le> sh_free s then sh_free s else int ((length (sds_str s) + length d) * 2) - int (length (sds_str s)))"
    using f small by (auto simp: sdsMakeRoomFor_def av len Let_def SDS_MAX_PREALLOC_def c_int32_id)
  moreover have "sh_free s' = c_int32 (sh_free ?m - int (length d))"
    using r by (auto simp: sdscatlen_def Let_def split: bind_splits)
  ultimately show ?thesis using f small by (auto simp: c_int32_id)
qed

fun spare :: "nat \<Rightarrow> nat \<Rightarrow> string list \<Rightarrow> nat" where
  "spare len free [] = free"
| "spare len free (t # ts) =
     (let n = length t in spare (len + n) (if n \<le> free then free - n else len + n) ts)"

text \<open>The pieces that the loop appends.\<close>

fun pieces :: "string list \<Rightarrow> string list" where
  "pieces [] = []"
| "pieces [w] = [w]"
| "pieces (w # ws) = w # '' '' # pieces ws"

lemma concat_pieces: "concat (pieces ws) = intercalate '' '' ws"
  by (induction ws rule: pieces.induct) auto

definition literal :: "string \<Rightarrow> bool" where
  "literal w \<longleftrightarrow> NUL \<notin> set w \<and> CHR ''%'' \<notin> set w"

lemma printf_size_literal: "CHR ''%'' \<notin> set w \<Longrightarrow> printf_size a w = Some w"
  by (induction a w rule: printf_size.induct) auto

lemma sdscatlen_step:
  assumes "sds_ok s" "length (sds_str s) + length d < 524288"
  shows "\<exists>s'. sdscatlen g s d = Some s' \<and> sds_ok s' \<and> sds_str s' = sds_str s @ d \<and>
    nat (sh_free s') = spare (length (sds_str s)) (nat (sh_free s)) [d]"
proof -
  obtain s' where s': "sdscatlen g s d = Some s'" "sds_ok s'" "sds_str s' = sds_str s @ d"
    using sdscatlen_ok [OF assms(1), of d g] assms(2) by (auto simp: room_ok_def)
  moreover have "0 \<le> sh_free s" using assms(1) by (simp add: sds_ok_def)
  ultimately show ?thesis using sdscatlen_free [OF assms s'(1)] by (auto simp: Let_def)
qed

lemma repr_loop_ok:
  assumes "sds_ok s" "list_all literal ws" "map key_sds argv = map Some ws"
    "length (sds_str s) + length (intercalate '' '' ws) < 524288"
  shows "\<exists>s'. repr_loop g s argv = Some s' \<and> sds_ok s' \<and> sds_str s' = sds_str s @ intercalate '' '' ws \<and>
    nat (sh_free s') = spare (length (sds_str s)) (nat (sh_free s)) (pieces ws)"
  using assms
proof (induction ws arbitrary: s argv rule: pieces.induct)
  case (2 w)
  then obtain a where a: "argv = [a]" "key_sds a = Some w" by auto
  have w: "cstr w = w" "printf_size (Some (length w)) w = Some w"
    using 2 printf_size_literal by (auto simp: literal_def cstr_id)
  show ?case using sdscatlen_step [of s w g] 2 by (auto simp: a w sdscatvprintf_sdscatlen)
next
  case (3 w v ws)
  then obtain a as where a: "argv = a # as" "key_sds a = Some w" "map key_sds as = map Some (v # ws)" "as \<noteq> []" by auto
  have w: "cstr w = w" "printf_size (Some (length w)) w = Some w"
    using 3 printf_size_literal by (auto simp: literal_def cstr_id)
  obtain s1 where s1: "sdscatlen g s w = Some s1" "sds_ok s1" "sds_str s1 = sds_str s @ w"
    "nat (sh_free s1) = spare (length (sds_str s)) (nat (sh_free s)) [w]"
    using sdscatlen_step [of s w g] 3 by auto
  obtain s2 where s2: "sdscatlen g s1 '' '' = Some s2" "sds_ok s2" "sds_str s2 = sds_str s1 @ '' ''"
    "nat (sh_free s2) = spare (length (sds_str s1)) (nat (sh_free s1)) ['' '']"
    using sdscatlen_step [of s1 "'' ''" g] s1 3 by auto
  have "length (sds_str s2) + length (intercalate '' '' (v # ws)) < 524288" using 3(5) s1(3) s2(3) by simp
  moreover have "list_all literal (v # ws)" using 3(3) by simp
  ultimately obtain s3 where s3: "repr_loop g s2 as = Some s3" "sds_ok s3" "sds_str s3 = sds_str s2 @ intercalate '' '' (v # ws)"
    "nat (sh_free s3) = spare (length (sds_str s2)) (nat (sh_free s2)) (pieces (v # ws))"
    using 3(1) [OF s2(2) _ a(3)] by blast
  have "repr_loop g s argv = repr_loop g s2 as" using s1(1) s2(1) a(4) by (simp add: a(1,2) w sdscatvprintf_sdscatlen)
  moreover have "sds_str s2 @ intercalate '' '' (v # ws) = sds_str s @ intercalate '' '' (w # v # ws)" using s1(3) s2(3) by simp
  moreover have "spare (length (sds_str s2)) (nat (sh_free s2)) (pieces (v # ws)) =
      spare (length (sds_str s)) (nat (sh_free s)) (pieces (w # v # ws))"
    unfolding s2(4) s1(4) by (simp add: s1(3) s2(3) Let_def del: pieces.simps(2))
  ultimately show ?case using s3 by simp
qed auto

lemma command_text_eq:
  assumes "list_all literal ws" "map key_sds argv = map Some ws" "length (intercalate '' '' ws) < 524287"
  shows "command_text g argv =
    (if spare 0 0 (pieces ws) = 0 \<or> 40 \<le> length (intercalate '' '' ws) then None
     else Some (char_array 40 (intercalate '' '' ws @ [LF])))"
proof -
  let ?t = "intercalate '' '' ws"
  obtain s0 where s0: "sdsnew (Some []) = Some s0" "sds_ok s0" "sds_str s0 = []" "sh_free s0 = 0"
    using sdsnewlen_ok [of 0 "[]"] by (auto simp: sdsnew_def strlen_def cstr_def sdsnewlen_def split: bind_splits)
  obtain s1 where s1: "repr_loop g s0 argv = Some s1" "sds_ok s1" "sds_str s1 = ?t" "nat (sh_free s1) = spare 0 0 (pieces ws)"
    using repr_loop_ok [OF s0(2) assms(1,2), of g] s0(3,4) assms(3) by auto
  have f: "0 \<le> sh_free s1" "sh_free s1 < 2147483647" using s1(2) by (auto simp: sds_ok_def)
  then have av: "sdsavail s1 = spare 0 0 (pieces ws)" using s1(4) by (simp add: sdsavail_def ull_nonneg)
  obtain s2 where s2: "sdscatlen g s1 [LF] = Some s2" "sds_ok s2" "sds_str s2 = ?t @ [LF]"
    using sdscatlen_ok [OF s1(2), of "[LF]" g] s1(3) assms(3) by (auto simp: room_ok_def)
  have "sdslen s2 = Suc (length ?t)" "take (sdslen s2) (sh_buf s2) = ?t @ [LF]"
    using s2 length_sds_str [OF s2(2)] by (auto simp: sdslen_ok sds_str_def)
  then show ?thesis using s0(1) s1(1) s2(1) av by (auto simp: command_text_def PREZ_COMMAND_LEN_def)
qed

text \<open>The requests that the code logs without a fault.\<close>

definition fits :: "string list \<Rightarrow> bool" where
  "fits ws \<longleftrightarrow> 0 < spare 0 0 (pieces ws) \<and> length (intercalate '' '' ws) < 39"

definition entry_of :: "clusterState \<Rightarrow> string \<Rightarrow> string list \<Rightarrow> logEntry" where
  "entry_of cl name ws = \<lparr>le_index = logCurrentIndex cl + 1, le_term = cl_current_term cl,
     le_commandName = char_array 40 name, le_command = char_array 40 (intercalate '' '' ws @ [LF])\<rparr>"

lemma literal_line: "list_all literal ws \<Longrightarrow> NUL \<notin> set (intercalate '' '' ws @ [LF])"
  using intercalate_no_nul [of "'' ''" ws] by (auto simp: literal_def list_all_iff)

lemma entry_of_text:
  assumes "list_all literal ws"
  shows "cstr (le_command (entry_of cl name ws)) = intercalate '' '' ws @ [LF]"
  using cstr_char_array [OF literal_line [OF assms]] by (simp add: entry_of_def)

lemma entry_of_ok:
  assumes "list_all literal ws" "no_NUL name" "length name < 40" "is_ll (logCurrentIndex cl + 1)" "is_ll (cl_current_term cl)"
  shows "entry_ok (entry_of cl name ws) \<longleftrightarrow> length (intercalate '' '' ws) < 39"
  using assms entry_of_text [OF assms(1), of cl name] cstr_char_array [of name 40]
  by (auto simp: entry_ok_def terminated_def strlen_def PREZ_COMMAND_LEN_def PREZ_COMMAND_NAMELEN_def no_NUL_def)
    (auto simp: entry_of_def)

section \<open>Waiting clients\<close>

definition waits_ok :: "runenv \<Rightarrow> server \<Rightarrow> bool" where
  "waits_ok env sv \<longleftrightarrow> dict_ok (dbDictType (be_seed (re_bus env))) (\<lambda>_. True) (cl_proc_clients (sv_cluster sv))"

definition waits :: "runenv \<Rightarrow> server \<Rightarrow> int \<Rightarrow> nat option" where
  "waits env sv i = dict_map (dbDictType (be_seed (re_bus env))) (cl_proc_clients (sv_cluster sv)) (show_int i)"

lemma index_key_eq: "is_ll i \<Longrightarrow> index_key env i = Some (show_int i)"
  using sdsfromlonglong_ok [of i "map (re_mem env) [0..<SDS_LLSTR_SIZE]"]
  by (auto simp: index_key_def sds_str_def sdslen_ok)

lemma dictAdd_map:
  assumes "dict_ok (dbDictType seed) (\<lambda>_. True) d" "dictSize d < 268435456"
  shows "\<exists>d' rc. dictAdd can junk (dbDictType seed) d k v = Some (d', rc) \<and> dict_ok (dbDictType seed) (\<lambda>_. True) d' \<and>
    dict_map (dbDictType seed) d' = (if dict_map (dbDictType seed) d k = None then (dict_map (dbDictType seed) d)(k \<mapsto> v)
      else dict_map (dbDictType seed) d)"
proof -
  obtain d' where d': "dictAdd can junk (dbDictType seed) d k v = Some (d', if dict_map (dbDictType seed) d k = None then DICT_OK else DICT_ERR)"
    "dict_ok (dbDictType seed) (\<lambda>_. True) d'"
    "dents d' = (if dict_map (dbDictType seed) d k = None then add_mset (k, v) (dents d) else dents d)"
    using dbt.dictAdd_ok [OF assms(1), of can junk k v] assms(2) dbt.dictSize_ok [OF assms(1)] by auto
  have "dict_map (dbDictType seed) d' x = (if x = k then Some v else dict_map (dbDictType seed) d x)"
    if "dict_map (dbDictType seed) d k = None" for x
    using dbt.map_after_add [OF assms(1) d'(2) TrueI TrueI, of k v "dents d" "{#}" k x] d'(3) that by (simp add: db_type_fields)
  then have "dict_map (dbDictType seed) d' = (if dict_map (dbDictType seed) d k = None then (dict_map (dbDictType seed) d)(k \<mapsto> v)
      else dict_map (dbDictType seed) d)"
    using db_map_cong [OF assms(1) d'(2)] d'(3) by (auto simp: fun_eq_iff)
  with d' show ?thesis by blast
qed

text \<open>The invariant of a server.\<close>

definition server_ok :: "runenv \<Rightarrow> server \<Rightarrow> bool" where
  "server_ok env sv \<longleftrightarrow> log_wf (sv_cluster sv) \<and> log_small (sv_cluster sv) \<and> is_ll (cl_current_term (sv_cluster sv)) \<and>
     waits_ok env sv \<and> commands_ok (re_srv env) (sv_commands sv) \<and> db_ok (re_srv env) (sv_db sv)"

text \<open>Room for \<open>n\<close> more keys and entries and for one more waiting client.\<close>

definition server_room :: "server \<Rightarrow> nat \<Rightarrow> bool" where
  "server_room sv n \<longleftrightarrow> db_room (sv_db sv) n \<and> dictSize (cl_proc_clients (sv_cluster sv)) < 268435456 \<and>
     int (logLength (sv_cluster sv)) + int n < 4611686018427387000"

text \<open>A client with a request of the words \<open>ws\<close> for the command \<open>name\<close>.\<close>

definition asks :: "server \<Rightarrow> nat \<Rightarrow> string \<Rightarrow> string list \<Rightarrow> bool" where
  "asks sv ca name ws \<longleftrightarrow> (\<exists>c. sv_clients sv ca = Some c \<and> c_cmd c = Some name \<and> map key_sds (c_argv c) = map Some ws) \<and>
     no_NUL name \<and> length name < 40 \<and> list_all literal ws \<and> length (intercalate '' '' ws) < 524287"

definition logged :: "server \<Rightarrow> logEntry \<Rightarrow> server \<Rightarrow> bool" where
  "logged sv e sv' \<longleftrightarrow> (\<exists>f n d. sv' = sv\<lparr>sv_cluster := (sv_cluster sv)\<lparr>log_file := f, log_current_size := n,
     log_entries := log_entries (sv_cluster sv) @ [new_node e (log_current_size (sv_cluster sv))], cl_proc_clients := d\<rparr>\<rparr>)"

lemma logWriteEntry_next:
  assumes "log_wf s" "log_small s" "le_index e = logCurrentIndex s + 1"
  shows "logWriteEntry env s e = do { s \<leftarrow> log_persist env s e; Some (s, PREZ_OK) }"
  using assms by (intro logWriteEntry_append) (auto simp: logCurrentIndex_wf small_def log_small_def)

lemma next_index_ll:
  assumes "server_ok env sv"
  shows "is_ll (logCurrentIndex (sv_cluster sv) + 1)" "ll (logCurrentIndex (sv_cluster sv) + 1) = logCurrentIndex (sv_cluster sv) + 1"
proof -
  show "is_ll (logCurrentIndex (sv_cluster sv) + 1)"
    using assms by (auto simp: server_ok_def logCurrentIndex_wf log_small_def is_ll_def)
  then show "ll (logCurrentIndex (sv_cluster sv) + 1) = logCurrentIndex (sv_cluster sv) + 1" by (rule ll_id)
qed

lemma clusterProcessCommand_logs:
  assumes ok: "server_ok env sv" "server_room sv 0" and asks: "asks sv ca name ws" and fits: "fits ws"
    and nodes: "dictSize (cl_nodes (sv_cluster sv)) \<noteq> 1"
  defines "i \<equiv> logCurrentIndex (sv_cluster sv) + 1"
  shows "\<exists>sv'. clusterProcessCommand env sv ca = Some sv' \<and> logged sv (entry_of (sv_cluster sv) name ws) sv' \<and> waits_ok env sv' \<and>
    (\<forall>j. is_ll j \<longrightarrow> waits env sv' j = (if j = i \<and> waits env sv i = None then Some ca else waits env sv j))"
proof -
  let ?cl = "sv_cluster sv" and ?e = "entry_of (sv_cluster sv) name ws"
  let ?T = "dbDictType (be_seed (re_bus env)) :: (string, nat) dictType"
  obtain c where c: "sv_clients sv ca = Some c" "c_cmd c = Some name" "map key_sds (c_argv c) = map Some ws"
    "no_NUL name" "length name < 40" "list_all literal ws" "length (intercalate '' '' ws) < 524287"
    using asks by (auto simp: asks_def)
  note ll = next_index_ll [OF ok(1)]
  have t: "command_text (re_mem env) (c_argv c) = Some (le_command ?e)"
    using command_text_eq [OF c(6,3,7)] fits by (auto simp: fits_def entry_of_def)
  have eok: "entry_ok ?e" using entry_of_ok [OF c(6,4,5)] ll(1) ok(1) fits by (auto simp: fits_def server_ok_def)
  obtain f n where w: "logWriteEntry (be_os (re_bus env)) ?cl ?e = Some (?cl\<lparr>log_file := f, log_current_size := n,
      log_entries := log_entries ?cl @ [new_node ?e (log_current_size ?cl)]\<rparr>, PREZ_OK)"
  proof -
    have "le_index ?e = logCurrentIndex ?cl + 1" by (simp add: entry_of_def)
    then have "logWriteEntry (be_os (re_bus env)) ?cl ?e = do { s \<leftarrow> log_persist (be_os (re_bus env)) ?cl ?e; Some (s, PREZ_OK) }"
      using logWriteEntry_next ok(1) unfolding server_ok_def by blast
    from this [unfolded log_persist_eq [OF eok] bind_simps] show thesis using that by simp
  qed
  obtain d rc where d: "dictAdd (be_can (re_bus env)) (re_junk env) ?T (cl_proc_clients ?cl) (show_int i) ca = Some (d, rc)"
    "dict_ok ?T (\<lambda>_. True) d"
    "dict_map ?T d = (if dict_map ?T (cl_proc_clients ?cl) (show_int i) = None
      then (dict_map ?T (cl_proc_clients ?cl))(show_int i \<mapsto> ca) else dict_map ?T (cl_proc_clients ?cl))"
    using dictAdd_map ok by (fastforce simp: server_ok_def waits_ok_def server_room_def)
  let ?sv = "sv\<lparr>sv_cluster := ?cl\<lparr>log_file := f, log_current_size := n,
      log_entries := log_entries ?cl @ [new_node ?e (log_current_size ?cl)], cl_proc_clients := d\<rparr>\<rparr>"
  have e: "\<lparr>le_index = i, le_term = cl_current_term ?cl, le_commandName = char_array 40 name, le_command = le_command ?e\<rparr> = ?e"
    "le_index ?e = i" by (simp_all add: entry_of_def i_def)
  have "clusterProcessCommand env sv ca = Some ?sv"
    using c(1,2) t w d(1) nodes index_key_eq [OF ll(1), of env]
    by (simp add: clusterProcessCommand_def nodes_type_eq ll(2) [folded i_def] i_def [symmetric] PREZ_COMMAND_NAMELEN_def Let_def e)
  moreover have "logged sv ?e ?sv" unfolding logged_def by blast
  moreover have "waits env ?sv j = (if j = i \<and> waits env sv i = None then Some ca else waits env sv j)" for j
    using d(3) show_int_inj [of j i] by (auto simp: waits_def)
  ultimately show ?thesis using d(2) by (auto simp: waits_ok_def)
qed

text \<open>A request that does not fit is a fault: the newline has no room, the array overflows, or its text
  has no end when the log reads it.\<close>

lemma clusterProcessCommand_faults:
  assumes ok: "server_ok env sv" and asks: "asks sv ca name ws" and fits: "\<not> fits ws"
  shows "clusterProcessCommand env sv ca = None"
proof -
  let ?cl = "sv_cluster sv" and ?e = "entry_of (sv_cluster sv) name ws"
  obtain c where c: "sv_clients sv ca = Some c" "c_cmd c = Some name" "map key_sds (c_argv c) = map Some ws"
    "no_NUL name" "length name < 40" "list_all literal ws" "length (intercalate '' '' ws) < 524287"
    using asks by (auto simp: asks_def)
  note ll = next_index_ll [OF ok]
  note t = command_text_eq [OF c(6,3,7), of "re_mem env"]
  show ?thesis
  proof (cases "spare 0 0 (pieces ws) = 0 \<or> 40 \<le> length (intercalate '' '' ws)")
    case True
    then show ?thesis using c(1,2) t by (auto simp: clusterProcessCommand_def)
  next
    case False
    then have "\<not> entry_ok ?e" using entry_of_ok [OF c(6,4,5) ll(1)] ok fits by (auto simp: fits_def server_ok_def)
    then have "\<not> terminated ?e" using ll(1) ok by (auto simp: entry_ok_def server_ok_def) (auto simp: entry_of_def)
    then have "logWriteEntry (be_os (re_bus env)) ?cl ?e = None"
      using logWriteEntry_next [of ?cl ?e] ok by (auto simp: server_ok_def log_persist_def) (auto simp: entry_of_def)
    then show ?thesis using c(1,2) t False
      by (auto simp: clusterProcessCommand_def ll(2) PREZ_COMMAND_NAMELEN_def entry_of_def Let_def)
  qed
qed

section \<open>Replaying the log\<close>

lemma srv_env_sel [simp]: "se_seed (srv_env env sv) = se_seed (re_srv env)"
  by (simp add: srv_env_def Let_def)

lemma srv_env_indep [simp]:
  "db_ok (srv_env env sv) db = db_ok (re_srv env) db" "db_map (srv_env env sv) db = db_map (re_srv env) db"
  "commands_ok (srv_env env sv) d = commands_ok (re_srv env) d"
  by (simp_all add: db_ok_def db_map_def commands_ok_def)

lemma lookup_cases:
  assumes "commands_ok (re_srv env) d" "no_NUL name"
  shows "\<exists>d'. lookupCommand (srv_env env sv) d name = Some (d',
      if map c_tolower name = ''get'' then Some (flagged (prezCommandTable ! 0))
      else if map c_tolower name = ''set'' then Some (flagged (prezCommandTable ! 1))
      else if map c_tolower name = ''config'' then Some (flagged (prezCommandTable ! 2)) else None) \<and>
    commands_ok (re_srv env) d'"
proof -
  have "find (\<lambda>c. strcaseeq name (cmd_name c)) prezCommandTable =
      (if map c_tolower name = ''get'' then Some (prezCommandTable ! 0)
       else if map c_tolower name = ''set'' then Some (prezCommandTable ! 1)
       else if map c_tolower name = ''config'' then Some (prezCommandTable ! 2) else None)"
    by (simp add: prezCommandTable_def strcaseeq_def c_tolower_def)
  with lookupCommand_ok [of "srv_env env sv" d name] assms show ?thesis by auto
qed

lemma flagged_table:
  "cmd_proc (flagged (prezCommandTable ! 0)) = P_get" "cmd_arity (flagged (prezCommandTable ! 0)) = 2"
  "cmd_proc (flagged (prezCommandTable ! 1)) = P_set" "cmd_arity (flagged (prezCommandTable ! 1)) = -3"
  "cmd_proc (flagged (prezCommandTable ! 2)) = P_config" "cmd_arity (flagged (prezCommandTable ! 2)) = -2"
  "cmd_flags (flagged (prezCommandTable ! 1)) AND PREZ_CMD_WRITE \<noteq> 0" "cmd_name (flagged (prezCommandTable ! 1)) = ''set''"
  "cmd_flags (flagged (prezCommandTable ! 0)) AND PREZ_CMD_WRITE = 0" "cmd_name (flagged (prezCommandTable ! 0)) = ''get''"
  by (simp_all add: flagged_def prezCommandTable_def PREZ_CMD_WRITE_def)

lemmas flagged_simps = flagged_table flagged_table [unfolded One_nat_def]

text \<open>The words of a line are no longer than the line.\<close>

lemma split_token_length: "split_token q cur p = Some (t, r) \<Longrightarrow> length t + length r \<le> length cur + length p"
proof (induction "length p" arbitrary: q cur p rule: less_induct)
  case less
  show ?case
  proof (cases "p = []")
    case True
    with less.prems show ?thesis by (cases q) (simp_all add: split_token.simps)
  next
    case False
    have IH: "length t + length r \<le> length cur' + length (drop k p)" if "0 < k" "split_token q' cur' (drop k p) = Some (t, r)" for k q' cur'
      using less.hyps [OF _ that(2)] that(1) False by simp
    have p: "1 \<le> length p" "char_at p 1 \<noteq> NUL \<Longrightarrow> 2 \<le> length p" "is_hex_digit (char_at p 3) \<Longrightarrow> 4 \<le> length p"
      using False by (auto simp: char_at_def is_hex_digit_def Suc_le_eq split: if_splits)
    have grow: "length t + length r \<le> length cur + length p"
      if "0 < k" "k \<le> length p" "length d \<le> 1" "split_token q' (cur @ d) (drop k p) = Some (t, r)" for k q' d
      using IH [OF that(1,4)] that by simp
    have quoted: "length t + length r \<le> length cur + length p" if "0 < k" "k \<le> length p" "split_token q' cur (drop k p) = Some (t, r)" for k q'
      using IH [OF that(1,3)] that by simp
    show ?thesis
    proof (cases q)
      case Unquoted
      show ?thesis
        using less.prems p(1) grow [of 1 "[char_at p 0]" Unquoted] quoted [of 1 Inq] quoted [of 1 Insq]
        unfolding Unquoted split_token.simps(3) [of cur p] by (simp only: split: if_split_asm) auto
    next
      case Inq
      show ?thesis
        using less.prems p grow [of 1 "[char_at p 0]" Inq] grow [of 2 "[unescape (char_at p 1)]" Inq]
          grow [of 4 "[char_of (hex_digit_to_int (char_at p 2) * 16 + hex_digit_to_int (char_at p 3))]" Inq]
        unfolding Inq split_token.simps(1) [of cur p] by (simp only: split: if_split_asm) auto
    next
      case Insq
      have "char_at p 1 = CHR 0x27 \<Longrightarrow> 2 \<le> length p" using p(2) by auto
      then show ?thesis
        using less.prems p(1) grow [of 1 "[char_at p 0]" Insq] grow [of 2 "[CHR 0x27]" Insq]
        unfolding Insq split_token.simps(2) [of cur p] by (simp only: split: if_split_asm) auto
    qed
  qed
qed

lemma splitargs_length:
  "splitargs_loop vector p = Some ws \<Longrightarrow> \<forall>w \<in> set vector. length w \<le> n \<Longrightarrow> length p \<le> n \<Longrightarrow> \<forall>w \<in> set ws. length w \<le> n"
proof (induction vector p arbitrary: ws rule: splitargs_loop.induct)
  case (1 vector p)
  let ?p = "dropWhile c_isspace p"
  show ?case
  proof (cases "?p = []")
    case True
    then show ?thesis using 1(2) [unfolded splitargs_loop.simps [of vector p]] 1(3) by (simp add: Let_def)
  next
    case False
    then obtain t r where t: "split_token Unquoted [] ?p = Some (t, r)" "splitargs_loop (vector @ [t]) r = Some ws"
      using 1(2) [unfolded splitargs_loop.simps [of vector p]]
      by (auto simp: Let_def simp del: dropWhile_eq_Nil_conv split: option.splits)
    moreover have "length t + length r \<le> n"
      using split_token_length [OF t(1)] length_dropWhile_le [of c_isspace p] 1(4) by simp
    ultimately show ?thesis using 1(1) [OF refl False t(1) refl t(2)] 1(3) by auto
  qed
qed

text \<open>What the text of an entry means for the key space, and which texts the code replays without a fault.\<close>

definition replay :: "string \<Rightarrow> (string \<Rightarrow> string option) \<Rightarrow> string \<Rightarrow> string option" where
  "replay t m =
     (case sdssplitargs (cstr t) of
        Some (w # k # v # _) \<Rightarrow> if map c_tolower w = ''set'' then m(k \<mapsto> v) else m
      | _ \<Rightarrow> m)"

definition replayable :: "string \<Rightarrow> bool" where
  "replayable t \<longleftrightarrow> NUL \<in> set t \<and> length t = 40 \<and>
     (case sdssplitargs (cstr t) of
        None \<Rightarrow> True
      | Some [] \<Rightarrow> False
      | Some (w # ws) \<Rightarrow>
          w \<noteq> [] \<and> no_NUL w \<and>
          (map c_tolower w = ''get'' \<longrightarrow> length ws \<noteq> 1) \<and> (map c_tolower w = ''config'' \<longrightarrow> ws = []) \<and>
          (map c_tolower w = ''set'' \<and> 2 \<le> length ws \<longrightarrow> [] \<notin> set ws))"

definition store :: "runenv \<Rightarrow> server \<Rightarrow> string \<Rightarrow> string option" where
  "store env sv k = map_option obj_str (db_map (re_srv env) (sv_db sv) k)"

lemma words_val_ok:
  assumes "sdssplitargs (cstr t) = Some ws" "length t = 40" "w \<in> set ws"
  shows "val_ok (createObject (PSds w))"
proof -
  have "length (cstr t) \<le> 40" using assms(2) length_takeWhile_le [of _ t] by (simp add: cstr_def)
  then have "length w \<le> 40" using splitargs_length [of "[]" "cstr t" ws 40] assms(1,3) by (auto simp: sdssplitargs_def)
  then show ?thesis by (simp add: val_ok_def obj_wf_createObject)
qed

lemma apply_set:
  assumes "db_ok (re_srv env) (sv_db sv)" "db_room (sv_db sv) 1" "val_ok (createObject (PSds v))"
  shows "\<exists>d c. run_proc (srv_env env sv') P_set (sv_db sv) None (map (\<lambda>a. createObject (PSds a)) (w # k # v # r)) =
      Some ((sv_db sv)\<lparr>db_dict := d\<rparr>, c) \<and> db_ok (re_srv env) ((sv_db sv)\<lparr>db_dict := d\<rparr>) \<and>
    store env (sv\<lparr>sv_db := (sv_db sv)\<lparr>db_dict := d\<rparr>\<rparr>) = (store env sv)(k \<mapsto> v) \<and> dictSize d \<le> dictSize (db_dict (sv_db sv)) + 1"
proof -
  have k: "key_sds (createObject (PSds k)) = Some k" by (simp add: key_sds_def createObject_def)
  obtain d c where "setCommand (srv_env env sv') (sv_db sv) None (map (\<lambda>a. createObject (PSds a)) (w # k # v # r)) =
      Some ((sv_db sv)\<lparr>db_dict := d\<rparr>, c)" "db_ok (re_srv env) ((sv_db sv)\<lparr>db_dict := d\<rparr>)"
    "db_map (re_srv env) ((sv_db sv)\<lparr>db_dict := d\<rparr>) = (db_map (re_srv env) (sv_db sv))(k \<mapsto> createObject (PSds v))"
    "dictSize d \<le> dictSize (db_dict (sv_db sv)) + 1"
    using setCommand_ok [of "srv_env env sv'" "sv_db sv" "createObject (PSds k)" k "createObject (PSds v)" None
        "createObject (PSds w)" "map (\<lambda>a. createObject (PSds a)) r"] assms k by (auto simp: client_ready_def)
  then show ?thesis by (auto simp: run_proc_def store_def fun_eq_iff obj_wf_createObject)
qed

text \<open>Only the command table and the key space may have changed, and the key space by at most \<open>n\<close> keys.\<close>

definition replayed :: "runenv \<Rightarrow> server \<Rightarrow> nat \<Rightarrow> (string \<Rightarrow> string option) \<Rightarrow> server \<Rightarrow> bool" where
  "replayed env sv n m sv' \<longleftrightarrow> (\<exists>d db. sv' = sv\<lparr>sv_commands := d, sv_db := db\<rparr> \<and> commands_ok (re_srv env) d \<and> db_ok (re_srv env) db \<and>
     db_cfg db = db_cfg (sv_db sv) \<and> dictSize (db_dict db) \<le> dictSize (db_dict (sv_db sv)) + n) \<and> store env sv' = m"

lemma replayedI:
  assumes "commands_ok (re_srv env) d" "db_ok (re_srv env) db" "db_cfg db = db_cfg (sv_db sv)"
    "dictSize (db_dict db) \<le> dictSize (db_dict (sv_db sv)) + n" "store env (sv\<lparr>sv_db := db\<rparr>) = m"
  shows "replayed env sv n m (sv\<lparr>sv_commands := d, sv_db := db\<rparr>)"
  using assms unfolding replayed_def by (auto simp: store_def fun_eq_iff)

lemma apply_text_ok:
  assumes ok: "server_ok env sv" and room: "db_room (sv_db sv) 1" and t: "replayable t"
  shows "\<exists>sv'. apply_text env sv t = Some sv' \<and> replayed env sv 1 (replay t (store env sv)) sv'"
proof (cases "sdssplitargs (cstr t)")
  case None
  have "replayed env sv 1 (store env sv) (sv\<lparr>sv_commands := sv_commands sv, sv_db := sv_db sv\<rparr>)"
    using ok by (intro replayedI) (auto simp: server_ok_def)
  then show ?thesis using None t by (simp add: apply_text_def replay_def replayable_def)
next
  case (Some ws0)
  then obtain w ws where ws: "ws0 = w # ws" "w \<noteq> []" "no_NUL w" using t by (auto simp: replayable_def split: list.splits)
  have tt: "NUL \<in> set t" "length t = 40" "map c_tolower w = ''get'' \<longrightarrow> length ws \<noteq> 1" "map c_tolower w = ''config'' \<longrightarrow> ws = []"
    "map c_tolower w = ''set'' \<and> 2 \<le> length ws \<longrightarrow> [] \<notin> set ws" using t Some ws by (auto simp: replayable_def)
  obtain d where d: "lookupCommand (srv_env env sv) (sv_commands sv) w = Some (d,
      if map c_tolower w = ''get'' then Some (flagged (prezCommandTable ! 0))
      else if map c_tolower w = ''set'' then Some (flagged (prezCommandTable ! 1))
      else if map c_tolower w = ''config'' then Some (flagged (prezCommandTable ! 2)) else None)" "commands_ok (re_srv env) d"
    using lookup_cases [OF _ ws(3)] ok unfolding server_ok_def by blast
  have skip: "replayed env sv 1 (store env sv) (sv\<lparr>sv_commands := d, sv_db := sv_db sv\<rparr>)"
    using ok d(2) by (intro replayedI) (auto simp: server_ok_def)
  show ?thesis
  proof (cases "map c_tolower w = ''set'' \<and> 2 \<le> length ws")
    case True
    then obtain k v r where r: "ws = k # v # r" by (auto simp: numeral_2_eq_2 Suc_le_length_iff)
    have v: "val_ok (createObject (PSds v))" using words_val_ok [OF Some tt(2)] ws(1) r by simp
    obtain db' c where p: "run_proc (srv_env env (sv\<lparr>sv_commands := d\<rparr>)) P_set (sv_db sv) None (map (\<lambda>a. createObject (PSds a)) ws0) =
        Some ((sv_db sv)\<lparr>db_dict := db'\<rparr>, c)" "db_ok (re_srv env) ((sv_db sv)\<lparr>db_dict := db'\<rparr>)"
      "store env (sv\<lparr>sv_db := (sv_db sv)\<lparr>db_dict := db'\<rparr>\<rparr>) = (store env sv)(k \<mapsto> v)" "dictSize db' \<le> dictSize (db_dict (sv_db sv)) + 1"
      using apply_set [of env sv v "sv\<lparr>sv_commands := d\<rparr>" w k r] ok room v unfolding server_ok_def ws(1) r by blast
    have "apply_text env sv t = Some (sv\<lparr>sv_commands := d, sv_db := (sv_db sv)\<lparr>db_dict := db'\<rparr>\<rparr>)"
      using tt(1,5) Some True d(1) p(1) ws r by (simp add: apply_text_def arity_wrong_def flagged_simps Let_def del: list.map)
    moreover have "replayed env sv 1 ((store env sv)(k \<mapsto> v)) (sv\<lparr>sv_commands := d, sv_db := (sv_db sv)\<lparr>db_dict := db'\<rparr>\<rparr>)"
      using d(2) p(2-4) by (intro replayedI) auto
    ultimately show ?thesis using Some True ws(1) r by (simp add: replay_def)
  next
    case False
    have "replay t (store env sv) = store env sv" using False Some ws(1) by (auto simp: replay_def split: list.splits)
    moreover have "apply_text env sv t = Some (sv\<lparr>sv_commands := d, sv_db := sv_db sv\<rparr>)"
      using tt False Some d(1) ws by (auto simp: apply_text_def arity_wrong_def flagged_simps Let_def)
    ultimately show ?thesis using skip by simp
  qed
qed

lemma replayed_frame:
  assumes "replayed env sv n m sv'"
  shows "sv_cluster sv' = sv_cluster sv" "sv_clients sv' = sv_clients sv" "store env sv' = m"
    "dictSize (db_dict (sv_db sv')) \<le> dictSize (db_dict (sv_db sv)) + n"
    "server_ok env sv \<Longrightarrow> server_ok env sv'"
  using assms by (auto simp: replayed_def server_ok_def waits_ok_def)

definition applied_one :: "server \<Rightarrow> server" where
  "applied_one sv = sv\<lparr>sv_cluster := (sv_cluster sv)\<lparr>last_applied := last_applied (sv_cluster sv) + 1\<rparr>\<rparr>"

lemma applied_one_sel [simp]:
  "log_entries (sv_cluster (applied_one sv)) = log_entries (sv_cluster sv)"
  "commit_index (sv_cluster (applied_one sv)) = commit_index (sv_cluster sv)"
  "last_applied (sv_cluster (applied_one sv)) = last_applied (sv_cluster sv) + 1"
  "cl_state (sv_cluster (applied_one sv)) = cl_state (sv_cluster sv)"
  "sv_db (applied_one sv) = sv_db sv" "sv_clients (applied_one sv) = sv_clients sv" "store env (applied_one sv) = store env sv"
  "server_ok env (applied_one sv) = server_ok env sv" "waits env (applied_one sv) = waits env sv"
  by (auto simp: applied_one_def store_def server_ok_def waits_ok_def waits_def log_wf_def log_small_def logLength_def fun_eq_iff)

lemma apply_committed_step:
  "apply_committed env sv =
     (if commit_index (sv_cluster sv) > last_applied (sv_cluster sv)
      then do { sv' \<leftarrow> logApply env (applied_one sv) (last_applied (sv_cluster sv) + 1); apply_committed env sv' } else Some sv)"
  by (subst apply_committed.simps) (simp add: applied_one_def Let_def)

definition pending :: "server \<Rightarrow> logEntry list" where
  "pending sv = map log_entry (take (nat (commit_index (sv_cluster sv) - last_applied (sv_cluster sv)))
     (drop (nat (last_applied (sv_cluster sv))) (log_entries (sv_cluster sv))))"

definition index_ok :: "server \<Rightarrow> bool" where
  "index_ok sv \<longleftrightarrow> 0 \<le> last_applied (sv_cluster sv) \<and> last_applied (sv_cluster sv) \<le> commit_index (sv_cluster sv) \<and>
     commit_index (sv_cluster sv) \<le> int (logLength (sv_cluster sv))"

lemma pending_Cons:
  assumes "index_ok sv" "last_applied (sv_cluster sv) < commit_index (sv_cluster sv)"
  shows "pending sv = log_entry (log_entries (sv_cluster sv) ! nat (last_applied (sv_cluster sv))) # pending (applied_one sv)"
proof -
  let ?a = "nat (last_applied (sv_cluster sv))"
  have a: "?a < length (log_entries (sv_cluster sv))" "nat (last_applied (sv_cluster sv) + 1) = Suc ?a"
    using assms by (auto simp: index_ok_def logLength_def)
  have "nat (commit_index (sv_cluster sv) - last_applied (sv_cluster sv)) =
      Suc (nat (commit_index (sv_cluster sv) - (last_applied (sv_cluster sv) + 1)))" using assms(2) by simp
  then show ?thesis using a by (simp add: pending_def Cons_nth_drop_Suc [symmetric])
qed

lemma follower_step:
  assumes "server_ok env sv" "cl_state (sv_cluster sv) \<noteq> PREZ_LEADER" "index_ok sv" "pending sv = e # es" "replayable (le_command e)"
    "db_room (sv_db sv) 1"
  shows "\<exists>sv'. logApply env (applied_one sv) (last_applied (sv_cluster sv) + 1) = Some sv' \<and>
    replayed env (applied_one sv) 1 (replay (le_command e) (store env sv)) sv' \<and> pending sv' = es \<and>
    last_applied (sv_cluster sv) < commit_index (sv_cluster sv)"
proof -
  have lt: "last_applied (sv_cluster sv) < commit_index (sv_cluster sv)"
    using assms(4) by (rule_tac ccontr) (simp add: pending_def)
  have e: "e = log_entry (log_entries (sv_cluster sv) ! nat (last_applied (sv_cluster sv)))" "pending (applied_one sv) = es"
    using pending_Cons [OF assms(3) lt] assms(4) by auto
  have "getLogEntry (sv_cluster (applied_one sv)) (last_applied (sv_cluster sv) + 1) =
      Some (log_entries (sv_cluster sv) ! nat (last_applied (sv_cluster sv)))"
    using getLogEntry_in [of "sv_cluster (applied_one sv)" "last_applied (sv_cluster sv) + 1"] assms(1,3) lt
    by (auto simp: server_ok_def index_ok_def log_small_def logLength_def)
  then have "logApply env (applied_one sv) (last_applied (sv_cluster sv) + 1) = apply_text env (applied_one sv) (le_command e)"
    using assms(2) e(1) by (simp add: logApply_def)
  moreover obtain sv' where "apply_text env (applied_one sv) (le_command e) = Some sv'"
    "replayed env (applied_one sv) 1 (replay (le_command e) (store env sv)) sv'"
    using apply_text_ok [of env "applied_one sv" "le_command e"] assms(1,5,6) by auto
  ultimately show ?thesis using e(2) lt replayed_frame(1) [of env "applied_one sv" 1 _ sv'] by (auto simp: pending_def)
qed

lemma apply_committed_follower:
  assumes "server_ok env sv" "cl_state (sv_cluster sv) \<noteq> PREZ_LEADER" "index_ok sv"
    "\<forall>e \<in> set (pending sv). replayable (le_command e)" "db_room (sv_db sv) (length (pending sv))"
  shows "\<exists>sv'. apply_committed env sv = Some sv' \<and> server_ok env sv' \<and>
    sv_cluster sv' = (sv_cluster sv)\<lparr>last_applied := commit_index (sv_cluster sv)\<rparr> \<and> sv_clients sv' = sv_clients sv \<and>
    store env sv' = fold (\<lambda>e. replay (le_command e)) (pending sv) (store env sv)"
  using assms
proof (induction "pending sv" arbitrary: sv)
  case Nil
  have "last_applied (sv_cluster sv) = commit_index (sv_cluster sv)"
    using Nil(1) Nil.prems(3) by (auto simp: pending_def index_ok_def logLength_def)
  then have "(sv_cluster sv)\<lparr>last_applied := commit_index (sv_cluster sv)\<rparr> = sv_cluster sv" "apply_committed env sv = Some sv"
    by (simp_all add: apply_committed_step)
  with Nil show ?case by simp
next
  case (Cons e es)
  have re: "replayable (le_command e)" and ro: "db_room (sv_db sv) 1" "dictSize (db_dict (sv_db sv)) + Suc (length es) \<le> 268435456"
    using Cons.prems(4,5) Cons(2) [symmetric] by (auto simp: db_room_def)
  obtain sv1 where s1: "logApply env (applied_one sv) (last_applied (sv_cluster sv) + 1) = Some sv1"
    "replayed env (applied_one sv) 1 (replay (le_command e) (store env sv)) sv1" "pending sv1 = es"
    "last_applied (sv_cluster sv) < commit_index (sv_cluster sv)"
    using follower_step [OF Cons.prems(1-3) Cons(2) [symmetric] re ro(1)] by blast
  note f = replayed_frame [OF s1(2)]
  have p: "server_ok env sv1" "cl_state (sv_cluster sv1) \<noteq> PREZ_LEADER" "index_ok sv1" "db_room (sv_db sv1) (length (pending sv1))"
    "\<forall>e \<in> set (pending sv1). replayable (le_command e)"
    using f Cons.prems s1(3,4) ro(2) Cons(2) [symmetric] by (auto simp: index_ok_def logLength_def db_room_def)
  obtain sv' where "apply_committed env sv1 = Some sv'" "server_ok env sv'"
    "sv_cluster sv' = (sv_cluster sv1)\<lparr>last_applied := commit_index (sv_cluster sv1)\<rparr>" "sv_clients sv' = sv_clients sv1"
    "store env sv' = fold (\<lambda>e. replay (le_command e)) es (store env sv1)"
    using Cons(1) [OF s1(3) [symmetric] p(1-3,5,4)] s1(3) by blast
  moreover have "apply_committed env sv = apply_committed env sv1" using s1(1,4) by (simp add: apply_committed_step [of env sv])
  ultimately show ?case using f(1-3) Cons(2) [symmetric] by (simp add: applied_one_def)
qed

section \<open>The leader answers\<close>

lemma run_call_set:
  assumes "db_ok (re_srv env) (sv_db sv)" "db_room (sv_db sv) 1" "sv_clients sv ca = Some c" "c_cmd c = Some ''set''"
    "c_argv c = [a, key, val]" "key_sds key = Some k" "val_ok val" "ready (se_net (srv_env env sv)) c"
  shows "\<exists>sv' c'. run_call env sv ca = Some sv' \<and> sv_clients sv' = (sv_clients sv)(ca \<mapsto> c') \<and>
    client_out c' = client_out c @ ''+OK'' @ CRLF \<and> db_ok (re_srv env) (sv_db sv') \<and>
    store env sv' = (store env sv)(k \<mapsto> obj_str val) \<and> cl_proc_clients (sv_cluster sv') = cl_proc_clients (sv_cluster sv)"
proof -
  obtain d c' where r: "call (srv_env env sv) (sv_db sv) c = Some ((sv_db sv)\<lparr>db_dict := d\<rparr>, c')"
    "db_ok (re_srv env) ((sv_db sv)\<lparr>db_dict := d\<rparr>)"
    "db_map (re_srv env) ((sv_db sv)\<lparr>db_dict := d\<rparr>) = (db_map (re_srv env) (sv_db sv))(k \<mapsto> val)"
    "client_out c' = client_out c @ ''+OK'' @ CRLF"
    using call_set_ok [of "srv_env env sv" "sv_db sv" c a key val k] assms by auto
  then have "run_call env sv ca = Some (sync_periods (put_client (sv\<lparr>sv_db := (sv_db sv)\<lparr>db_dict := d\<rparr>\<rparr>) ca c'))"
    using assms(3) by (simp add: run_call_def)
  then show ?thesis using r(2-4) by (auto simp: sync_periods_def put_client_def store_def Let_def fun_eq_iff)
qed

lemma leader_applies:
  assumes ok: "server_ok env sv" and lead: "cl_state (sv_cluster sv) = PREZ_LEADER"
    and i: "1 \<le> i" "i \<le> int (logLength (sv_cluster sv))" and w: "waits env sv i = Some ca"
    and c: "db_room (sv_db sv) 1" "sv_clients sv ca = Some c" "c_cmd c = Some ''set''" "c_argv c = [a, key, val]" "key_sds key = Some k"
      "val_ok val" "ready (se_net (srv_env env sv)) c"
  shows "\<exists>sv' c'. logApply env sv i = Some sv' \<and> sv_clients sv' ca = Some c' \<and> client_out c' = client_out c @ ''+OK'' @ CRLF \<and>
    store env sv' = (store env sv)(k \<mapsto> obj_str val) \<and> waits env sv' i = None"
proof -
  let ?T = "dbDictType (be_seed (re_bus env)) :: (string, nat) dictType"
  have ll: "is_ll i" using ok i by (auto simp: server_ok_def log_small_def is_ll_def)
  have en: "getLogEntry (sv_cluster sv) i = Some (log_entries (sv_cluster sv) ! nat (i - 1))"
    using getLogEntry_in [of "sv_cluster sv" i] ok i by (auto simp: server_ok_def)
  obtain d where d: "dictFetchValue ?T (cl_proc_clients (sv_cluster sv)) (show_int i) = Some (d, Some ca)" "dict_ok ?T (\<lambda>_. True) d"
    using dbt.dictFetchValue_ok [of "be_seed (re_bus env)" "cl_proc_clients (sv_cluster sv)" "show_int i"] ok w
    by (auto simp: server_ok_def waits_ok_def waits_def)
  define sv1 where "sv1 = sv\<lparr>sv_cluster := (sv_cluster sv)\<lparr>cl_proc_clients := d\<rparr>\<rparr>"
  have e1: "srv_env env sv1 = srv_env env sv" "sv_db sv1 = sv_db sv" "sv_clients sv1 = sv_clients sv" "store env sv1 = store env sv"
    by (simp_all add: sv1_def srv_env_def store_def fun_eq_iff)
  obtain sv2 c' where s2: "run_call env sv1 ca = Some sv2" "sv_clients sv2 = (sv_clients sv1)(ca \<mapsto> c')"
    "client_out c' = client_out c @ ''+OK'' @ CRLF" "store env sv2 = (store env sv1)(k \<mapsto> obj_str val)"
    "cl_proc_clients (sv_cluster sv2) = d"
    using run_call_set [of env sv1 ca c a key val k] ok c e1 by (auto simp: server_ok_def sv1_def)
  obtain d' rc where d': "dictDelete ?T d (show_int i) = Some (d', rc)" "dict_map ?T d' (show_int i) = None"
    using dbt.dictDelete_ok [OF d(2), of "show_int i"] by (auto simp: db_type_fields)
  have "logApply env sv i = Some (sv2\<lparr>sv_cluster := (sv_cluster sv2)\<lparr>cl_proc_clients := d'\<rparr>\<rparr>)"
    using en lead d(1) s2(1,5) d'(1) index_key_eq [OF ll, of env]
    by (simp add: logApply_def nodes_type_eq Let_def sv1_def [symmetric])
  then show ?thesis using s2 d'(2) e1 by (auto simp: waits_def store_def fun_eq_iff)
qed

section \<open>A write request by role\<close>

definition write_client :: "server \<Rightarrow> nat \<Rightarrow> (string, prezCommand) dict \<Rightarrow> client \<Rightarrow> server" where
  "write_client sv ca d c = put_client (sv\<lparr>sv_commands := d\<rparr>) ca (c\<lparr>c_cmd := Some ''set''\<rparr>)"

lemma processCommand_write:
  assumes ok: "server_ok env sv" and c: "sv_clients sv ca = Some c" "c_argv c = a # as" "key_sds a = Some w" "2 \<le> length as"
    and w: "map c_tolower w = ''set''" "no_NUL w"
  shows "\<exists>d. commands_ok (re_srv env) d \<and> processCommand env sv ca =
    (let c' = c\<lparr>c_cmd := Some ''set''\<rparr>; net = se_net (srv_env env sv) in
     case cl_state (sv_cluster sv) of
       PREZ_CANDIDATE \<Rightarrow> Some (put_client (sv\<lparr>sv_commands := d\<rparr>) ca
         (addReplySds net c' (''-CLUSTERDOWN Leader not elected.Command not accepted'' @ CRLF)), PREZ_OK)
     | PREZ_FOLLOWER \<Rightarrow> Some (put_client (sv\<lparr>sv_commands := d\<rparr>) ca
         (addReplySds net c' (''-ASK '' @ cstr (name_bytes (cl_leader (sv_cluster sv))) @ CRLF)), PREZ_OK)
     | PREZ_LEADER \<Rightarrow> do { sv \<leftarrow> clusterProcessCommand env (write_client sv ca d c) ca; Some (sv, PREZ_ERR) })"
proof -
  obtain d where d: "lookupCommand (srv_env env sv) (sv_commands sv) w = Some (d, Some (flagged (prezCommandTable ! 1)))"
    "commands_ok (re_srv env) d"
    using lookup_cases [OF _ w(2), of env "sv_commands sv" sv] ok w(1) by (auto simp: server_ok_def)
  have "\<not> arity_wrong (flagged (prezCommandTable ! 1)) (length (a # as))" using c(4) by (simp add: arity_wrong_def flagged_simps)
  then show ?thesis using c d
    by (intro exI [of _ d]) (simp add: processCommand_def Let_def flagged_simps write_client_def split: role.split)
qed

section \<open>From the socket to the log\<close>

definition connected :: "runenv \<Rightarrow> server \<Rightarrow> nat \<Rightarrow> client \<Rightarrow> bool" where
  "connected env sv ca c \<longleftrightarrow> sv_clients sv ca = Some c \<and> idle c \<and> c_reqtype c = REQ_UNKNOWN \<and> \<not> c_blocked c \<and>
     ready (se_net (srv_env env sv)) c"

text \<open>The client when its write request was parsed and handed to the cluster.\<close>

definition waiting_client :: "client \<Rightarrow> robj list \<Rightarrow> string \<Rightarrow> client" where
  "waiting_client c obs rest = c\<lparr>c_reqtype := REQ_MULTIBULK, c_argv := obs, c_querybuf := rest, c_cmd := Some ''set''\<rparr>"

abbreviation with_client :: "server \<Rightarrow> nat \<Rightarrow> client \<Rightarrow> server" where
  "with_client sv ca c \<equiv> sv\<lparr>sv_clients := (sv_clients sv)(ca \<mapsto> c)\<rparr>"

lemma put_client_same:
  "sv_clients sv ca = Some c0 \<Longrightarrow> c_close_asap c = c_close_asap c0 \<Longrightarrow> put_client sv ca c = with_client sv ca c"
  by (simp add: put_client_def Let_def)

lemma clusterProcessCommand_frame:
  assumes "clusterProcessCommand env sv ca = Some sv'"
  shows "sv_clients sv' = sv_clients sv" "sv_db sv' = sv_db sv" "sv_commands sv' = sv_commands sv"
  using assms by (auto simp: clusterProcessCommand_def Let_def split: bind_splits if_splits)

lemma args_are_keys: "args_are obs ws \<Longrightarrow> map key_sds obs = map Some ws"
  by (induction obs arbitrary: ws) (auto simp: args_are_def key_sds_def obj_str_def)

lemma parse_request:
  assumes "idle c" "resp_ok ws"
  shows "\<exists>obs. processMultibulkBuffer net (c\<lparr>c_reqtype := REQ_MULTIBULK, c_querybuf := resp_cmd ws @ rest\<rparr>) =
    Some (c\<lparr>c_reqtype := REQ_MULTIBULK, c_argv := obs, c_querybuf := rest\<rparr>, PREZ_OK) \<and> args_are obs ws"
proof -
  let ?c = "c\<lparr>c_reqtype := REQ_MULTIBULK\<rparr>"
  have "idle ?c" "awaiting ?c ?c ws (resp_cmd ws)" "c_querybuf ?c = []" using assms(1) by (simp_all add: idle_def awaiting_def)
  from awaiting_full [OF this(1) assms(2) this(2), of net rest] this(3) show ?thesis by simp
qed

lemma round_write:
  assumes ok: "server_ok env sv" and lead: "cl_state (sv_cluster sv) = PREZ_LEADER" and c: "connected env sv ca c"
    and ws: "resp_ok ws" "3 \<le> length ws" "map c_tolower (hd ws) = ''set''" "no_NUL (hd ws)"
  shows "\<exists>d obs. commands_ok (re_srv env) d \<and> args_are obs ws \<and>
    input_round env (with_client sv ca (c\<lparr>c_querybuf := resp_cmd ws @ rest\<rparr>)) ca =
      do { sv' \<leftarrow> clusterProcessCommand env (with_client (sv\<lparr>sv_commands := d\<rparr>) ca (waiting_client c obs rest)) ca; Some (Inr sv') }"
proof -
  let ?q = "resp_cmd ws @ rest" and ?sv = "with_client sv ca (c\<lparr>c_querybuf := resp_cmd ws @ rest\<rparr>)"
  have q: "?q \<noteq> []" "hd ?q = CHR ''*''" by (simp_all add: resp_cmd_def)
  have sw: "c\<lparr>c_querybuf := ?q, c_reqtype := REQ_MULTIBULK\<rparr> = c\<lparr>c_reqtype := REQ_MULTIBULK, c_querybuf := ?q\<rparr>" by simp
  have c': "sv_clients sv ca = Some c" "idle c" "c_reqtype c = REQ_UNKNOWN" "\<not> c_blocked c" "\<not> c_close_after_reply c"
    using c by (auto simp: connected_def ready_def accepting_def)
  obtain obs where p: "processMultibulkBuffer (se_net (srv_env env ?sv)) (c\<lparr>c_reqtype := REQ_MULTIBULK, c_querybuf := ?q\<rparr>) =
      Some (c\<lparr>c_reqtype := REQ_MULTIBULK, c_argv := obs, c_querybuf := rest\<rparr>, PREZ_OK)" "args_are obs ws"
    using parse_request [OF c'(2) ws(1)] by blast
  let ?c1 = "c\<lparr>c_reqtype := REQ_MULTIBULK, c_argv := obs, c_querybuf := rest\<rparr>" and ?sv1 = "with_client sv ca
      (c\<lparr>c_reqtype := REQ_MULTIBULK, c_argv := obs, c_querybuf := rest\<rparr>)"
  obtain a as where a: "obs = a # as" "key_sds a = Some (hd ws)" "2 \<le> length as"
    using args_are_keys [OF p(2)] ws(2) by (cases obs; cases ws) (auto dest: map_eq_imp_length_eq)
  have ok1: "server_ok env ?sv1" using ok by (simp add: server_ok_def waits_ok_def)
  obtain d where d: "commands_ok (re_srv env) d"
    "processCommand env ?sv1 ca = do { sv \<leftarrow> clusterProcessCommand env (write_client ?sv1 ca d ?c1) ca; Some (sv, PREZ_ERR) }"
    using processCommand_write [OF ok1, of ca ?c1 a as "hd ws"] a ws(3,4) lead by auto
  have "write_client ?sv1 ca d ?c1 = with_client (sv\<lparr>sv_commands := d\<rparr>) ca (waiting_client c obs rest)"
    unfolding write_client_def by (subst put_client_same [where ?c0.0 = ?c1]) (simp_all add: waiting_client_def)
  moreover have "put_client ?sv ca ?c1 = ?sv1" by (subst put_client_same [where ?c0.0 = "c\<lparr>c_querybuf := ?q\<rparr>"]) simp_all
  moreover have "put_client ?sv ca ?c1 = ?sv1 \<Longrightarrow> input_round env ?sv ca =
      do { (sv, rc) \<leftarrow> processCommand env ?sv1 ca; c \<leftarrow> sv_clients sv ca;
           Some (Inr (if rc = PREZ_OK then put_client sv ca (resetClient c) else sv)) }"
    using p(1) c'(3-5) q a(1) by (simp add: input_round_def Let_def sw del: append_is_Nil_conv)
  ultimately show ?thesis using d p(2)
    by (intro exI [of _ d] exI [of _ obs]) (auto simp: bind_eq_None_conv dest: clusterProcessCommand_frame
        split: bind_splits)
qed

lemma length_resp_cmd:
  assumes "length ws \<le> 100" "\<forall>w \<in> set ws. length w \<le> 100"
  shows "length (resp_cmd ws) \<le> 16384"
proof -
  have n: "length (show_int (int k)) \<le> 20" if "k \<le> 100" for k
    using length_show_int_ll20 [of "int k"] that by (simp add: is_ll_def)
  have "length (concat (map bulk_str ws)) \<le> 130 * length ws" using assms(2)
  proof (induction ws)
    case (Cons w ws)
    then show ?case using n [of "length w"] by (simp add: bulk_str_def)
  qed simp
  then show ?thesis using n [OF assms(1)] assms(1) by (simp add: resp_cmd_def)
qed

lemma read_request:
  assumes "connected env sv ca c" "length s \<le> 16384" "s \<noteq> []"
  shows "readQueryFromClient env sv ca (Read_Bytes s) = processInputBuffer env (with_client sv ca (c\<lparr>c_querybuf := s\<rparr>)) ca"
proof -
  have "readlen c = 16384" "c_querybuf c = []" "sv_clients sv ca = Some c"
    using assms(1) by (simp_all add: connected_def idle_def readlen_def)
  with assms(2,3) show ?thesis
    by (simp add: readQueryFromClient_def Let_def put_client_same [where ?c0.0 = c])
qed

text \<open>The entry that a leader logged is in order for the next step.\<close>

lemma logged_ok:
  assumes "server_ok env sv" "logged sv (entry_of (sv_cluster sv) name ws) sv'" "waits_ok env sv'" "server_room sv 1"
  shows "server_ok env sv'" "int (logLength (sv_cluster sv')) = int (logLength (sv_cluster sv)) + 1"
    "cl_state (sv_cluster sv') = cl_state (sv_cluster sv)" "store env sv' = store env sv" "sv_db sv' = sv_db sv"
    "srv_env env sv' = srv_env env sv" "sv_clients sv' = sv_clients sv"
  using assms
  by (auto simp: logged_def server_ok_def server_room_def log_wf_def log_small_def logLength_def store_def srv_env_def fun_eq_iff
      nth_append entry_of_def new_node_def logCurrentIndex_wf [unfolded log_wf_def logLength_def] less_Suc_eq)

lemma fits_words:
  assumes "fits [w, k, v]"
  shows "length w < 39" "length k < 39" "length v < 39"
  using assms by (simp_all add: fits_def)

lemma request_logged:
  assumes ok: "server_ok env sv" "server_room sv 1" and lead: "cl_state (sv_cluster sv) = PREZ_LEADER"
    and nodes: "dictSize (cl_nodes (sv_cluster sv)) \<noteq> 1" and c: "connected env sv ca c"
    and ws: "list_all literal [w, k, v]" "map c_tolower w = ''set''" "fits [w, k, v]"
    and free: "waits env sv (logCurrentIndex (sv_cluster sv) + 1) = None"
  shows "\<exists>d obs sv'. readQueryFromClient env sv ca (Read_Bytes (resp_cmd [w, k, v])) = Some (Some sv') \<and>
    logged (with_client (sv\<lparr>sv_commands := d\<rparr>) ca (waiting_client c obs [])) (entry_of (sv_cluster sv) ''set'' [w, k, v]) sv' \<and>
    args_are obs [w, k, v] \<and> waits_ok env sv' \<and> commands_ok (re_srv env) d \<and>
    waits env sv' (logCurrentIndex (sv_cluster sv) + 1) = Some ca"
proof -
  note len = fits_words [OF ws(3)]
  let ?ws = "[w, k, v]" and ?i = "logCurrentIndex (sv_cluster sv) + 1"
  have r: "resp_ok ?ws" "no_NUL w" "length (resp_cmd ?ws) \<le> 16384" "resp_cmd ?ws \<noteq> []"
    using len ws(1) length_resp_cmd [of ?ws] by (auto simp: resp_ok_def no_NUL_def literal_def resp_cmd_def)
  obtain d obs where o: "commands_ok (re_srv env) d" "args_are obs ?ws"
    "input_round env (with_client sv ca (c\<lparr>c_querybuf := resp_cmd ?ws\<rparr>)) ca =
      do { sv' \<leftarrow> clusterProcessCommand env (with_client (sv\<lparr>sv_commands := d\<rparr>) ca (waiting_client c obs [])) ca; Some (Inr sv') }"
    using round_write [OF ok(1) lead c r(1), of "[]"] ws(2) r(2) by auto
  let ?sv = "with_client (sv\<lparr>sv_commands := d\<rparr>) ca (waiting_client c obs [])"
  have s: "server_ok env ?sv" "server_room ?sv 0" "waits env ?sv = waits env sv"
    using ok o(1) by (auto simp: server_ok_def waits_ok_def server_room_def db_room_def waits_def fun_eq_iff)
  have a: "asks ?sv ca ''set'' ?ws" using args_are_keys [OF o(2)] ws(1) len by (auto simp: asks_def waiting_client_def no_NUL_def)
  have nd: "dictSize (cl_nodes (sv_cluster ?sv)) \<noteq> 1" using nodes by simp
  obtain sv' where p: "clusterProcessCommand env ?sv ca = Some sv'" "logged ?sv (entry_of (sv_cluster ?sv) ''set'' ?ws) sv'"
    "waits_ok env sv'" "\<forall>j. is_ll j \<longrightarrow> waits env sv' j = (if j = ?i \<and> waits env ?sv ?i = None then Some ca else waits env ?sv j)"
    using clusterProcessCommand_logs [OF s(1,2) a ws(3) nd] by auto
  have "input_round env sv' ca = Some (Inl sv')"
    using clusterProcessCommand_frame(1) [OF p(1)] by (simp add: input_round_def waiting_client_def)
  then have "processInputBuffer env sv' ca = Some (Some sv')" by (subst processInputBuffer.simps) simp
  then have "readQueryFromClient env sv ca (Read_Bytes (resp_cmd ?ws)) = Some (Some sv')"
    unfolding read_request [OF c r(3,4)] using o(3) p(1) by (subst processInputBuffer.simps) simp
  moreover have "waits env sv' ?i = Some ca" using p(4) next_index_ll(1) [OF ok(1)] free s(3) by auto
  ultimately show ?thesis using p(2,3) o(1,2) by (intro exI conjI) auto
qed

lemma entry_replays:
  fixes cl
  assumes "list_all plain_word [w, k, v]" "list_all literal [w, k, v]" "map c_tolower w = ''set''" "fits [w, k, v]"
  defines "t \<equiv> le_command (copy_entry (entry_of cl ''set'' [w, k, v]))"
  shows "replayable t" "replay t m = m(k \<mapsto> v)"
proof -
  note c = entry_of_text [OF assms(2), of cl "''set''"]
  have t: "t = char_array 40 (intercalate '' '' [w, k, v] @ [LF])" "cstr t = intercalate '' '' [w, k, v] @ [LF]"
    using c unfolding t_def copy_entry_sel by (simp_all add: copy_entry_def PREZ_COMMAND_LEN_def)
  have "sdssplitargs (cstr t) = Some [w, k, v]" unfolding t(2) by (rule sdssplitargs_plain_line [OF assms(1)])
  moreover have "NUL \<in> set t" "length t = 40" using assms(4) by (auto simp: t(1) char_array_def fits_def)
  ultimately show "replayable t" "replay t m = m(k \<mapsto> v)"
    using assms(1-3) by (auto simp: replayable_def replay_def plain_word_def literal_def no_NUL_def)
qed

section \<open>Properties\<close>


text \<open>
  C6: a server that is not the leader replays its log.  The loop of the cron job over the committed
  entries always ends; if the texts of those entries can be replayed, it ends without a fault, with
  every committed entry applied once and in order, each SET as an update of the map from keys to
  values and every other text without effect; no client is touched.
\<close>

theorem follower_replays_log:
  assumes "server_ok env sv" "cl_state (sv_cluster sv) \<noteq> PREZ_LEADER" "index_ok sv"
    "\<forall>e \<in> set (pending sv). replayable (le_command e)" "db_room (sv_db sv) (length (pending sv))"
  shows "\<exists>sv'. apply_committed env sv = Some sv' \<and> server_ok env sv' \<and>
    sv_cluster sv' = (sv_cluster sv)\<lparr>last_applied := commit_index (sv_cluster sv)\<rparr> \<and> sv_clients sv' = sv_clients sv \<and>
    store env sv' = fold (\<lambda>e. replay (le_command e)) (pending sv) (store env sv)"
  using apply_committed_follower [OF assms] .

text \<open>
  C28: which writes a leader can log.  For a request without percent signs and zero bytes, handing it
  to the cluster faults exactly when its words, joined by blanks, have 39 bytes or more, so that the
  text overruns its array or has no end there, or when the joined text happens to fill the string it
  is built in, so that the newline moves the string and the old one is read after it was freed.
\<close>

theorem write_faults_exactly:
  assumes "server_ok env sv" "server_room sv 0" "asks sv ca name ws" "dictSize (cl_nodes (sv_cluster sv)) \<noteq> 1"
  shows "clusterProcessCommand env sv ca = None \<longleftrightarrow>
    39 \<le> length (intercalate '' '' ws) \<or> spare 0 0 (pieces ws) = 0"
  using clusterProcessCommand_logs [OF assms(1-3) _ assms(4)] clusterProcessCommand_faults [OF assms(1,3)]
  by (cases "fits ws") (auto simp: fits_def)

text \<open>
  C27: a server that is not the leader refuses a write.  A candidate answers that there is no leader
  and a follower names the leader it knows; the request is finished, and neither the cluster state,
  the log included, nor the key space changes, nor any other client.
\<close>

theorem write_refused:
  assumes "server_ok env sv" "cl_state (sv_cluster sv) \<noteq> PREZ_LEADER" "sv_clients sv ca = Some c" "ready (se_net (srv_env env sv)) c"
    "c_argv c = a # as" "2 \<le> length as" "key_sds a = Some w" "map c_tolower w = ''set''" "no_NUL w"
  shows "\<exists>sv' c'. processCommand env sv ca = Some (sv', PREZ_OK) \<and> sv_cluster sv' = sv_cluster sv \<and> sv_db sv' = sv_db sv \<and>
    sv_clients sv' = (sv_clients sv)(ca \<mapsto> c') \<and> client_out c' = client_out c @
      (if cl_state (sv_cluster sv) = PREZ_CANDIDATE then ''-CLUSTERDOWN Leader not elected.Command not accepted''
       else ''-ASK '' @ cstr (name_bytes (cl_leader (sv_cluster sv)))) @ CRLF"
proof -
  let ?net = "se_net (srv_env env sv)" and ?c = "c\<lparr>c_cmd := Some ''set''\<rparr>"
  have r: "ready ?net ?c" "client_out ?c = client_out c"
    using assms(4) by (simp_all add: ready_def out_ok_def accepting_def client_out_def)
  have out: "client_out (addReplySds ?net ?c t) = client_out c @ t" for t
    using queued_fields(8) [OF addReplySds_queued [OF r(1)]] r(2) by simp
  let ?t = "(if cl_state (sv_cluster sv) = PREZ_CANDIDATE then ''-CLUSTERDOWN Leader not elected.Command not accepted''
       else ''-ASK '' @ cstr (name_bytes (cl_leader (sv_cluster sv)))) @ CRLF"
  obtain d where "processCommand env sv ca = Some (put_client (sv\<lparr>sv_commands := d\<rparr>) ca (addReplySds ?net ?c ?t), PREZ_OK)"
    using processCommand_write [OF assms(1,3,5,7,6,8,9)] assms(2) by (cases "cl_state (sv_cluster sv)") (auto simp: Let_def)
  then show ?thesis using out [of ?t]
    by (intro exI [of _ "put_client (sv\<lparr>sv_commands := d\<rparr>) ca (addReplySds ?net ?c ?t)"] exI [of _ "addReplySds ?net ?c ?t"] conjI)
      (simp_all only: put_client_sel, simp_all)
qed

text \<open>
  C29: a client that sends anything behind a write brings the leader down.  The request stays with the
  client until it is committed, and the parser asserts that there is none when it sees the next byte;
  so whatever follows a SET in what one read returns, the server ends in a fault.
\<close>

theorem pipelined_write_aborts:
  assumes "server_ok env sv" "cl_state (sv_cluster sv) = PREZ_LEADER" "connected env sv ca c" "resp_ok ws" "3 \<le> length ws"
    "map c_tolower (hd ws) = ''set''" "no_NUL (hd ws)" "rest \<noteq> []" "length (resp_cmd ws @ rest) \<le> 16384"
  shows "readQueryFromClient env sv ca (Read_Bytes (resp_cmd ws @ rest)) = Some None"
proof -
  obtain d obs where o: "args_are obs ws" "input_round env (with_client sv ca (c\<lparr>c_querybuf := resp_cmd ws @ rest\<rparr>)) ca =
      do { sv' \<leftarrow> clusterProcessCommand env (with_client (sv\<lparr>sv_commands := d\<rparr>) ca (waiting_client c obs rest)) ca; Some (Inr sv') }"
    using round_write [OF assms(1-7)] by blast
  let ?sv = "with_client (sv\<lparr>sv_commands := d\<rparr>) ca (waiting_client c obs rest)"
  have c: "idle c" "\<not> c_blocked c" "\<not> c_close_after_reply c" "obs \<noteq> []"
    using assms(3,5) o(1) by (auto simp: connected_def ready_def accepting_def args_are_def)
  have "input_round env sv' ca = None" if "clusterProcessCommand env ?sv ca = Some sv'" for sv'
    using clusterProcessCommand_frame(1) [OF that] c assms(8)
    by (simp add: input_round_def waiting_client_def idle_def processMultibulkBuffer_def Let_def)
  then have "processInputBuffer env sv' ca = Some None" if "clusterProcessCommand env ?sv ca = Some sv'" for sv'
    using that by (subst processInputBuffer.simps) simp
  then have "processInputBuffer env (with_client sv ca (c\<lparr>c_querybuf := resp_cmd ws @ rest\<rparr>)) ca = Some None"
    using o(2) by (subst processInputBuffer.simps) (cases "clusterProcessCommand env ?sv ca"; simp)
  then show ?thesis using read_request [OF assms(3,9)] assms(8) by simp
qed

section \<open>Examples\<close>

definition rt_env :: runenv where
  "rt_env = \<lparr>re_bus = demo_env ''a'', re_srv = env_ideal, re_mem = (\<lambda>_. NUL), re_junk = 0, re_flags = (\<lambda>_. (False, False, False))\<rparr>"

text \<open>A server of three with the entries \<open>es\<close>, of which \<open>ci\<close> are committed and none is applied.\<close>

definition rt_server :: "(string, nat) dict \<Rightarrow> (string, prezCommand) dict \<Rightarrow> role \<Rightarrow> logEntryNode list \<Rightarrow> int \<Rightarrow> client \<Rightarrow> server" where
  "rt_server t d r es ci c =
     \<lparr>sv_cluster = (demo_server t 0)\<lparr>cl_state := r, cl_current_term := 1, cl_leader := SdsName ''b'', log_entries := es, commit_index := ci\<rparr>,
      sv_db = db_empty, sv_commands = d, sv_clients = [5 \<mapsto> c], sv_order = [5], sv_to_close = [], sv_fresh = 6,
      sv_numconnections = 1, sv_rejected_conn = 0\<rparr>"

definition rt_node :: "int \<Rightarrow> string list \<Rightarrow> logEntryNode" where
  "rt_node i ws = new_node \<lparr>le_index = i, le_term = 1, le_commandName = char_array 40 ''set'',
     le_command = char_array 40 (intercalate '' '' ws @ [LF])\<rparr> 0"

lemma rt_sel [simp]:
  "sv_clients (rt_server t d r es ci c) 5 = Some c" "cl_state (sv_cluster (rt_server t d r es ci c)) = r"
  "log_entries (sv_cluster (rt_server t d r es ci c)) = es" "commit_index (sv_cluster (rt_server t d r es ci c)) = ci"
  "last_applied (sv_cluster (rt_server t d r es ci c)) = 0" "cl_nodes (sv_cluster (rt_server t d r es ci c)) = t"
  "sv_db (rt_server t d r es ci c) = db_empty" "cl_leader (sv_cluster (rt_server t d r es ci c)) = SdsName ''b''"
  "cl_current_term (sv_cluster (rt_server t d r es ci c)) = 1" "cl_proc_clients (sv_cluster (rt_server t d r es ci c)) = dictCreate"
  "store rt_env (rt_server t d r es ci c) = Map.empty"
  using db_empty_ok(2) [of env_ideal] by (simp_all add: rt_server_def demo_server_def store_def fun_eq_iff rt_env_def)

lemma rt_waits [simp]: "waits rt_env (rt_server t d r es ci c) i = None"
  by (simp add: waits_def dict_map_def dictCreate_def table_list_def dictReset_def)

lemma rt_server_ok:
  assumes "commands_ok env_ideal d" "\<forall>j < length es. le_index (log_entry (es ! j)) = int j + 1" "length es < 100"
  shows "server_ok rt_env (rt_server t d r es ci c)" "n < 100 \<Longrightarrow> server_room (rt_server t d r es ci c) n"
  using assms db_empty_ok(1) [of env_ideal] dict_ok_create [of "dbDictType 5381" "\<lambda>_. True"]
  by (auto simp: server_ok_def server_room_def waits_ok_def log_wf_def log_small_def logLength_def is_ll_def rt_env_def
      demo_env_def db_room_def dictSize_def dictCreate_def dictReset_def db_empty_def)
    (simp_all add: rt_server_def)

lemma rt_connected: "connected rt_env (rt_server t d r es ci new_client) 5 new_client" "client_out new_client = []"
  using new_client_ready
  by (simp_all add: connected_def idle_def new_client_def srv_env_def rt_env_def env_ideal_def net_ideal_def ready_def out_ok_def
      accepting_def Let_def client_out_def)

lemma demo_table_size: "demo_table t \<Longrightarrow> dictSize t = 3"
  using dbt.dictSize_ok [of 5381 t] by (simp add: demo_table_def nodes_type_eq)

lemma rt_commands: "\<exists>d. commands_ok env_ideal d"
  using populate_commands_ok by blast


theorem follower_replays_log_witness:
  "\<exists>t d sv'. apply_committed rt_env (rt_server t d PREZ_FOLLOWER
      [rt_node 1 [''set'', ''a'', ''1''], rt_node 2 [''SET'', ''b'', ''2''], rt_node 3 [''set'', ''a'', ''3''], rt_node 4 [''set'', ''b'', ''4'']] 3 new_client) =
      Some sv' \<and> last_applied (sv_cluster sv') = 3 \<and> store rt_env sv' = [''a'' \<mapsto> ''3'', ''b'' \<mapsto> ''2'']"
proof -
  obtain t d where t: "demo_table t" and d: "commands_ok env_ideal d" using demo_table_ex rt_commands by blast
  let ?es = "[rt_node 1 [''set'', ''a'', ''1''], rt_node 2 [''SET'', ''b'', ''2''], rt_node 3 [''set'', ''a'', ''3''], rt_node 4 [''set'', ''b'', ''4'']]"
  let ?sv = "rt_server t d PREZ_FOLLOWER ?es 3 new_client"
  have ok: "server_ok rt_env ?sv" "server_room ?sv 3"
    using rt_server_ok [OF d, of ?es] by (auto simp: rt_node_def new_node_def less_Suc_eq numeral_eq_Suc)
  have p: "pending ?sv = map log_entry (take 3 ?es)" by (simp add: pending_def)
  have r: "\<forall>e \<in> set (map log_entry (take 3 ?es)). replayable (le_command e)" by code_simp
  have f: "fold (\<lambda>e. replay (le_command e)) (map log_entry (take 3 ?es)) Map.empty = [''a'' \<mapsto> ''3'', ''b'' \<mapsto> ''2'']"
  proof -
    have "sdssplitargs (cstr (le_command (log_entry (rt_node 1 [''set'', ''a'', ''1''])))) = Some [''set'', ''a'', ''1'']"
      "sdssplitargs (cstr (le_command (log_entry (rt_node 2 [''SET'', ''b'', ''2''])))) = Some [''SET'', ''b'', ''2'']"
      "sdssplitargs (cstr (le_command (log_entry (rt_node 3 [''set'', ''a'', ''3''])))) = Some [''set'', ''a'', ''3'']" by code_simp+
    moreover have "map c_tolower ''set'' = ''set''" "map c_tolower ''SET'' = ''set''" by code_simp+
    ultimately have "replay (le_command (log_entry (rt_node 1 [''set'', ''a'', ''1'']))) m = m(''a'' \<mapsto> ''1'')"
      "replay (le_command (log_entry (rt_node 2 [''SET'', ''b'', ''2'']))) m = m(''b'' \<mapsto> ''2'')"
      "replay (le_command (log_entry (rt_node 3 [''set'', ''a'', ''3'']))) m = m(''a'' \<mapsto> ''3'')" for m
      by (simp_all add: replay_def del: list.map)
    then show ?thesis by (auto simp: fun_eq_iff)
  qed
  have i: "index_ok ?sv" "cl_state (sv_cluster ?sv) \<noteq> PREZ_LEADER" "db_room (sv_db ?sv) (length (pending ?sv))"
    using ok(2) by (simp_all add: index_ok_def logLength_def server_room_def p numeral_3_eq_3)
  obtain sv' where s: "apply_committed rt_env ?sv = Some sv'"
    "sv_cluster sv' = (sv_cluster ?sv)\<lparr>last_applied := commit_index (sv_cluster ?sv)\<rparr>"
    "store rt_env sv' = fold (\<lambda>e. replay (le_command e)) (pending ?sv) (store rt_env ?sv)"
    using follower_replays_log [OF ok(1) i(2,1) r [folded p] i(3)] by blast
  have "store rt_env sv' = [''a'' \<mapsto> ''3'', ''b'' \<mapsto> ''2'']" unfolding s(3) p rt_sel(11) by (rule f)
  with s(1,2) show ?thesis by (intro exI [of _ t] exI [of _ d] exI [of _ sv'] conjI) simp_all
qed

theorem write_faults_exactly_witness:
  "\<exists>t d. clusterProcessCommand rt_env (rt_server t d PREZ_LEADER [] 0
      (new_client\<lparr>c_cmd := Some ''set'', c_argv := map createStringObject [''set'', ''ab'', ''1234567'']\<rparr>)) 5 = None"
proof -
  obtain t d where t: "demo_table t" and d: "commands_ok env_ideal d" using demo_table_ex rt_commands by blast
  let ?ws = "[''set'', ''ab'', ''1234567'']"
  let ?sv = "rt_server t d PREZ_LEADER [] 0 (new_client\<lparr>c_cmd := Some ''set'', c_argv := map createStringObject ?ws\<rparr>)"
  have L: "server_ok rt_env ?sv" "server_room ?sv 0" using rt_server_ok [OF d, of "[]"] by auto
  have "list_all literal ?ws" "spare 0 0 (pieces ?ws) = 0" by code_simp+
  moreover have "asks ?sv 5 ''set'' ?ws" using calculation(1) by (simp add: asks_def key_sds_def create_ptr no_NUL_def)
  ultimately show ?thesis using write_faults_exactly [OF L, of 5 "''set''" ?ws] demo_table_size [OF t] by auto
qed

theorem write_refused_witness:
  "\<exists>t d sv' c'. processCommand rt_env (rt_server t d PREZ_FOLLOWER [] 0
      (new_client\<lparr>c_argv := map createStringObject [''SET'', ''k'', ''v'']\<rparr>)) 5 = Some (sv', PREZ_OK) \<and>
    sv_clients sv' 5 = Some c' \<and> client_out c' = ''-ASK b'' @ CRLF"
proof -
  obtain t d where t: "demo_table t" and d: "commands_ok env_ideal d" using demo_table_ex rt_commands by blast
  let ?c = "new_client\<lparr>c_argv := map createStringObject [''SET'', ''k'', ''v'']\<rparr>"
  let ?sv = "rt_server t d PREZ_FOLLOWER [] 0 ?c"
  have L: "server_ok rt_env ?sv" using rt_server_ok [OF d, of "[]"] by auto
  have r: "ready (se_net (srv_env rt_env ?sv)) ?c" "client_out ?c = []"
    by (simp_all add: new_client_def srv_env_def rt_env_def env_ideal_def net_ideal_def ready_def out_ok_def accepting_def Let_def client_out_def)
  have k: "key_sds (createStringObject ''SET'') = Some ''SET''" "map c_tolower ''SET'' = ''set''" "no_NUL ''SET''" by code_simp+
  obtain sv' c' where "processCommand rt_env ?sv 5 = Some (sv', PREZ_OK)" "sv_clients sv' = (sv_clients ?sv)(5 \<mapsto> c')"
    "client_out c' = ''-ASK b'' @ CRLF"
    using write_refused [OF L _ rt_sel(1) r(1) _ _ k(1-3), of "map createStringObject [''k'', ''v'']"] r(2)
    by (auto simp: name_bytes_def cstr_def)
  then show ?thesis by (intro exI [of _ t] exI [of _ d] exI [of _ sv'] exI [of _ c']) simp
qed

theorem pipelined_write_aborts_witness:
  "\<exists>t d. readQueryFromClient rt_env (rt_server t d PREZ_LEADER [] 0 new_client) 5
     (Read_Bytes (resp_cmd [''set'', ''k'', ''v''] @ resp_cmd [''get'', ''k''])) = Some None"
proof -
  obtain t d where t: "demo_table t" and d: "commands_ok env_ideal d" using demo_table_ex rt_commands by blast
  let ?sv = "rt_server t d PREZ_LEADER [] 0 new_client" and ?ws = "[''set'', ''k'', ''v'']"
  have L: "server_ok rt_env ?sv" using rt_server_ok [OF d, of "[]"] by auto
  have w: "resp_ok ?ws" "no_NUL ''set''" "map c_tolower ''set'' = ''set''" by (simp_all add: resp_ok_def no_NUL_def c_tolower_def)
  have r: "length (resp_cmd ?ws @ resp_cmd [''get'', ''k'']) = 47" "resp_cmd [''get'', ''k''] \<noteq> []" by code_simp+
  then have "length (resp_cmd ?ws @ resp_cmd [''get'', ''k'']) \<le> 16384" by simp
  then show ?thesis using pipelined_write_aborts [OF L _ rt_connected(1) w(1), of "resp_cmd [''get'', ''k'']"] w(2,3) r(2) by auto
qed

end
