(* ===== verification/Prez_Ae.thy ===== *)
theory Prez_Ae
  imports Prez_Prelude "HOL-Library.Signed_Division"
begin

text \<open>
  The event loop of src/src/ae.c with its Linux backend src/src/ae_epoll.c: the table of file events,
  the list of timers, the time the loop may sleep and the dispatch of what has fired.  The set of
  descriptors that the kernel watches is a part of the state.  Handlers are parameters that act on
  the state of the program and on the loop itself; the clock and the events that the kernel reports are
  parameters as well.  \<open>None\<close> is an access outside the table or to a timer that was freed.
\<close>

unbundle bit_operations_syntax

section \<open>Data\<close>

abbreviation (input) AE_OK :: int where "AE_OK \<equiv> 0"
abbreviation (input) AE_ERR :: int where "AE_ERR \<equiv> -1"
abbreviation (input) AE_NONE :: int where "AE_NONE \<equiv> 0"
abbreviation (input) AE_READABLE :: int where "AE_READABLE \<equiv> 1"
abbreviation (input) AE_WRITABLE :: int where "AE_WRITABLE \<equiv> 2"
abbreviation (input) AE_NOMORE :: int where "AE_NOMORE \<equiv> -1"
abbreviation (input) AE_FILE_EVENTS :: int where "AE_FILE_EVENTS \<equiv> 1"
abbreviation (input) AE_TIME_EVENTS :: int where "AE_TIME_EVENTS \<equiv> 2"
abbreviation (input) AE_DONT_WAIT :: int where "AE_DONT_WAIT \<equiv> 4"

text \<open>A function pointer is a number, and so is the argument that is kept for it.\<close>

record aeFileEvent =
  fe_mask :: int
  fe_rfileProc :: nat
  fe_wfileProc :: nat
  fe_clientData :: nat

record aeTimeEvent =
  te_id :: int
  te_when_sec :: int
  te_when_ms :: int
  te_timeProc :: nat
  te_clientData :: nat

text \<open>\<open>el_epoll\<close> is the interest list of the kernel: whether a descriptor is watched for input and output.\<close>

record aeEventLoop =
  el_maxfd :: int
  el_setsize :: int
  el_timeEventNextId :: int
  el_lastTime :: int
  el_events :: "aeFileEvent list"
  el_timers :: "aeTimeEvent list"
  el_stop :: bool
  el_epoll :: "int \<Rightarrow> (bool \<times> bool) option"

definition has :: "int \<Rightarrow> int \<Rightarrow> bool" where
  "has msk b \<longleftrightarrow> msk AND b \<noteq> 0"

section \<open>The backend\<close>

text \<open>\<open>epoll_ctl\<close>: adding a watched descriptor and changing an unwatched one fail, and so does any
  request that the kernel refuses for the descriptor (\<open>ok\<close>).\<close>

definition epoll_set :: "(int \<Rightarrow> bool) \<Rightarrow> bool \<Rightarrow> int \<Rightarrow> int \<Rightarrow> aeEventLoop \<Rightarrow> aeEventLoop \<times> int" where
  "epoll_set ok add fd msk el =
     (if ok fd \<and> (el_epoll el fd = None \<longleftrightarrow> add)
      then (el\<lparr>el_epoll := (el_epoll el)(fd \<mapsto> (has msk AE_READABLE, has msk AE_WRITABLE))\<rparr>, 0)
      else (el, -1))"

definition aeApiAddEvent :: "(int \<Rightarrow> bool) \<Rightarrow> aeEventLoop \<Rightarrow> int \<Rightarrow> int \<Rightarrow> aeEventLoop \<times> int" where
  "aeApiAddEvent ok el fd msk =
     (let old = fe_mask (el_events el ! nat fd) in epoll_set ok (old = AE_NONE) fd (msk OR old) el)"

definition aeApiDelEvent :: "(int \<Rightarrow> bool) \<Rightarrow> aeEventLoop \<Rightarrow> int \<Rightarrow> int \<Rightarrow> aeEventLoop" where
  "aeApiDelEvent ok el fd delmask =
     (let msk = fe_mask (el_events el ! nat fd) AND NOT delmask in
      if msk \<noteq> AE_NONE then fst (epoll_set ok False fd msk el)
      else el\<lparr>el_epoll := (el_epoll el)(fd := None)\<rparr>)"

section \<open>File events\<close>

definition aeCreateEventLoop :: "int \<Rightarrow> int \<Rightarrow> (nat \<Rightarrow> aeFileEvent) \<Rightarrow> aeEventLoop" where
  "aeCreateEventLoop setsize now junk =
     \<lparr>el_maxfd = -1, el_setsize = setsize, el_timeEventNextId = 0, el_lastTime = now,
      el_events = map (\<lambda>i. (junk i)\<lparr>fe_mask := AE_NONE\<rparr>) [0..<nat setsize], el_timers = [], el_stop = False,
      el_epoll = (\<lambda>_. None)\<rparr>"

definition aeResizeSetSize :: "(nat \<Rightarrow> aeFileEvent) \<Rightarrow> aeEventLoop \<Rightarrow> int \<Rightarrow> aeEventLoop \<times> int" where
  "aeResizeSetSize junk el setsize =
     (if setsize = el_setsize el then (el, AE_OK)
      else if el_maxfd el \<ge> setsize then (el, AE_ERR)
      else
        let evs = map (\<lambda>i. if i < length (el_events el) then el_events el ! i else junk i) [0..<nat setsize];
            evs = map (\<lambda>i. if int i > el_maxfd el then (evs ! i)\<lparr>fe_mask := AE_NONE\<rparr> else evs ! i) [0..<nat setsize]
        in (el\<lparr>el_events := evs, el_setsize := setsize\<rparr>, AE_OK))"

definition aeCreateFileEvent :: "(int \<Rightarrow> bool) \<Rightarrow> aeEventLoop \<Rightarrow> int \<Rightarrow> int \<Rightarrow> nat \<Rightarrow> nat \<Rightarrow> (aeEventLoop \<times> int) option" where
  "aeCreateFileEvent ok el fd msk proc clientData =
     (if fd \<ge> el_setsize el then Some (el, AE_ERR)
      else if fd < 0 then None
      else
        let (el, rc) = aeApiAddEvent ok el fd msk in
        if rc = -1 then Some (el, AE_ERR)
        else
          let fe = el_events el ! nat fd;
              fe = fe\<lparr>fe_mask := fe_mask fe OR msk\<rparr>;
              fe = (if has msk AE_READABLE then fe\<lparr>fe_rfileProc := proc\<rparr> else fe);
              fe = (if has msk AE_WRITABLE then fe\<lparr>fe_wfileProc := proc\<rparr> else fe);
              fe = fe\<lparr>fe_clientData := clientData\<rparr>
          in Some (el\<lparr>el_events := (el_events el)[nat fd := fe], el_maxfd := (if fd > el_maxfd el then fd else el_maxfd el)\<rparr>, AE_OK))"

text \<open>The search for the highest descriptor in use below \<open>j\<close>.\<close>

fun max_fd_below :: "aeFileEvent list \<Rightarrow> nat \<Rightarrow> int" where
  "max_fd_below evs 0 = -1"
| "max_fd_below evs (Suc j) = (if fe_mask (evs ! j) \<noteq> AE_NONE then int j else max_fd_below evs j)"

definition aeDeleteFileEvent :: "(int \<Rightarrow> bool) \<Rightarrow> aeEventLoop \<Rightarrow> int \<Rightarrow> int \<Rightarrow> aeEventLoop option" where
  "aeDeleteFileEvent ok el fd msk =
     (if fd \<ge> el_setsize el then Some el
      else if fd < 0 then None
      else
        let fe = el_events el ! nat fd in
        if fe_mask fe = AE_NONE then Some el
        else
          let fe = fe\<lparr>fe_mask := fe_mask fe AND NOT msk\<rparr>;
              el = el\<lparr>el_events := (el_events el)[nat fd := fe]\<rparr>;
              el = (if fd = el_maxfd el \<and> fe_mask fe = AE_NONE
                    then el\<lparr>el_maxfd := max_fd_below (el_events el) (nat (el_maxfd el))\<rparr> else el)
          in Some (aeApiDelEvent ok el fd msk))"

definition aeGetFileEvents :: "aeEventLoop \<Rightarrow> int \<Rightarrow> int option" where
  "aeGetFileEvents el fd =
     (if fd \<ge> el_setsize el then Some 0 else if fd < 0 then None else Some (fe_mask (el_events el ! nat fd)))"

section \<open>Timers\<close>

text \<open>The two fields of \<open>gettimeofday\<close>, in seconds and milliseconds, at the reading \<open>n\<close>.\<close>

type_synonym clock = "nat \<Rightarrow> int \<times> int"

definition aeAddMillisecondsToNow :: "int \<times> int \<Rightarrow> int \<Rightarrow> int \<times> int" where
  "aeAddMillisecondsToNow now milliseconds =
     (let when_sec = fst now + milliseconds sdiv 1000;
          when_ms = snd now + milliseconds smod 1000
      in if when_ms \<ge> 1000 then (when_sec + 1, when_ms - 1000) else (when_sec, when_ms))"

definition aeCreateTimeEvent :: "aeEventLoop \<Rightarrow> int \<times> int \<Rightarrow> int \<Rightarrow> nat \<Rightarrow> nat \<Rightarrow> aeEventLoop \<times> int" where
  "aeCreateTimeEvent el now milliseconds proc clientData =
     (let tid = el_timeEventNextId el;
          (s, m) = aeAddMillisecondsToNow now milliseconds;
          te = \<lparr>te_id = tid, te_when_sec = s, te_when_ms = m, te_timeProc = proc, te_clientData = clientData\<rparr>
      in (el\<lparr>el_timeEventNextId := ll (tid + 1), el_timers := te # el_timers el\<rparr>, tid))"

fun delete_timer :: "int \<Rightarrow> aeTimeEvent list \<Rightarrow> aeTimeEvent list option" where
  "delete_timer i [] = None"
| "delete_timer i (te # tes) = (if te_id te = i then Some tes else map_option ((#) te) (delete_timer i tes))"

definition aeDeleteTimeEvent :: "aeEventLoop \<Rightarrow> int \<Rightarrow> aeEventLoop \<times> int" where
  "aeDeleteTimeEvent el i =
     (case delete_timer i (el_timers el) of Some tes \<Rightarrow> (el\<lparr>el_timers := tes\<rparr>, AE_OK) | None \<Rightarrow> (el, AE_ERR))"

fun nearest :: "aeTimeEvent option \<Rightarrow> aeTimeEvent list \<Rightarrow> aeTimeEvent option" where
  "nearest n [] = n"
| "nearest n (te # tes) =
     nearest (case n of
                None \<Rightarrow> Some te
              | Some x \<Rightarrow> if te_when_sec te < te_when_sec x \<or> te_when_sec te = te_when_sec x \<and> te_when_ms te < te_when_ms x
                           then Some te else Some x) tes"

definition aeSearchNearestTimer :: "aeEventLoop \<Rightarrow> aeTimeEvent option" where
  "aeSearchNearestTimer el = nearest None (el_timers el)"

text \<open>The \<open>struct timeval\<close> that the loop sleeps at most, in seconds and microseconds.\<close>

definition poll_timeout :: "aeTimeEvent \<Rightarrow> int \<times> int \<Rightarrow> int \<times> int" where
  "poll_timeout te now =
     (let tv_sec = te_when_sec te - fst now;
          (tv_sec, tv_usec) = (if te_when_ms te < snd now then (tv_sec - 1, (te_when_ms te + 1000 - snd now) * 1000)
                               else (tv_sec, (te_when_ms te - snd now) * 1000))
      in (if tv_sec < 0 then 0 else tv_sec, if tv_usec < 0 then 0 else tv_usec))"

text \<open>The argument of \<open>epoll_wait\<close> in milliseconds.\<close>

definition epoll_timeout :: "(int \<times> int) option \<Rightarrow> int" where
  "epoll_timeout tvp = (case tvp of None \<Rightarrow> -1 | Some (s, us) \<Rightarrow> s * 1000 + us sdiv 1000)"

section \<open>Dispatch\<close>

text \<open>
  The environment: the clock, the events that the kernel reports for a wait of so many milliseconds
  (-1 for no limit), and the handlers.  \<open>n\<close> counts the calls of the operating system.  A timer's handler also
  returns the delay to its next run.
\<close>

record 's aeenv =
  ae_clock :: clock
  ae_poll :: "nat \<Rightarrow> int \<Rightarrow> (int \<times> int) list"
  ae_file :: "nat \<Rightarrow> int \<Rightarrow> nat \<Rightarrow> int \<Rightarrow> 's \<times> aeEventLoop \<Rightarrow> ('s \<times> aeEventLoop) option"
  ae_time :: "nat \<Rightarrow> int \<Rightarrow> nat \<Rightarrow> 's \<times> aeEventLoop \<Rightarrow> ('s \<times> aeEventLoop \<times> int) option"

definition due :: "int \<times> int \<Rightarrow> aeTimeEvent \<Rightarrow> bool" where
  "due now te \<longleftrightarrow> fst now > te_when_sec te \<or> fst now = te_when_sec te \<and> snd now \<ge> te_when_ms te"

text \<open>A handler that runs may change the list; the timer is then written through a pointer, which is
  dangling when the handler has deleted it.\<close>

definition set_when :: "int \<Rightarrow> int \<times> int \<Rightarrow> aeEventLoop \<Rightarrow> aeEventLoop option" where
  "set_when i w el =
     (if i \<in> te_id ` set (el_timers el)
      then Some (el\<lparr>el_timers := map (\<lambda>te. if te_id te = i then te\<lparr>te_when_sec := fst w, te_when_ms := snd w\<rparr> else te) (el_timers el)\<rparr>)
      else None)"

text \<open>One run of a timer.\<close>

definition fire_timer :: "'s aeenv \<Rightarrow> aeTimeEvent \<Rightarrow> nat \<Rightarrow> 's \<times> aeEventLoop \<Rightarrow> ('s \<times> aeEventLoop) option" where
  "fire_timer env te n st =
     do { (s, el, retval) \<leftarrow> ae_time env (te_timeProc te) (te_id te) (te_clientData te) st;
          if retval \<noteq> AE_NOMORE then do { el \<leftarrow> set_when (te_id te) (aeAddMillisecondsToNow (ae_clock env n) retval) el; Some (s, el) }
          else Some (s, fst (aeDeleteTimeEvent el (te_id te))) }"

text \<open>The loop over the timers from \<open>te\<close> on, from the head again after each run: \<open>None\<close> is a loop without
  end, which a handler that asks for a delay of zero causes, and \<open>Some None\<close> a fault.\<close>

partial_function (option) time_loop ::
    "'s aeenv \<Rightarrow> int \<Rightarrow> aeTimeEvent list \<Rightarrow> nat \<Rightarrow> nat \<Rightarrow> 's \<times> aeEventLoop \<Rightarrow> ('s \<times> aeEventLoop \<times> nat \<times> nat) option option" where
  "time_loop env maxId tes n processed st =
     (case tes of
        [] \<Rightarrow> Some (Some (fst st, snd st, n, processed))
      | te # rest \<Rightarrow>
          if te_id te > maxId then time_loop env maxId rest n processed st
          else if due (ae_clock env n) te then
            (case fire_timer env te (Suc n) st of
               None \<Rightarrow> Some None
             | Some st' \<Rightarrow> time_loop env maxId (el_timers (snd st')) (Suc (Suc n)) (Suc processed) st')
          else time_loop env maxId rest (Suc n) processed st)"

text \<open>The timers run at once when the clock was set back.\<close>

definition processTimeEvents :: "'s aeenv \<Rightarrow> nat \<Rightarrow> 's \<times> aeEventLoop \<Rightarrow> ('s \<times> aeEventLoop \<times> nat \<times> nat) option option" where
  "processTimeEvents env n st =
     (let now = fst (ae_clock env n);
          el = snd st;
          el = (if now < el_lastTime el then el\<lparr>el_timers := map (\<lambda>te. te\<lparr>te_when_sec := 0\<rparr>) (el_timers el)\<rparr> else el);
          el = el\<lparr>el_lastTime := now\<rparr>
      in time_loop env (ll (el_timeEventNextId el - 1)) (el_timers el) (Suc n) 0 (fst st, el))"

text \<open>
  One event that fired.  The pointer to its slot is kept over the call of the read handler: when that
  handler has changed the size of the table, the slot is read in memory that was given back.
\<close>

definition fire_file :: "'s aeenv \<Rightarrow> int \<times> int \<Rightarrow> 's \<times> aeEventLoop \<Rightarrow> ('s \<times> aeEventLoop) option" where
  "fire_file env ev st =
     (let (fd, msk) = ev; el = snd st in
      if fd < 0 \<or> fd \<ge> el_setsize el then None
      else
        let fe = el_events el ! nat fd;
            rfired = has (fe_mask fe AND msk) AE_READABLE
        in do { st' \<leftarrow> (if rfired then ae_file env (fe_rfileProc fe) fd (fe_clientData fe) msk st else Some st);
                if el_setsize (snd st') \<noteq> el_setsize el then None
                else
                  let fe = el_events (snd st') ! nat fd in
                  if has (fe_mask fe AND msk) AE_WRITABLE \<and> (\<not> rfired \<or> fe_wfileProc fe \<noteq> fe_rfileProc fe)
                  then ae_file env (fe_wfileProc fe) fd (fe_clientData fe) msk st' else Some st' })"

fun fire_files :: "'s aeenv \<Rightarrow> (int \<times> int) list \<Rightarrow> 's \<times> aeEventLoop \<Rightarrow> ('s \<times> aeEventLoop) option" where
  "fire_files env [] st = Some st"
| "fire_files env (ev # evs) st = do { st \<leftarrow> fire_file env ev st; fire_files env evs st }"

definition wait_time :: "'s aeenv \<Rightarrow> int \<Rightarrow> nat \<Rightarrow> aeEventLoop \<Rightarrow> int" where
  "wait_time env flags n el =
     (case (if has flags AE_TIME_EVENTS \<and> \<not> has flags AE_DONT_WAIT then aeSearchNearestTimer el else None) of
        Some te \<Rightarrow> epoll_timeout (Some (poll_timeout te (ae_clock env n)))
      | None \<Rightarrow> epoll_timeout (if has flags AE_DONT_WAIT then Some (0, 0) else None))"

definition aeProcessEvents :: "'s aeenv \<Rightarrow> int \<Rightarrow> nat \<Rightarrow> 's \<times> aeEventLoop \<Rightarrow> ('s \<times> aeEventLoop \<times> nat \<times> nat) option option" where
  "aeProcessEvents env flags n st =
     (if \<not> has flags AE_TIME_EVENTS \<and> \<not> has flags AE_FILE_EVENTS then Some (Some (fst st, snd st, n, 0))
      else
        let sleeps = (el_maxfd (snd st) \<noteq> -1 \<or> has flags AE_TIME_EVENTS \<and> \<not> has flags AE_DONT_WAIT);
            fired = (if sleeps then ae_poll env (Suc n) (wait_time env flags n (snd st)) else []);
            n = (if sleeps then Suc (Suc n) else n)
        in (case fire_files env fired st of
              None \<Rightarrow> Some None
            | Some st \<Rightarrow>
                if has flags AE_TIME_EVENTS then
                  map_option (map_option (\<lambda>(s, el, n, p). (s, el, n, p + length fired))) (processTimeEvents env n st)
                else Some (Some (fst st, snd st, n, length fired))))"

section \<open>The invariant of the file events\<close>

definition interest :: "int \<Rightarrow> (bool \<times> bool) option" where
  "interest m = (if m = AE_NONE then None else Some (has m AE_READABLE, has m AE_WRITABLE))"

definition mask_at :: "aeEventLoop \<Rightarrow> int \<Rightarrow> int" where
  "mask_at el fd = (if 0 \<le> fd \<and> fd < el_setsize el then fe_mask (el_events el ! nat fd) else AE_NONE)"

text \<open>The kernel watches what the table says, and \<open>maxfd\<close> is the highest descriptor in use.\<close>

definition loop_ok :: "(int \<Rightarrow> bool) \<Rightarrow> aeEventLoop \<Rightarrow> bool" where
  "loop_ok ok el \<longleftrightarrow> 0 \<le> el_setsize el \<and> length (el_events el) = nat (el_setsize el) \<and>
     (\<forall>fd. mask_at el fd \<in> {0, 1, 2, 3} \<and> el_epoll el fd = interest (mask_at el fd) \<and> (mask_at el fd \<noteq> AE_NONE \<longrightarrow> ok fd)) \<and>
     -1 \<le> el_maxfd el \<and> (el_maxfd el \<noteq> -1 \<longrightarrow> mask_at el (el_maxfd el) \<noteq> AE_NONE) \<and> (\<forall>fd > el_maxfd el. mask_at el fd = AE_NONE)"

lemma loop_okD:
  assumes "loop_ok ok el"
  shows "mask_at el fd \<in> {0, 1, 2, 3}" "el_epoll el fd = interest (mask_at el fd)" "mask_at el fd \<noteq> AE_NONE \<Longrightarrow> ok fd"
    "length (el_events el) = nat (el_setsize el)" "0 \<le> el_setsize el" "-1 \<le> el_maxfd el"
    "el_maxfd el \<noteq> -1 \<Longrightarrow> mask_at el (el_maxfd el) \<noteq> AE_NONE" "fd > el_maxfd el \<Longrightarrow> mask_at el fd = AE_NONE"
  using assms unfolding loop_ok_def by blast+

lemma small_masks:
  assumes "m \<in> {0, 1, 2, 3 :: int}" "k \<in> {1, 2, 3}"
  shows "m OR k \<in> {1, 2, 3}" "k OR m = m OR k" "m AND NOT k \<in> {0, 1, 2, 3}" "m AND NOT k AND NOT k = m AND NOT k"
  using assms by auto

lemma mask_at_update:
  assumes "0 \<le> fd" "fd < el_setsize el" "length (el_events el) = nat (el_setsize el)"
    "el_events el' = (el_events el)[nat fd := fe]" "el_setsize el' = el_setsize el"
  shows "mask_at el' x = (if x = fd then fe_mask fe else mask_at el x)"
  using assms by (auto simp: mask_at_def nth_list_update nat_less_iff)

lemma mask_at_more [simp]:
  "mask_at (el\<lparr>el_maxfd := k\<rparr>) = mask_at el" "mask_at (el\<lparr>el_epoll := g\<rparr>) = mask_at el"
  by (simp_all add: mask_at_def fun_eq_iff)

text \<open>A loop whose table holds \<open>m\<close> at \<open>fd\<close>, with the kernel and \<open>maxfd\<close> in step.\<close>

lemma loop_ok_update:
  assumes "loop_ok ok el" "0 \<le> fd" "fd < el_setsize el" "m \<in> {0, 1, 2, 3}" "m \<noteq> AE_NONE \<longrightarrow> ok fd"
    and "length (el_events el') = length (el_events el)" "el_setsize el' = el_setsize el"
    and "\<forall>x. mask_at el' x = (if x = fd then m else mask_at el x)" "el_epoll el' = (el_epoll el)(fd := interest m)"
    and "-1 \<le> el_maxfd el'" "el_maxfd el' \<noteq> -1 \<longrightarrow> mask_at el' (el_maxfd el') \<noteq> AE_NONE" "\<forall>x > el_maxfd el'. mask_at el' x = AE_NONE"
  shows "loop_ok ok el'"
  using assms unfolding loop_ok_def by auto

lemma max_fd_below_char:
  "-1 \<le> max_fd_below evs n" "max_fd_below evs n < int n"
  "max_fd_below evs n \<noteq> -1 \<Longrightarrow> fe_mask (evs ! nat (max_fd_below evs n)) \<noteq> AE_NONE"
  "max_fd_below evs n < int j \<Longrightarrow> j < n \<Longrightarrow> fe_mask (evs ! j) = AE_NONE"
  by (induction n) (auto simp: less_Suc_eq split: if_splits)

lemma aeCreateFileEvent_ok:
  assumes ok: "loop_ok ok el" and fd: "0 \<le> fd" and m: "msk \<in> {1, 2, 3}"
  shows "\<exists>el'. aeCreateFileEvent ok el fd msk proc data = Some (el', if fd < el_setsize el \<and> ok fd then AE_OK else AE_ERR) \<and>
    loop_ok ok el' \<and> el_setsize el' = el_setsize el \<and>
    mask_at el' = (if fd < el_setsize el \<and> ok fd then (mask_at el)(fd := mask_at el fd OR msk) else mask_at el)"
proof (cases "fd < el_setsize el \<and> ok fd")
  case True
  let ?old = "fe_mask (el_events el ! nat fd)"
  have at: "mask_at el fd = ?old" using fd True by (simp add: mask_at_def)
  note old = at [symmetric] loop_okD(1,2) [OF ok, of fd, unfolded at] loop_okD(4) [OF ok]
  note s = small_masks [OF old(2) m]
  have api: "aeApiAddEvent ok el fd msk = (el\<lparr>el_epoll := (el_epoll el)(fd := interest (?old OR msk))\<rparr>, 0)"
    using True old(3) s(1,2) by (auto simp: aeApiAddEvent_def epoll_set_def interest_def Let_def)
  define fe where "fe = (let fe = (el_events el ! nat fd)\<lparr>fe_mask := ?old OR msk\<rparr>;
      fe = (if has msk AE_READABLE then fe\<lparr>fe_rfileProc := proc\<rparr> else fe);
      fe = (if has msk AE_WRITABLE then fe\<lparr>fe_wfileProc := proc\<rparr> else fe) in fe\<lparr>fe_clientData := data\<rparr>)"
  define el' where "el' = el\<lparr>el_epoll := (el_epoll el)(fd := interest (?old OR msk)), el_events := (el_events el)[nat fd := fe],
      el_maxfd := max fd (el_maxfd el)\<rparr>"
  have fm: "fe_mask fe = ?old OR msk" by (simp add: fe_def Let_def)
  have r: "aeCreateFileEvent ok el fd msk proc data = Some (el', AE_OK)"
    using True fd api by (simp add: aeCreateFileEvent_def el'_def fe_def Let_def max_def not_less)
  have el': "el_setsize el' = el_setsize el" "length (el_events el') = length (el_events el)"
    "el_epoll el' = (el_epoll el)(fd := interest (?old OR msk))" "el_maxfd el' = max fd (el_maxfd el)"
    "\<forall>x. mask_at el' x = (if x = fd then ?old OR msk else mask_at el x)"
    using mask_at_update [OF fd _ old(4), of el' fe] True fm by (simp_all add: el'_def)
  have "loop_ok ok el'"
    by (rule loop_ok_update [OF ok fd _ _ _ el'(2,1,5,3)])
      (use True s(1) fd loop_okD(6-8) [OF ok] el'(4,5) in \<open>auto simp: max_def split: if_splits\<close>)
  with True r el'(1,5) old(1) show ?thesis by (auto simp: fun_eq_iff)
next
  case False
  then show ?thesis
    using ok fd by (auto simp: aeCreateFileEvent_def aeApiAddEvent_def epoll_set_def Let_def)
qed

lemma delete_maxfd:
  assumes ok: "loop_ok ok el" and fd: "0 \<le> fd" "fd < el_setsize el" and used: "mask_at el fd \<noteq> AE_NONE"
    and at: "\<forall>x. mask_at el' x = (if x = fd then new else mask_at el x)" and sz: "el_setsize el' = el_setsize el"
    and mx: "el_maxfd el' = (if fd = el_maxfd el \<and> new = AE_NONE then max_fd_below (el_events el') (nat (el_maxfd el)) else el_maxfd el)"
  shows "-1 \<le> el_maxfd el' \<and> (el_maxfd el' \<noteq> -1 \<longrightarrow> mask_at el' (el_maxfd el') \<noteq> AE_NONE) \<and> (\<forall>x > el_maxfd el'. mask_at el' x = AE_NONE)"
proof (cases "fd = el_maxfd el \<and> new = AE_NONE")
  case True
  let ?k = "max_fd_below (el_events el') (nat fd)"
  have k: "el_maxfd el' = ?k" "-1 \<le> ?k" "?k < fd" using mx True max_fd_below_char(1,2) [of "el_events el'" "nat fd"] fd by auto
  have "mask_at el' ?k \<noteq> AE_NONE" if "?k \<noteq> -1"
    using that k fd sz max_fd_below_char(3) [of "el_events el'" "nat fd"] by (simp add: mask_at_def)
  moreover have "mask_at el' x = AE_NONE" if "?k < x" for x
  proof (cases "0 \<le> x \<and> x < fd")
    case True
    then show ?thesis using that max_fd_below_char(4) [of "el_events el'" "nat fd" "nat x"] fd by (simp add: mask_at_def)
  next
    case False
    then consider "x < 0" | "x = fd" | "fd < x" by linarith
    then show ?thesis
    proof cases
      case 1
      then show ?thesis by (simp add: mask_at_def)
    next
      case 2
      then show ?thesis using at \<open>fd = el_maxfd el \<and> new = AE_NONE\<close> by simp
    next
      case 3
      then show ?thesis using at \<open>fd = el_maxfd el \<and> new = AE_NONE\<close> loop_okD(8) [OF ok, of x] by simp
    qed
  qed
  ultimately show ?thesis using k by simp
next
  case False
  have "fd \<le> el_maxfd el" using loop_okD(8) [OF ok, of fd] used by force
  then show ?thesis using False mx at loop_okD(6-8) [OF ok] by auto
qed

lemma aeDeleteFileEvent_ok:
  assumes ok: "loop_ok ok el" and fd: "0 \<le> fd" and m: "msk \<in> {1, 2, 3}"
  shows "\<exists>el'. aeDeleteFileEvent ok el fd msk = Some el' \<and> loop_ok ok el' \<and> el_setsize el' = el_setsize el \<and>
    mask_at el' = (mask_at el)(fd := mask_at el fd AND NOT msk)"
proof (cases "mask_at el fd = AE_NONE")
  case True
  then have "aeDeleteFileEvent ok el fd msk = Some el" using fd by (auto simp: aeDeleteFileEvent_def mask_at_def Let_def)
  with True ok show ?thesis by (auto simp: fun_eq_iff)
next
  case False
  let ?fe = "el_events el ! nat fd"
  have sz: "fd < el_setsize el" using False by (auto simp: mask_at_def split: if_splits)
  have at: "mask_at el fd = fe_mask ?fe" using fd sz by (simp add: mask_at_def)
  note old = loop_okD(1,2,3) [OF ok, of fd, unfolded at] loop_okD(4) [OF ok]
  let ?new = "fe_mask ?fe AND NOT msk"
  note s = small_masks(3,4) [OF old(1) m]
  define el1 where "el1 = el\<lparr>el_events := (el_events el)[nat fd := ?fe\<lparr>fe_mask := ?new\<rparr>],
    el_maxfd := (if fd = el_maxfd el \<and> ?new = AE_NONE
      then max_fd_below ((el_events el)[nat fd := ?fe\<lparr>fe_mask := ?new\<rparr>]) (nat (el_maxfd el)) else el_maxfd el)\<rparr>"
  define el' where "el' = el1\<lparr>el_epoll := (el_epoll el)(fd := interest ?new)\<rparr>"
  have e1: "el_events el1 ! nat fd = ?fe\<lparr>fe_mask := ?new\<rparr>" "el_epoll el1 fd \<noteq> None" "el_epoll el1 = el_epoll el"
    using fd sz old(4,2) False at by (simp_all add: el1_def interest_def nat_less_iff)
  have "aeApiDelEvent ok el1 fd msk = el'"
    using s(2) e1 old(3) False at by (auto simp: aeApiDelEvent_def epoll_set_def el'_def interest_def Let_def)
  then have r: "aeDeleteFileEvent ok el fd msk = Some el'"
    using fd sz False at by (simp add: aeDeleteFileEvent_def Let_def el1_def cong: if_cong) (auto simp: el1_def)
  have at': "mask_at el' x = (if x = fd then ?new else mask_at el x)" for x
    using mask_at_update [OF fd sz old(4), of el' "?fe\<lparr>fe_mask := ?new\<rparr>"] by (simp add: el'_def el1_def)
  have mx: "-1 \<le> el_maxfd el'" "el_maxfd el' \<noteq> -1 \<longrightarrow> mask_at el' (el_maxfd el') \<noteq> AE_NONE" "\<forall>x > el_maxfd el'. mask_at el' x = AE_NONE"
  proof -
    have "el_setsize el' = el_setsize el" "el_maxfd el' = (if fd = el_maxfd el \<and> ?new = AE_NONE
        then max_fd_below (el_events el') (nat (el_maxfd el)) else el_maxfd el)" by (auto simp: el'_def el1_def)
    note this(1) delete_maxfd [OF ok fd sz False _ this]
    with at' show "-1 \<le> el_maxfd el'" "el_maxfd el' \<noteq> -1 \<longrightarrow> mask_at el' (el_maxfd el') \<noteq> AE_NONE"
      "\<forall>x > el_maxfd el'. mask_at el' x = AE_NONE" by blast+
  qed
  have "loop_ok ok el'"
    by (rule loop_ok_update [OF ok fd sz s(1) _ _ _ _ _ mx]) (use old(3) False at at' in \<open>auto simp: el'_def el1_def\<close>)
  with r at' at show ?thesis by (auto simp: fun_eq_iff el'_def el1_def)
qed

lemma aeResizeSetSize_ok:
  assumes ok: "loop_ok ok el"
  shows "loop_ok ok (fst (aeResizeSetSize junk el n)) \<and> mask_at (fst (aeResizeSetSize junk el n)) = mask_at el"
proof (cases "n = el_setsize el \<or> el_maxfd el \<ge> n")
  case True
  then show ?thesis using ok by (auto simp: aeResizeSetSize_def)
next
  case False
  let ?el = "fst (aeResizeSetSize junk el n)"
  note d = loop_okD(4-6) [OF ok]
  have mx: "el_maxfd el < el_setsize el" "el_maxfd el < n" "0 \<le> n"
    using False d loop_okD(7) [OF ok] by (cases "el_maxfd el = -1"; auto simp: mask_at_def split: if_splits)+
  have f: "el_setsize ?el = n" "length (el_events ?el) = nat n" "el_maxfd ?el = el_maxfd el" "el_epoll ?el = el_epoll el"
    using False by (simp_all add: aeResizeSetSize_def Let_def)
  have at: "mask_at ?el x = mask_at el x" for x
  proof (cases "0 \<le> x \<and> x \<le> el_maxfd el")
    case True
    then show ?thesis using False mx d(1) by (auto simp: mask_at_def aeResizeSetSize_def Let_def nat_less_iff)
  next
    case False': False
    then have "mask_at el x = AE_NONE" using loop_okD(8) [OF ok, of x] by (cases "x < 0") (auto simp: mask_at_def)
    moreover have "mask_at ?el x = AE_NONE" using False False' by (auto simp: mask_at_def aeResizeSetSize_def Let_def)
    ultimately show ?thesis by simp
  qed
  then show ?thesis using ok f mx(3) by (auto simp: loop_ok_def fun_eq_iff)
qed

lemma aeCreateEventLoop_ok: "0 \<le> n \<Longrightarrow> loop_ok ok (aeCreateEventLoop n now junk) \<and> mask_at (aeCreateEventLoop n now junk) = (\<lambda>_. AE_NONE)"
  by (auto simp: loop_ok_def mask_at_def aeCreateEventLoop_def interest_def fun_eq_iff)

section \<open>Sequences of requests\<close>

datatype ae_op = Create int int nat nat | Delete int int | Resize int

fun ae_run :: "(int \<Rightarrow> bool) \<Rightarrow> (nat \<Rightarrow> aeFileEvent) \<Rightarrow> aeEventLoop \<Rightarrow> ae_op list \<Rightarrow> aeEventLoop option" where
  "ae_run ok junk el [] = Some el"
| "ae_run ok junk el (Create fd m pr cd # ops) = do { (el, rc) \<leftarrow> aeCreateFileEvent ok el fd m pr cd; ae_run ok junk el ops }"
| "ae_run ok junk el (Delete fd m # ops) = do { el \<leftarrow> aeDeleteFileEvent ok el fd m; ae_run ok junk el ops }"
| "ae_run ok junk el (Resize n # ops) = ae_run ok junk (fst (aeResizeSetSize junk el n)) ops"

definition op_ok :: "ae_op \<Rightarrow> bool" where
  "op_ok p = (case p of Create fd m _ _ \<Rightarrow> 0 \<le> fd \<and> m \<in> {1, 2, 3} | Delete fd m \<Rightarrow> 0 \<le> fd \<and> m \<in> {1, 2, 3} | Resize _ \<Rightarrow> True)"

lemma ae_run_ok: "loop_ok ok el \<Longrightarrow> list_all op_ok ops \<Longrightarrow> \<exists>el'. ae_run ok junk el ops = Some el' \<and> loop_ok ok el'"
proof (induction ops arbitrary: el)
  case (Cons p ops)
  show ?case
  proof (cases p)
    case (Create fd m pr cd)
    then obtain el' rc where "aeCreateFileEvent ok el fd m pr cd = Some (el', rc)" "loop_ok ok el'"
      using aeCreateFileEvent_ok [OF Cons.prems(1), of fd m pr cd] Cons.prems(2) by (auto simp: op_ok_def)
    with Cons Create show ?thesis by simp
  next
    case (Delete fd m)
    then obtain el' where "aeDeleteFileEvent ok el fd m = Some el'" "loop_ok ok el'"
      using aeDeleteFileEvent_ok [OF Cons.prems(1), of fd m] Cons.prems(2) by (auto simp: op_ok_def)
    with Cons Delete show ?thesis by simp
  next
    case (Resize n)
    with Cons aeResizeSetSize_ok [OF Cons.prems(1)] show ?thesis by simp
  qed
qed simp

section \<open>Timers\<close>

definition ms_of :: "int \<times> int \<Rightarrow> int" where
  "ms_of t = fst t * 1000 + snd t"

definition time_ok :: "int \<times> int \<Rightarrow> bool" where
  "time_ok t \<longleftrightarrow> 0 \<le> snd t \<and> snd t < 1000"

abbreviation te_when :: "aeTimeEvent \<Rightarrow> int \<times> int" where
  "te_when te \<equiv> (te_when_sec te, te_when_ms te)"

lemma ms_of_less: "time_ok a \<Longrightarrow> time_ok b \<Longrightarrow> ms_of a < ms_of b \<longleftrightarrow> fst a < fst b \<or> fst a = fst b \<and> snd a < snd b"
  by (auto simp: time_ok_def ms_of_def)

lemma due_ms: "time_ok now \<Longrightarrow> time_ok (te_when te) \<Longrightarrow> due now te \<longleftrightarrow> ms_of (te_when te) \<le> ms_of now"
  by (auto simp: due_def time_ok_def ms_of_def)

lemma add_ms:
  assumes "time_ok now" "0 \<le> d"
  shows "time_ok (aeAddMillisecondsToNow now d)" "ms_of (aeAddMillisecondsToNow now d) = ms_of now + d"
proof -
  have "d sdiv 1000 = d div 1000" "d smod 1000 = d mod 1000" using assms(2) by (cases "d = 0"; simp add: signed_divide_int_def signed_modulo_int_def sgn_if)+
  moreover have "0 \<le> d mod 1000" "d mod 1000 < 1000" "d = d div 1000 * 1000 + d mod 1000" by simp_all
  ultimately show "time_ok (aeAddMillisecondsToNow now d)" "ms_of (aeAddMillisecondsToNow now d) = ms_of now + d"
    using assms(1) by (auto simp: aeAddMillisecondsToNow_def time_ok_def ms_of_def Let_def)
qed

lemma nearest_min:
  assumes "\<forall>x \<in> set tes \<union> set_option n. time_ok (te_when x)"
  shows "case nearest n tes of None \<Rightarrow> tes = [] \<and> n = None
    | Some te \<Rightarrow> te \<in> set tes \<union> set_option n \<and> (\<forall>x \<in> set tes \<union> set_option n. ms_of (te_when te) \<le> ms_of (te_when x))"
  using assms
proof (induction tes arbitrary: n)
  case (Cons te tes)
  let ?n = "case n of None \<Rightarrow> Some te | Some x \<Rightarrow> if te_when_sec te < te_when_sec x \<or>
    te_when_sec te = te_when_sec x \<and> te_when_ms te < te_when_ms x then Some te else Some x"
  obtain y where y: "?n = Some y" "y = te \<or> n = Some y" "ms_of (te_when y) \<le> ms_of (te_when te)"
    "\<forall>x \<in> set_option n. ms_of (te_when y) \<le> ms_of (te_when x)"
  proof (cases n)
    case None
    then show ?thesis using that [of te] by simp
  next
    case (Some x)
    have l: "ms_of (te_when te) < ms_of (te_when x) \<longleftrightarrow>
        te_when_sec te < te_when_sec x \<or> te_when_sec te = te_when_sec x \<and> te_when_ms te < te_when_ms x"
      using ms_of_less [of "te_when te" "te_when x"] Cons.prems Some by simp
    show ?thesis
    proof (cases "ms_of (te_when te) < ms_of (te_when x)")
      case True
      then show ?thesis using that [of te] Some l by simp
    next
      case False
      then have "ms_of (te_when x) \<le> ms_of (te_when te)" by simp
      with False show ?thesis using that [of x] Some unfolding l by auto
    qed
  qed
  have "\<forall>x \<in> set tes \<union> set_option ?n. time_ok (te_when x)" using Cons.prems y(1,2) by auto
  from Cons.IH [OF this] obtain z where z: "nearest ?n tes = Some z" "z \<in> set tes \<union> {y}"
    "\<forall>x \<in> set tes \<union> {y}. ms_of (te_when z) \<le> ms_of (te_when x)"
    unfolding y(1) by (auto split: option.splits)
  have "ms_of (te_when z) \<le> ms_of (te_when x)" if "x \<in> set (te # tes) \<union> set_option n" for x
  proof -
    have "ms_of (te_when z) \<le> ms_of (te_when y)" using z(3) by simp
    moreover have "x \<in> set tes \<or> ms_of (te_when y) \<le> ms_of (te_when x)" using that y(3,4) by auto
    ultimately show ?thesis using z(3) by (auto intro: order_trans)
  qed
  then show ?case using z(1,2) y(2) by auto
qed (auto split: option.splits)

section \<open>Properties\<close>

text \<open>
  C33: the kernel watches what the program registered.  From a new event loop, any sequence of
  registrations, removals and changes of the table's size, with requests that the kernel or the size
  refuse among them, runs without a fault; afterwards the kernel watches every descriptor for exactly
  the events in its slot, no descriptor beyond the table is watched, and \<open>maxfd\<close> is the highest
  descriptor in use, or -1.
\<close>

theorem ae_interest_exact:
  assumes "0 \<le> n" "list_all op_ok ops"
  shows "\<exists>el. ae_run ok junk (aeCreateEventLoop n now junk) ops = Some el \<and>
    (\<forall>fd. el_epoll el fd = interest (mask_at el fd)) \<and>
    (if el_maxfd el = -1 then \<forall>fd. mask_at el fd = AE_NONE
     else mask_at el (el_maxfd el) \<noteq> AE_NONE \<and> (\<forall>fd > el_maxfd el. mask_at el fd = AE_NONE))"
proof -
  obtain el where el: "ae_run ok junk (aeCreateEventLoop n now junk) ops = Some el" "loop_ok ok el"
    using ae_run_ok assms aeCreateEventLoop_ok by blast
  have "mask_at el fd = AE_NONE" if "el_maxfd el = -1" for fd
    using loop_okD(8) [OF el(2), of fd] that by (cases "fd < 0") (auto simp: mask_at_def)
  with el loop_okD(2,7,8) [OF el(2)] show ?thesis by auto
qed


text \<open>
  C35: the timer of the server.  With one timer in the list, whose handler keeps the list and asks for a
  positive delay, and a clock that was not set back and does not jump over that delay between two
  readings, the loop over the timers ends: the handler runs exactly once if the timer is due and is not
  called otherwise, and after a run the timer is due that delay after the reading that followed it.
\<close>

theorem timer_fires_once:
  assumes "\<forall>k. time_ok (ae_clock env k)" "time_ok (te_when te)" "el_timers el = [te]"
    and "te_id te \<le> ll (el_timeEventNextId el - 1)" "el_lastTime el \<le> fst (ae_clock env n)"
    and "ae_time env (te_timeProc te) (te_id te) (te_clientData te) (s, el\<lparr>el_lastTime := fst (ae_clock env n)\<rparr>) = Some (s', el', d)"
    and "el_timers el' = [te]" "0 < d" "ms_of (ae_clock env (n + 3)) < ms_of (ae_clock env (n + 2)) + d"
  shows "if ms_of (te_when te) \<le> ms_of (ae_clock env (n + 1))
    then \<exists>te'. processTimeEvents env n (s, el) = Some (Some (s', el'\<lparr>el_timers := [te']\<rparr>, n + 4, 1)) \<and>
      te_id te' = te_id te \<and> time_ok (te_when te') \<and> ms_of (te_when te') = ms_of (ae_clock env (n + 2)) + d
    else processTimeEvents env n (s, el) = Some (Some (s, el\<lparr>el_lastTime := fst (ae_clock env n)\<rparr>, n + 2, 0))"
proof -
  let ?c = "ae_clock env" and ?m = "ll (el_timeEventNextId el - 1)" and ?el = "el\<lparr>el_lastTime := fst (ae_clock env n)\<rparr>"
  have st: "processTimeEvents env n (s, el) = time_loop env ?m [te] (Suc n) 0 (s, ?el)"
    using assms(3,5) by (simp add: processTimeEvents_def Let_def)
  show ?thesis
  proof (cases "due (?c (Suc n)) te")
    case True
    let ?w = "aeAddMillisecondsToNow (?c (Suc (Suc n))) d"
    let ?te = "te\<lparr>te_when_sec := fst ?w, te_when_ms := snd ?w\<rparr>"
    have w: "time_ok ?w" "ms_of ?w = ms_of (?c (Suc (Suc n))) + d"
      using add_ms [of "?c (Suc (Suc n))" d] assms(1,8) by auto
    have f: "fire_timer env te (Suc (Suc n)) (s, ?el) = Some (s', el'\<lparr>el_timers := [?te]\<rparr>)"
      using assms(6,7,8) by (simp add: fire_timer_def set_when_def)
    have nd: "\<not> due (?c (Suc (Suc (Suc n)))) ?te"
      using due_ms [of "?c (Suc (Suc (Suc n)))" ?te] assms(1,9) w by (simp add: numeral_eq_Suc)
    have "time_loop env ?m [?te] (Suc (Suc (Suc n))) 1 (s', el'\<lparr>el_timers := [?te]\<rparr>) = Some (Some (s', el'\<lparr>el_timers := [?te]\<rparr>, n + 4, 1))"
      using nd assms(4) by (subst time_loop.simps, simp, subst time_loop.simps, simp add: numeral_eq_Suc)
    then have "processTimeEvents env n (s, el) = Some (Some (s', el'\<lparr>el_timers := [?te]\<rparr>, n + 4, 1))"
      unfolding st using True f assms(4) by (subst time_loop.simps) simp
    then show ?thesis using due_ms [of "?c (Suc n)" te] assms(1,2) True w
      by (auto intro!: exI [of _ ?te])
  next
    case False
    then have "processTimeEvents env n (s, el) = Some (Some (s, ?el, n + 2, 0))"
      unfolding st using assms(4) by (subst time_loop.simps, simp, subst time_loop.simps, simp)
    then show ?thesis using due_ms [of "?c (Suc n)" te] assms(1,2) False by simp
  qed
qed

section \<open>Examples\<close>

definition ae_slot :: "nat \<Rightarrow> aeFileEvent" where
  "ae_slot i = \<lparr>fe_mask = 7, fe_rfileProc = 0, fe_wfileProc = 0, fe_clientData = 0\<rparr>"

definition cron_timer :: aeTimeEvent where
  "cron_timer = \<lparr>te_id = 0, te_when_sec = 5, te_when_ms = 100, te_timeProc = 1, te_clientData = 0\<rparr>"

definition cron_loop :: aeEventLoop where
  "cron_loop = (aeCreateEventLoop 4 5 ae_slot)\<lparr>el_timers := [cron_timer], el_timeEventNextId := 1\<rparr>"

text \<open>The handler counts its runs and asks for ten milliseconds, as \<open>serverCron\<close> does with the default settings.\<close>

definition cron_env :: "nat aeenv" where
  "cron_env = \<lparr>ae_clock = (\<lambda>k. (5, 101 + int k mod 8)), ae_poll = (\<lambda>_ _. []), ae_file = (\<lambda>_ _ _ _ st. Some st),
     ae_time = (\<lambda>_ _ _ (s, el). Some (Suc s, el, 10))\<rparr>"

theorem ae_interest_exact_witness:
  "\<exists>el. ae_run (\<lambda>_. True) ae_slot (aeCreateEventLoop 8 0 ae_slot)
      [Create 3 1 10 20, Create 5 1 10 21, Create 5 2 11 21, Resize 4, Delete 5 1, Delete 5 2, Resize 4] = Some el \<and>
    (\<forall>fd. el_epoll el fd = interest (mask_at el fd))"
  using ae_interest_exact [of 8 "[Create 3 1 10 20, Create 5 1 10 21, Create 5 2 11 21, Resize 4, Delete 5 1, Delete 5 2, Resize 4]"
      "\<lambda>_. True" ae_slot 0] by (auto simp: op_ok_def)


theorem timer_fires_once_witness:
  "\<exists>te'. processTimeEvents cron_env 0 (0, cron_loop) =
      Some (Some (1, cron_loop\<lparr>el_lastTime := 5, el_timers := [te']\<rparr>, 4, 1)) \<and> ms_of (te_when te') = 5113"
proof -
  have h: "\<forall>k. time_ok (ae_clock cron_env k)" "time_ok (te_when cron_timer)" "el_timers cron_loop = [cron_timer]"
    "te_id cron_timer \<le> ll (el_timeEventNextId cron_loop - 1)" "el_lastTime cron_loop \<le> fst (ae_clock cron_env 0)"
    by (simp_all add: time_ok_def cron_env_def cron_timer_def cron_loop_def aeCreateEventLoop_def ll_def) (auto intro: order.strict_trans1)
  let ?el = "cron_loop\<lparr>el_lastTime := fst (ae_clock cron_env 0)\<rparr>"
  have t: "ae_time cron_env (te_timeProc cron_timer) (te_id cron_timer) (te_clientData cron_timer) (0, ?el) = Some (1, ?el, 10)"
    "el_timers ?el = [cron_timer]" "ms_of (ae_clock cron_env (0 + 3)) < ms_of (ae_clock cron_env (0 + 2)) + 10"
    "ms_of (te_when cron_timer) \<le> ms_of (ae_clock cron_env (0 + 1))" "ms_of (ae_clock cron_env (0 + 2)) = 5103" "fst (ae_clock cron_env 0) = 5"
    by (simp_all add: cron_env_def cron_loop_def ms_of_def cron_timer_def)
  show ?thesis using timer_fires_once [OF h t(1,2) _ t(3)] t(4-6) by auto
qed

end
