(* ===== verification/Spec2Isabelle.thy ===== *)
theory Spec2Isabelle
  imports Prez_Log Prez_Command Prez_Raft Prez_Server Prez_Ae
begin

text \<open>
  Verification of Prez, a replicated key-value server that joins the code base of Redis with the Raft
  protocol (sources under src/src/).

  \<^bold>\<open>The program.\<close>  A client connects over TCP and sends requests as lines or as length-prefixed
  arguments (networking.c).  \<open>processCommand\<close> (prez.c) looks the command up in a table.  A read runs at
  once on the key space (db.c), which is a hash table (dict.c) from byte strings (sds.c) to objects
  (object.c).  A write is refused by a follower or a candidate; the leader turns it into a log entry
  (\<open>clusterProcessCommand\<close>, cluster.c), appends the entry to its log in memory and on disk (log.c) and
  remembers the client under the index of the entry.  The servers exchange four messages over a second
  port, the cluster bus: the request for a vote, the request to append entries, and the two answers.
  \<open>clusterCron\<close>, called by the timer, reconnects the links, applies the committed entries with
  \<open>logApply\<close>, starts elections, and as a leader advances the commit index and sends heartbeats.  Settings
  come from a file, the command line and CONFIG SET (config.c).

  \<^bold>\<open>The theories.\<close>
  \<^item> \<open>Prez_Prelude\<close>: C integer conversions, C strings, decimal numerals, majorities; no code of the repository.
  \<^item> \<open>Prez_Util\<close> (util.c): \<open>ll2string\<close>, \<open>string2ll\<close>, \<open>memtoll\<close>, with the round trip of printing and parsing.
  \<^item> \<open>Prez_Glob\<close> (util.c): \<open>stringmatchlen\<close> against a reference definition of glob patterns.
  \<^item> \<open>Prez_Adlist\<close> (adlist.c): linked lists on an explicit heap of nodes, refined to lists by the locale
    \<open>sequence_store\<close>.
  \<^item> \<open>Prez_Sds\<close>, \<open>Prez_Args\<close> (sds.c): strings as header and allocation, all operations; quoting and
    splitting of argument lines.  The locale \<open>appendable\<close> is the contract of a growing buffer.
  \<^item> \<open>Prez_Object\<close> (object.c): string objects and their encodings.
  \<^item> \<open>Prez_Dict\<close>, \<open>Prez_DictTypes\<close> (dict.c, and the dictionary types of prez.c): two tables with
    incremental rehashing, iterators, hash functions.  The locale \<open>dict_type\<close> is what the table needs of
    a type, \<open>keyspace\<close> what it promises to its clients; both are interpreted on the types of the server.
  \<^item> \<open>Prez_Log\<close> (log.c): the list of entries, the file as a byte string, truncation, appending, commit
    index and the loader.
  \<^item> \<open>Prez_Client\<close>, \<open>Prez_Protocol\<close> (networking.c): replies and the write handler; the two request formats.
  \<^item> \<open>Prez_Config\<close> (config.c, and \<open>initServerConfig\<close>, \<open>adjustOpenFilesLimit\<close> and the options of \<open>main\<close> in
    prez.c): the settings as the record \<open>config\<close>.
  \<^item> \<open>Prez_Command\<close> (db.c, prez.c): key space, command table, GET, SET, CONFIG and \<open>call\<close>.
  \<^item> \<open>Prez_Bus\<close> (cluster.c, cluster.h): the packets as bytes, field by field through the locale
    \<open>wire_field\<close>, and the framing of the stream.
  \<^item> \<open>Prez_Cluster\<close> (cluster.c): nodes, links, nodes.conf, the messages, their handlers and the parts of
    the cron job; the record \<open>clusterState\<close> extends the state of the log.
  \<^item> \<open>Prez_Ballot\<close>, \<open>Prez_Raft\<close>: every server runs the code of \<open>Prez_Cluster\<close>, packets travel over links
    that may cut, delay or lose them; an inductive step relation over the handlers.
  \<^item> \<open>Prez_Server\<close> (networking.c, prez.c, cluster.c, log.c): one server with its clients: connections, the
    read handler, \<open>processCommand\<close>, \<open>clusterProcessCommand\<close>, \<open>logApply\<close>, \<open>clusterCron\<close> and \<open>serverCron\<close>.
  \<^item> \<open>Prez_Ae\<close> (ae.c, ae_epoll.c): file events with the interest list of the kernel, timers, the wait
    and the dispatch; handlers are parameters.

  \<^bold>\<open>How code becomes definitions.\<close>  A struct is a record, an enumeration a datatype, a function that
  changes state takes and returns the record.  Memory whose addresses matter (list nodes, cluster nodes
  and links, clients) is a map from addresses; the rest is a value.  The result \<open>None\<close> is a memory
  fault, the dereference of NULL or a failed assertion; loaders that may end the process return
  \<open>fault + 'a\<close>.  Integers keep their width: \<open>ll\<close>, \<open>ull\<close> and \<open>c_int32\<close> are the conversions of C, and hash
  functions work on 32-bit words.  What the operating system, the network, the clock and the allocator
  answer is a field of an environment (\<open>osenv\<close>, \<open>netenv\<close>, \<open>cfgenv\<close>, \<open>srvenv\<close>, \<open>busenv\<close>, \<open>runenv\<close>), as
  is the content of uninitialised memory.

  \<^bold>\<open>Loops and fuel.\<close>  Loops are recursive functions with termination proofs.  Four may run without end
  as far as their text goes and are partial functions, where \<open>None\<close> is the loop that does not end: the
  formatting loop of \<open>sdscatvprintf\<close> (shown to end), the loader of configuration files (a file may
  include itself; shown to end without includes), the input loop of a client (shown to end on a single
  write request) and the loop over the timers (shown to end for one timer with a positive delay).  The
  walk over a table by its iterator has fuel one above the number of entries, which is shown to be
  enough.  The bounds in hypotheses (tables up to 2^28 entries, strings below 2^30 bytes, logs below
  2^62 entries) keep the 32 and 64 bit counters from wrapping.

  \<^bold>\<open>What the lemmas show.\<close>  \<^emph>\<open>Consensus\<close>: at most one server leads a term; the rule of a vote; the rule
  of the commit index; what AppendEntries does to a log, and that the loader rebuilds the log.
  \<^emph>\<open>Composition\<close>: a SET read from a socket becomes one entry, and the leader and a server that holds a
  copy of the entry store the same value when they apply it; a follower's apply loop performs the
  committed entries as updates of a map.  \<^emph>\<open>Data structures\<close>: lists, strings and tables refine
  sequences and maps, during a rehash as well.  \<^emph>\<open>Protocols\<close>: requests and packets are decoded however
  the stream is cut, and replies leave in order.  \<^emph>\<open>Event loop\<close>: the kernel watches exactly what is
  registered, and the timer of the server runs once when it is due.  \<^emph>\<open>Settings\<close>: accepted settings are valid and are shown
  as they were set.  \<^emph>\<open>Errors\<close>: where the code does not do what it means to, a theorem says exactly
  when: the last conflicting entry, the bare line feed, the surplus argument of SET, the shipped
  configuration, the writes a leader cannot log, the pipelined write and the sleep past a due timer.

  \<^bold>\<open>Hypotheses about the environment.\<close>  Election safety assumes that the bytes in front of a copied name
  read as a length above the name's, that no server is restarted (neither term nor vote is stored on
  disk), that terms stay below the 64-bit limit, that every table has as many nodes as the cluster and
  that no link leads back to its owner.  Requests of clients enter there as writes of the log.  The
  loader of the log assumes a file that agrees with the list, which complete writes produce.

  \<^bold>\<open>Not modelled.\<close>  The other backends of the event loop (ae_select.c, ae_kqueue.c, ae_evport.c), sockets
  (anet.c) and the allocator (zmalloc.c) are calls of the operating system, whose results are
  parameters.  debug.c prints reports on a crash.  The encodings ziplist.c and zipmap.c with
  endianconv.c, the compressor (lzf_c.c, lzf_d.c), the partial sort (pqsort.c), sha1.c and crc64.c are
  linked, but no live code of the server calls them.  Most of db.c and parts of networking.c, config.c,
  object.c and dict.c are disabled by the preprocessor and are no part of the program.  Start-up, signal
  handlers, the server log, \<open>aeMain\<close>, the CLIENT command, the Unix socket, \<open>dictScan\<close>, random keys and the
  path helpers of util.c are left out.  Reference counts are not tracked: the code releases memory, the
  model keeps values.
\<close>

end
